(* ===== verification/Prelude.thy ===== *)
theory Prelude
  imports Main "HOL-Library.Word"
begin

text \<open>
  What every component of the C runtime shares: the faults a C function can run into,
  results that are either a fault or a value, computations that may not return, and a
  typed store for the objects the code allocates with \<open>malloc\<close>.

  \<^item> \<open>c_error\<close> names the ways an execution leaves the defined behaviour of the code or is
    stopped by an \<open>assert\<close>.
  \<^item> \<open>'a result\<close> is a fault (\<open>Inl\<close>) or a value (\<open>Inr\<close>); \<open>seq\<close> runs a second
    computation on the value of the first.
  \<^item> \<open>'a run\<close> adds a third outcome, \<open>None\<close>: the loop never ends.
  \<^item> \<open>'o store\<close> is one region of the C heap holding objects of one struct type.  An
    address is never handed out twice, so a dangling pointer stays visible: reading it is
    \<open>UseAfterFree\<close> and freeing it again is \<open>InvalidFree\<close>.
\<close>

section \<open>Collections of facts\<close>

named_theorems store_simps \<open>how loads see stores, allocations and frees\<close>
named_theorems frame_intros \<open>what an operation leaves unchanged\<close>

section \<open>Faults, results, runs\<close>

datatype c_error =
    AssertFailed string
  | NullDeref
  | UseAfterFree
  | InvalidFree
  | OutOfBounds
  | BufferOverflow
  | DivisionByZero
  | SignedOverflow
  | MissingReturn
  | NullCall
  | UninitRead
  | Thrown string

type_synonym 'a result = "c_error + 'a"

type_synonym 'a run = "'a result option"

definition seq :: "'a result \<Rightarrow> ('a \<Rightarrow> 'b result) \<Rightarrow> 'b result" where
  "seq m f = (case m of Inl e \<Rightarrow> Inl e | Inr x \<Rightarrow> f x)"

lemma seq_simps [simp]:
  "seq (Inl e) f = Inl e"
  "seq (Inr x) f = f x"
  by (simp_all add: seq_def)

lemma seq_Inr_iff [simp]: "seq m f = Inr y \<longleftrightarrow> (\<exists>x. m = Inr x \<and> f x = Inr y)"
  by (cases m) simp_all

definition return_run :: "'a \<Rightarrow> 'a run" where
  "return_run x = Some (Inr x)"

definition fail_run :: "c_error \<Rightarrow> 'a run" where
  "fail_run e = Some (Inl e)"

definition lift_run :: "'a result \<Rightarrow> 'a run" where
  "lift_run m = Some m"

definition bind_run :: "'a run \<Rightarrow> ('a \<Rightarrow> 'b run) \<Rightarrow> 'b run" where
  "bind_run m f = (case m of None \<Rightarrow> None | Some (Inl e) \<Rightarrow> Some (Inl e) | Some (Inr x) \<Rightarrow> f x)"

lemma bind_run_simps [simp]:
  "bind_run None f = None"
  "bind_run (Some (Inl e)) f = Some (Inl e)"
  "bind_run (Some (Inr x)) f = f x"
  "bind_run (return_run x) f = f x"
  "bind_run (fail_run e) f = fail_run e"
  by (simp_all add: bind_run_def return_run_def fail_run_def)

lemma run_inject [simp]:
  "return_run x = return_run y \<longleftrightarrow> x = y"
  "return_run x \<noteq> fail_run e"
  "fail_run e \<noteq> return_run x"
  "lift_run (Inr x) = return_run x"
  "lift_run (Inl e) = fail_run e"
  by (simp_all add: return_run_def fail_run_def lift_run_def)

lemma bind_run_Inr_iff:
  "bind_run m f = Some (Inr y) \<longleftrightarrow> (\<exists>x. m = Some (Inr x) \<and> f x = Some (Inr y))"
  by (auto simp: bind_run_def split: option.splits sum.splits)

lemma return_run_Some [simp]: "return_run x = Some r \<longleftrightarrow> r = Inr x"
  by (auto simp: return_run_def)

lemma lift_run_Some [simp]: "lift_run m = Some r \<longleftrightarrow> m = r"
  by (auto simp: lift_run_def)

lemma fail_run_Some [simp]: "fail_run e = Some r \<longleftrightarrow> r = Inl e"
  by (auto simp: fail_run_def)

lemma bind_run_pairE:
  assumes "bind_run m f = Some (Inr y)"
  obtains a b where "m = Some (Inr (a, b))" and "f (a, b) = Some (Inr y)"
  using assms by (auto simp: bind_run_Inr_iff)

lemma bind_run_cases:
  assumes "bind_run m f = Some r"
  obtains (faulty) e where "m = Some (Inl e)" and "r = Inl e"
  | (returned) x where "m = Some (Inr x)" and "f x = Some r"
  using assms by (auto simp: bind_run_def split: option.splits sum.splits)

definition returns :: "'a run \<Rightarrow> bool" where
  "returns m \<longleftrightarrow> (\<exists>r. m = Some r)"

lemma returns_simps [simp]:
  "returns (Some r)" "\<not> returns None"
  "returns (return_run x)" "returns (fail_run e)" "returns (lift_run r)"
  by (simp_all add: returns_def return_run_def fail_run_def lift_run_def)

lemma returns_bind_run:
  "returns (bind_run m f) \<longleftrightarrow> returns m \<and> (\<forall>x. m = Some (Inr x) \<longrightarrow> returns (f x))"
  by (auto simp: bind_run_def returns_def split: option.splits sum.splits)

text \<open>A \<open>partial_function\<close> may call itself inside \<open>bind_run\<close>.\<close>

lemma bind_run_mono [partial_function_mono]:
  fixes B :: "('a \<Rightarrow> 'b option) \<Rightarrow> 'c run"
    and C :: "'c \<Rightarrow> ('a \<Rightarrow> 'b option) \<Rightarrow> 'd run"
  assumes "mono_option B" and "\<And>y. mono_option (C y)"
  shows "mono_option (\<lambda>f. bind_run (B f) (\<lambda>y. C y f))"
proof (unfold monotone_def, intro allI impI)
  fix f g :: "'a \<Rightarrow> 'b option"
  assume fg: "option.le_fun f g"
  have B: "B f = None \<or> B f = B g" and C: "\<And>y. C y f = None \<or> C y f = C y g"
    using assms fg by (auto simp: monotone_def flat_ord_def)
  show "option_ord (bind_run (B f) (\<lambda>y. C y f)) (bind_run (B g) (\<lambda>y. C y g))"
  proof (cases "B f")
    case (Some r)
    with B have "B g = Some r" by simp
    with Some C show ?thesis by (cases r) (auto simp: flat_ord_def)
  qed (simp add: flat_ord_def)
qed

text \<open>The \<open>assert\<close> of the C library, in a build that checks assertions.\<close>

definition c_assert :: "string \<Rightarrow> bool \<Rightarrow> unit result" where
  "c_assert what ok = (if ok then Inr () else Inl (AssertFailed what))"

lemma c_assert_simps [simp]:
  "c_assert what True = Inr ()"
  "c_assert what False = Inl (AssertFailed what)"
  by (simp_all add: c_assert_def)

section \<open>A store of allocated objects\<close>

type_synonym addr = nat

abbreviation (input) NULL :: addr where "NULL \<equiv> 0"

record 'o store =
  objs :: "addr \<Rightarrow> 'o option"
  fresh :: addr

definition empty_store :: "'o store" where
  "empty_store = \<lparr>objs = (\<lambda>_. None), fresh = 1\<rparr>"

definition store_ok :: "'o store \<Rightarrow> bool" where
  "store_ok s \<longleftrightarrow> 0 < fresh s \<and> (\<forall>a \<ge> fresh s. objs s a = None) \<and> objs s NULL = None"

definition set_obj :: "addr \<Rightarrow> 'o option \<Rightarrow> 'o store \<Rightarrow> 'o store" where
  "set_obj a x s = s\<lparr>objs := (objs s)(a := x)\<rparr>"

definition malloc :: "'o \<Rightarrow> 'o store \<Rightarrow> addr \<times> 'o store" where
  "malloc x s = (fresh s, (set_obj (fresh s) (Some x) s)\<lparr>fresh := Suc (fresh s)\<rparr>)"

definition load :: "'o store \<Rightarrow> addr \<Rightarrow> 'o result" where
  "load s a =
     (if a = NULL then Inl NullDeref
      else case objs s a of None \<Rightarrow> Inl UseAfterFree | Some x \<Rightarrow> Inr x)"

definition poke :: "addr \<Rightarrow> 'o \<Rightarrow> 'o store \<Rightarrow> 'o store result" where
  "poke a x s = seq (load s a) (\<lambda>_. Inr (set_obj a (Some x) s))"

definition c_free :: "addr \<Rightarrow> 'o store \<Rightarrow> 'o store result" where
  "c_free a s =
     (if a = NULL then Inr s
      else case objs s a of None \<Rightarrow> Inl InvalidFree | Some _ \<Rightarrow> Inr (set_obj a None s))"

lemma objs_set_obj [simp]: "objs (set_obj a x s) b = (if b = a then x else objs s b)"
  by (simp add: set_obj_def)

lemma fresh_set_obj [simp]: "fresh (set_obj a x s) = fresh s"
  by (simp add: set_obj_def)

lemma load_Inr_iff [simp]: "load s a = Inr x \<longleftrightarrow> a \<noteq> NULL \<and> objs s a = Some x"
  by (auto simp: load_def split: option.splits)

lemma load_NULL [simp]: "load s NULL = Inl NullDeref"
  by (simp add: load_def)

lemma load_live [store_simps]: "a \<noteq> NULL \<Longrightarrow> objs s a = Some x \<Longrightarrow> load s a = Inr x"
  by simp

lemma load_dangling [store_simps]: "a \<noteq> NULL \<Longrightarrow> objs s a = None \<Longrightarrow> load s a = Inl UseAfterFree"
  by (simp add: load_def)

lemma poke_live [store_simps]:
  "a \<noteq> NULL \<Longrightarrow> objs s a = Some y \<Longrightarrow> poke a x s = Inr (set_obj a (Some x) s)"
  by (simp add: poke_def store_simps)

lemma c_free_live [store_simps]:
  "a \<noteq> NULL \<Longrightarrow> objs s a = Some y \<Longrightarrow> c_free a s = Inr (set_obj a None s)"
  by (simp add: c_free_def)

lemma c_free_dangling [store_simps]:
  "a \<noteq> NULL \<Longrightarrow> objs s a = None \<Longrightarrow> c_free a s = Inl InvalidFree"
  by (simp add: c_free_def)

lemma store_ok_empty [simp, intro]: "store_ok empty_store"
  by (simp add: store_ok_def empty_store_def)

lemma store_okD [dest]:
  assumes "store_ok s" and "objs s a = Some x"
  shows "a \<noteq> NULL \<and> a < fresh s"
proof -
  from assms have "a \<noteq> NULL" by (cases "a = NULL") (auto simp: store_ok_def)
  moreover from assms have "\<not> fresh s \<le> a" by (auto simp: store_ok_def)
  ultimately show ?thesis by simp
qed

lemma store_ok_malloc [frame_intros]:
  "store_ok s \<Longrightarrow> malloc x s = (p, s') \<Longrightarrow> store_ok s'"
  by (auto simp: store_ok_def malloc_def)

lemma store_ok_poke [frame_intros]:
  "store_ok s \<Longrightarrow> objs s a = Some y \<Longrightarrow> store_ok (set_obj a (Some x) s)"
  by (frule (1) store_okD) (auto simp: store_ok_def)

lemma store_ok_free [frame_intros]: "store_ok s \<Longrightarrow> store_ok (set_obj a None s)"
  by (auto simp: store_ok_def)

end
