(* ===== verification/Chain.thy ===== *)
theory Chain
  imports Prelude
begin

text \<open>
  Pointer chains in a store, for any struct that has a payload and a \<open>next\<close> field: the cells
  of \<open>list.c\<close> and the nodes of \<open>queue.c\<close>.

  \<open>path val nxt s p cs\<close> says that from \<open>p\<close> the objects at the addresses of \<open>cs\<close>, with the
  payloads of \<open>cs\<close>, follow one another through \<open>nxt\<close> until NULL.  The locale \<open>linked\<close> is the
  interface the two components use: a field update that redirects \<open>next\<close> and keeps the
  payload.
\<close>

fun path :: "('o \<Rightarrow> addr) \<Rightarrow> ('o \<Rightarrow> addr) \<Rightarrow> 'o store \<Rightarrow> addr \<Rightarrow> (addr \<times> addr) list \<Rightarrow> bool" where
  "path val nxt s p [] = (p = NULL)"
| "path val nxt s p ((a, d) # cs) =
     (p = a \<and> a \<noteq> NULL \<and>
      (case objs s a of None \<Rightarrow> False | Some c \<Rightarrow> val c = d \<and> path val nxt s (nxt c) cs))"

abbreviation cells_of :: "(addr \<times> addr) list \<Rightarrow> addr list" where
  "cells_of cs \<equiv> map fst cs"

abbreviation data_of :: "(addr \<times> addr) list \<Rightarrow> addr list" where
  "data_of cs \<equiv> map snd cs"

lemma path_Cons_iff:
  "path val nxt s p (x # cs) \<longleftrightarrow> p = fst x \<and> p \<noteq> NULL \<and>
     (\<exists>c. objs s p = Some c \<and> val c = snd x \<and> path val nxt s (nxt c) cs)"
  by (cases x) (auto split: option.splits)

declare path.simps(2) [simp del]

lemmas path_simps [simp] = path_Cons_iff

lemma path_NULL [simp]: "path val nxt s NULL cs \<longleftrightarrow> cs = []"
  by (cases cs) auto

lemma path_non_NULL:
  assumes "path val nxt s p cs" and "p \<noteq> NULL"
  obtains d ds c where "cs = (p, d) # ds" and "objs s p = Some c" and "val c = d"
    and "path val nxt s (nxt c) ds"
proof (cases cs)
  case Nil
  with assms show ?thesis by simp
next
  case (Cons x ds)
  with assms that show ?thesis by (cases x) auto
qed

lemma path_unique: "path val nxt s p cs \<Longrightarrow> path val nxt s p ds \<Longrightarrow> cs = ds"
proof (induction cs arbitrary: p ds)
  case Nil
  then show ?case by simp
next
  case (Cons x cs)
  then obtain y es where "ds = y # es" by (cases ds) auto
  with Cons show ?case by (cases x, cases y) auto
qed

lemma path_split:
  "path val nxt s p (cs @ ds) \<Longrightarrow> \<exists>q. path val nxt s q ds \<and> (ds \<noteq> [] \<longrightarrow> q = fst (hd ds))"
  by (induction cs arbitrary: p) (cases ds, auto)

lemma path_not_in_tail:
  assumes "path val nxt s p (x # cs)"
  shows "p \<notin> set (cells_of cs)"
proof
  assume "p \<in> set (cells_of cs)"
  then obtain y where y: "y \<in> set cs" "p = fst y" by auto
  then obtain es ds where cs: "cs = es @ y # ds" by (meson split_list)
  from assms have "path val nxt s p ((x # es) @ y # ds)" by (simp only: cs append_Cons)
  then obtain q where q: "path val nxt s q (y # ds)" "q = p"
    using path_split [of val nxt s p "x # es" "y # ds"] y(2) by auto
  from q(1) have "path val nxt s p (y # ds)" unfolding q(2) .
  with assms have "x # cs = y # ds" by (rule path_unique)
  then have "length (x # cs) = length (y # ds)" by simp
  then show False by (simp add: cs)
qed

lemma path_distinct: "path val nxt s p cs \<Longrightarrow> distinct (cells_of cs)"
proof (induction cs arbitrary: p)
  case (Cons x cs)
  then have "fst x \<notin> set (cells_of cs)"
    using path_not_in_tail [of val nxt s p x cs] by auto
  with Cons show ?case by auto
qed simp

lemma path_live: "path val nxt s p cs \<Longrightarrow> a \<in> set (cells_of cs) \<Longrightarrow> \<exists>c. objs s a = Some c"
  by (induction cs arbitrary: p) auto

lemma path_NULL_notin: "path val nxt s p cs \<Longrightarrow> NULL \<notin> set (cells_of cs)"
  by (induction cs arbitrary: p) auto

lemma path_step:
  assumes "path val nxt s p cs" and "a \<in> set (cells_of cs)"
  shows "\<exists>c. objs s a = Some c \<and> val c \<in> set (data_of cs) \<and>
    (a \<noteq> fst (last cs) \<longrightarrow> nxt c \<in> set (cells_of cs))"
  using assms
proof (induction cs arbitrary: p)
  case (Cons z cs)
  then obtain c where c: "objs s (fst z) = Some c" "val c = snd z" "path val nxt s (nxt c) cs"
    by auto
  show ?case
  proof (cases "a \<in> set (cells_of cs)")
    case True
    then have "last (z # cs) = last cs" by auto
    with Cons.IH [OF c(3) True] show ?thesis by auto
  next
    case False
    with Cons.prems have a: "a = fst z" by auto
    show ?thesis
    proof (cases cs)
      case Nil
      with a c show ?thesis by simp
    next
      case (Cons y ys)
      with c have "nxt c \<in> set (cells_of (z # cs))" by auto
      with a c show ?thesis by auto
    qed
  qed
qed simp

lemma path_upd [simp]:
  "a \<notin> set (cells_of cs) \<Longrightarrow> path val nxt (set_obj a y s) p cs = path val nxt s p cs"
  by (induction cs arbitrary: p) auto

lemma path_fresh [simp]: "path val nxt (s\<lparr>fresh := n\<rparr>) p cs = path val nxt s p cs"
  by (induction cs arbitrary: p) auto

lemma path_fresh_notin: "store_ok s \<Longrightarrow> path val nxt s p cs \<Longrightarrow> fresh s \<notin> set (cells_of cs)"
  using path_live by (fastforce simp: store_ok_def)

section \<open>The interface of a linked struct\<close>

locale linked =
  fixes val :: "'o \<Rightarrow> addr" and nxt :: "'o \<Rightarrow> addr" and set_nxt :: "addr \<Rightarrow> 'o \<Rightarrow> 'o"
  assumes val_set_nxt [simp]: "val (set_nxt q c) = val c"
    and nxt_set_nxt [simp]: "nxt (set_nxt q c) = q"
begin

lemma relink:
  assumes "path val nxt s p (cs @ [x])" and "path val nxt s q ds"
    and "set (cells_of (cs @ [x])) \<inter> set (cells_of ds) = {}"
    and "objs s (fst x) = Some c"
  shows "path val nxt (set_obj (fst x) (Some (set_nxt q c)) s) p (cs @ x # ds)"
  using assms
proof (induction cs arbitrary: p)
  case Nil
  then show ?case by auto
next
  case (Cons y cs)
  then have "fst y \<noteq> fst x" using path_not_in_tail [of val nxt s p y "cs @ [x]"] by auto
  with Cons show ?case by auto
qed

end

end
