(* ===== verification/Linked_List.thy ===== *)
theory Linked_List
  imports Chain
begin

text \<open>
  \<open>runtime/c/list.c\<close> and \<open>dzn/list.h\<close>: singly linked lists of \<open>void *\<close> on the C heap.

  A cell is a record of the two fields of \<open>struct dzn_list\<close>; the heap of all cells is a
  \<open>dzn_list store\<close>.  The loops that walk \<open>next\<close> pointers are \<open>partial_function\<close>s into
  \<open>'a run\<close>, because a pointer chain may be a cycle and the C code then never returns.
  \<open>chain s p cs\<close> is the abstraction: from \<open>p\<close> the cells with the addresses and data of
  \<open>cs\<close> follow one another up to NULL.  Under it every operation returns and computes the
  list function it stands for.
\<close>

section \<open>The operations\<close>

record dzn_list =
  cell_data :: addr
  cell_next :: addr

type_synonym cells = "dzn_list store"

type_synonym dzn_predicate = "addr \<Rightarrow> bool result"

definition dzn_list_create :: "addr \<Rightarrow> addr \<Rightarrow> cells \<Rightarrow> addr \<times> cells" where
  "dzn_list_create nxt data s = malloc \<lparr>cell_data = data, cell_next = nxt\<rparr> s"

partial_function (option) find_cell :: "cells \<Rightarrow> addr \<Rightarrow> addr \<Rightarrow> addr run" where
  "find_cell s self data =
     (if self = NULL then Some (Inr NULL)
      else case load s self of
        Inl e \<Rightarrow> Some (Inl e)
      | Inr c \<Rightarrow> if cell_data c = data then Some (Inr self) else find_cell s (cell_next c) data)"

partial_function (option) find_cell_predicate ::
    "cells \<Rightarrow> addr \<Rightarrow> dzn_predicate \<Rightarrow> addr run" where
  "find_cell_predicate s self predicate =
     (if self = NULL then Some (Inr NULL)
      else case load s self of
        Inl e \<Rightarrow> Some (Inl e)
      | Inr c \<Rightarrow>
          (case predicate (cell_data c) of
             Inl e \<Rightarrow> Some (Inl e)
           | Inr b \<Rightarrow> if b then Some (Inr self)
                     else find_cell_predicate s (cell_next c) predicate))"

definition dzn_list_cons :: "addr \<Rightarrow> addr \<Rightarrow> cells \<Rightarrow> addr \<times> cells" where
  "dzn_list_cons data self s = dzn_list_create self data s"

definition dzn_list_data :: "addr \<Rightarrow> cells \<Rightarrow> addr \<times> cells" where
  "dzn_list_data data s = dzn_list_create NULL data s"

text \<open>The loop of \<open>dzn_list_append\<close>: \<open>while (head && head->next) head = head->next\<close>.\<close>

partial_function (option) append_loop :: "cells \<Rightarrow> addr \<Rightarrow> addr run" where
  "append_loop s head =
     (if head = NULL then Some (Inr NULL)
      else case load s head of
        Inl e \<Rightarrow> Some (Inl e)
      | Inr c \<Rightarrow> if cell_next c = NULL then Some (Inr head) else append_loop s (cell_next c))"

definition dzn_list_append :: "addr \<Rightarrow> addr \<Rightarrow> cells \<Rightarrow> (addr \<times> cells) run" where
  "dzn_list_append self lst s =
     (if self = NULL then return_run (lst, s)
      else bind_run (append_loop s self) (\<lambda>head.
        lift_run (seq (load s head) (\<lambda>c.
          seq (poke head (c\<lparr>cell_next := lst\<rparr>) s) (\<lambda>s'. Inr (self, s'))))))"

text \<open>The counter of \<open>dzn_list_length\<close> is an \<open>int\<close>; incrementing \<open>INT_MAX\<close> is undefined.\<close>

definition INT_MAX :: int where "INT_MAX = 2147483647"
definition INT_MIN :: int where "INT_MIN = - 2147483648"

partial_function (option) length_loop :: "cells \<Rightarrow> addr \<Rightarrow> int \<Rightarrow> int run" where
  "length_loop s self len =
     (if self = NULL then Some (Inr len)
      else if len = INT_MAX then Some (Inl SignedOverflow)
      else case load s self of
        Inl e \<Rightarrow> Some (Inl e)
      | Inr c \<Rightarrow> length_loop s (cell_next c) (len + 1))"

definition dzn_list_length :: "addr \<Rightarrow> cells \<Rightarrow> int run" where
  "dzn_list_length self s = length_loop s self 0"

definition cell_contents :: "cells \<Rightarrow> addr \<Rightarrow> addr result" where
  "cell_contents s cell =
     (if cell \<noteq> NULL then seq (load s cell) (\<lambda>c. Inr (cell_data c)) else Inr NULL)"

definition dzn_list_find :: "addr \<Rightarrow> addr \<Rightarrow> cells \<Rightarrow> addr run" where
  "dzn_list_find self data s =
     bind_run (find_cell s self data) (\<lambda>cell. lift_run (cell_contents s cell))"

definition dzn_list_find_predicate :: "addr \<Rightarrow> dzn_predicate \<Rightarrow> cells \<Rightarrow> addr run" where
  "dzn_list_find_predicate self predicate s =
     bind_run (find_cell_predicate s self predicate) (\<lambda>cell. lift_run (cell_contents s cell))"

text \<open>The second half of \<open>dzn_list_delete\<close>: look one cell ahead, unlink and free it.\<close>

partial_function (option) delete_loop :: "cells \<Rightarrow> addr \<Rightarrow> addr \<Rightarrow> cells run" where
  "delete_loop s head data =
     (if head = NULL then Some (Inr s)
      else case load s head of
        Inl e \<Rightarrow> Some (Inl e)
      | Inr h \<Rightarrow>
          (if cell_next h = NULL then Some (Inr s)
           else case load s (cell_next h) of
             Inl e \<Rightarrow> Some (Inl e)
           | Inr c \<Rightarrow>
               (if cell_data c = data
                then Some (seq (poke head (h\<lparr>cell_next := cell_next c\<rparr>) s) (c_free (cell_next h)))
                else delete_loop s (cell_next h) data)))"

definition dzn_list_delete :: "addr \<Rightarrow> addr \<Rightarrow> cells \<Rightarrow> (addr \<times> cells) run" where
  "dzn_list_delete self data s =
     (if self = NULL then return_run (NULL, s)
      else bind_run (lift_run (load s self)) (\<lambda>h.
        if cell_data h = data
        then lift_run (seq (c_free self s) (\<lambda>s'. Inr (cell_next h, s')))
        else bind_run (delete_loop s self data) (\<lambda>s'. return_run (self, s'))))"

section \<open>The abstraction\<close>

abbreviation chain :: "cells \<Rightarrow> addr \<Rightarrow> (addr \<times> addr) list \<Rightarrow> bool" where
  "chain \<equiv> path cell_data cell_next"

interpretation cell: linked cell_data cell_next "\<lambda>q c. c\<lparr>cell_next := q\<rparr>"
  by unfold_locales simp_all

section \<open>What the operations do on a chain\<close>

lemma dzn_list_create_chain:
  assumes "store_ok s" and "chain s p cs" and "dzn_list_create p d s = (q, s')"
  shows "chain s' q ((q, d) # cs)" and "store_ok s'" and "q = fresh s"
    and "\<And>a. a \<noteq> q \<Longrightarrow> objs s' a = objs s a"
  using assms path_fresh_notin [OF assms(1,2)]
  by (auto simp: dzn_list_create_def malloc_def store_ok_def)

lemma find_cell_chain:
  "chain s p cs \<Longrightarrow>
     find_cell s p d = Some (Inr (case find (\<lambda>x. snd x = d) cs of None \<Rightarrow> NULL | Some x \<Rightarrow> fst x))"
proof (induction cs arbitrary: p)
  case Nil
  then show ?case by (simp add: find_cell.simps)
next
  case (Cons x cs)
  then show ?case by (subst find_cell.simps) (auto simp: store_simps)
qed

text \<open>A predicate may fault on the data; the first fault or match ends the search.\<close>

fun first_match :: "dzn_predicate \<Rightarrow> (addr \<times> addr) list \<Rightarrow> (addr \<times> addr) option result" where
  "first_match P [] = Inr None"
| "first_match P (x # cs) = seq (P (snd x)) (\<lambda>b. if b then Inr (Some x) else first_match P cs)"

lemma first_match_mem: "first_match P cs = Inr (Some x) \<Longrightarrow> x \<in> set cs \<and> P (snd x) = Inr True"
  by (induction cs) (auto split: if_splits)

lemma first_match_pure:
  "(\<And>x. x \<in> set cs \<Longrightarrow> P (snd x) = Inr (Q x)) \<Longrightarrow> first_match P cs = Inr (find Q cs)"
  by (induction cs) auto

lemma find_cell_predicate_chain:
  "chain s p cs \<Longrightarrow>
     find_cell_predicate s p P =
       Some (seq (first_match P cs) (\<lambda>m. Inr (case m of None \<Rightarrow> NULL | Some x \<Rightarrow> fst x)))"
proof (induction cs arbitrary: p)
  case Nil
  then show ?case by (simp add: find_cell_predicate.simps)
next
  case (Cons x cs)
  then show ?case
    by (subst find_cell_predicate.simps) (auto simp: store_simps split: sum.splits)
qed

lemma chain_cell_contents:
  "chain s p cs \<Longrightarrow> x \<in> set cs \<Longrightarrow> cell_contents s (fst x) = Inr (snd x)"
  by (induction cs arbitrary: p) (auto simp: cell_contents_def store_simps)

lemma dzn_list_find_chain:
  assumes "chain s p cs"
  shows "dzn_list_find p d s = return_run (if d \<in> set (data_of cs) then d else NULL)"
proof (cases "find (\<lambda>x. snd x = d) cs")
  case None
  then have "d \<notin> set (data_of cs)" by (auto simp: find_None_iff)
  with assms None show ?thesis
    by (simp add: dzn_list_find_def find_cell_chain cell_contents_def lift_run_def return_run_def)
next
  case (Some x)
  then have x: "x \<in> set cs" "snd x = d" by (auto simp: find_Some_iff)
  then have "cell_contents s (fst x) = Inr d" using assms chain_cell_contents by blast
  with assms Some x show ?thesis
    by (auto simp: dzn_list_find_def find_cell_chain lift_run_def return_run_def)
qed

lemma dzn_list_find_predicate_chain:
  assumes "chain s p cs"
  shows "dzn_list_find_predicate p P s =
     Some (seq (first_match P cs) (\<lambda>m. Inr (case m of None \<Rightarrow> NULL | Some x \<Rightarrow> snd x)))"
proof (cases "first_match P cs")
  case (Inl e)
  with assms show ?thesis by (simp add: dzn_list_find_predicate_def find_cell_predicate_chain)
next
  case (Inr m)
  show ?thesis
  proof (cases m)
    case None
    with Inr assms show ?thesis
      by (simp add: dzn_list_find_predicate_def find_cell_predicate_chain cell_contents_def
          lift_run_def)
  next
    case (Some x)
    with Inr have "x \<in> set cs" by (auto dest: first_match_mem)
    with Inr Some assms show ?thesis
      by (simp add: dzn_list_find_predicate_def find_cell_predicate_chain lift_run_def
          chain_cell_contents)
  qed
qed


lemma append_loop_chain:
  "chain s p (cs @ [x]) \<Longrightarrow> append_loop s p = Some (Inr (fst x))"
proof (induction cs arbitrary: p)
  case Nil
  then show ?case by (subst append_loop.simps) (auto simp: store_simps)
next
  case (Cons y cs)
  then obtain c where c: "objs s p = Some c" "p \<noteq> NULL" "chain s (cell_next c) (cs @ [x])" by auto
  from c(3) have "cell_next c \<noteq> NULL" by (cases "cell_next c = NULL") auto
  with c Cons.IH [OF c(3)] show ?case by (subst append_loop.simps) (simp add: store_simps)
qed

lemma dzn_list_append_chain:
  assumes "chain s p cs" and "chain s q ds"
    and "set (cells_of cs) \<inter> set (cells_of ds) = {}"
  obtains p' s' where "dzn_list_append p q s = return_run (p', s')"
    and "chain s' p' (cs @ ds)" and "fresh s' = fresh s"
    and "\<And>a. a \<notin> set (cells_of cs) \<Longrightarrow> objs s' a = objs s a"
proof (cases cs rule: rev_cases)
  case Nil
  with assms that [of q s] show ?thesis by (simp add: dzn_list_append_def)
next
  case (snoc es x)
  with assms have p: "p \<noteq> NULL" by auto
  from assms snoc obtain c where c: "objs s (fst x) = Some c" "fst x \<noteq> NULL"
    using path_live [of cell_data cell_next s p cs "fst x"] path_NULL_notin [of cell_data cell_next s p cs] by auto
  have "append_loop s p = Some (Inr (fst x))" using assms snoc by (simp add: append_loop_chain)
  then have "dzn_list_append p q s =
      return_run (p, set_obj (fst x) (Some (c\<lparr>cell_next := q\<rparr>)) s)"
    using p c by (simp add: dzn_list_append_def lift_run_def return_run_def store_simps)
  moreover have
    "chain (set_obj (fst x) (Some (c\<lparr>cell_next := q\<rparr>)) s) p (es @ x # ds)"
    using assms snoc c by (intro cell.relink) auto
  ultimately show ?thesis using that snoc by auto
qed

lemma length_loop_chain:
  "chain s p cs \<Longrightarrow> 0 \<le> n \<Longrightarrow> n + int (length cs) \<le> INT_MAX \<Longrightarrow>
     length_loop s p n = Some (Inr (n + int (length cs)))"
proof (induction cs arbitrary: p n)
  case Nil
  then show ?case by (simp add: length_loop.simps)
next
  case (Cons x cs)
  then show ?case by (subst length_loop.simps) (auto simp: store_simps)
qed

lemma length_loop_overflow:
  "chain s p cs \<Longrightarrow> n \<le> INT_MAX \<Longrightarrow> n + int (length cs) > INT_MAX \<Longrightarrow>
     length_loop s p n = Some (Inl SignedOverflow)"
proof (induction cs arbitrary: p n)
  case Nil
  then show ?case by simp
next
  case (Cons x cs)
  then show ?case by (subst length_loop.simps) (auto simp: store_simps)
qed

text \<open>The list without the first cell that holds \<open>d\<close>, and that cell's address.\<close>

fun remove_data :: "addr \<Rightarrow> (addr \<times> addr) list \<Rightarrow> (addr \<times> addr) list" where
  "remove_data d [] = []"
| "remove_data d (x # cs) = (if snd x = d then cs else x # remove_data d cs)"

lemma data_of_remove_data [simp]: "data_of (remove_data d cs) = remove1 d (data_of cs)"
  by (induction cs) auto

lemma set_remove_data: "set (remove_data d cs) \<subseteq> set cs"
  by (induction cs) auto

lemma remove_data_notin: "d \<notin> set (data_of cs) \<Longrightarrow> remove_data d cs = cs"
  by (induction cs) auto

lemma delete_loop_chain:
  assumes "chain s p (x # cs)" and "d \<noteq> snd x"
  shows "\<exists>s'. delete_loop s p d = return_run s' \<and> chain s' p (x # remove_data d cs) \<and>
    fresh s' = fresh s \<and> (\<forall>a. a \<notin> set (cells_of (x # cs)) \<longrightarrow> objs s' a = objs s a) \<and>
    (\<forall>a \<in> set (cells_of cs) - set (cells_of (remove_data d cs)). objs s' a = None)"
  using assms
proof (induction cs arbitrary: p x)
  case Nil
  then obtain h where "objs s p = Some h" "p \<noteq> NULL" "p = fst x" "cell_data h = snd x"
      "cell_next h = NULL"
    by auto
  moreover from this have "delete_loop s p d = return_run s"
    by (subst delete_loop.simps) (auto simp: return_run_def store_simps)
  ultimately show ?case by auto
next
  case (Cons y cs)
  then obtain h c where h: "objs s p = Some h" "p \<noteq> NULL" "p = fst x" "cell_data h = snd x"
      "cell_next h = fst y" "fst y \<noteq> NULL"
    and c: "objs s (fst y) = Some c" "cell_data c = snd y" "chain s (cell_next c) cs"
    by auto
  have neq: "fst x \<noteq> fst y" "fst x \<notin> set (cells_of cs)" "fst y \<notin> set (cells_of cs)"
    using path_distinct [OF Cons.prems(1)] by auto
  show ?case
  proof (cases "snd y = d")
    case True
    with h c neq show ?thesis
      by (subst delete_loop.simps) (auto simp: store_simps return_run_def)
  next
    case False
    have "chain s (fst y) (y # cs)" using h c by simp
    with False Cons.IH [of "fst y" y] obtain s' where s':
      "delete_loop s (fst y) d = return_run s'" "chain s' (fst y) (y # remove_data d cs)"
      "fresh s' = fresh s" "\<forall>a. a \<notin> set (cells_of (y # cs)) \<longrightarrow> objs s' a = objs s a"
      "\<forall>a \<in> set (cells_of cs) - set (cells_of (remove_data d cs)). objs s' a = None"
      by blast
    from s'(4) neq have "objs s' p = objs s p" using h by auto
    moreover have "delete_loop s p d = return_run s'"
      using h c s' False by (subst delete_loop.simps) (simp add: store_simps)
    ultimately show ?thesis using h s' False by auto
  qed
qed

lemma dzn_list_delete_chain:
  assumes "chain s p cs"
  obtains p' s' where "dzn_list_delete p d s = return_run (p', s')"
    and "chain s' p' (remove_data d cs)" and "fresh s' = fresh s"
    and "\<And>a. a \<notin> set (cells_of cs) \<Longrightarrow> objs s' a = objs s a"
    and "\<And>a. a \<in> set (cells_of cs) - set (cells_of (remove_data d cs)) \<Longrightarrow> objs s' a = None"
proof (cases cs)
  case Nil
  with assms that [of NULL s] show ?thesis by (simp add: dzn_list_delete_def)
next
  case (Cons x ds)
  with assms obtain h where h: "objs s p = Some h" "p \<noteq> NULL" "p = fst x" "cell_data h = snd x"
      "chain s (cell_next h) ds" by auto
  show ?thesis
  proof (cases "snd x = d")
    case True
    have "fst x \<notin> set (cells_of ds)" using path_distinct [OF assms] Cons by simp
    moreover have "dzn_list_delete p d s = return_run (cell_next h, set_obj p None s)"
      using True h by (simp add: dzn_list_delete_def store_simps)
    ultimately show ?thesis
      using True h Cons that [of "cell_next h" "set_obj p None s"] by fastforce
  next
    case False
    with assms Cons obtain s' where s': "delete_loop s p d = return_run s'"
      "chain s' p (x # remove_data d ds)" "fresh s' = fresh s"
      "\<forall>a. a \<notin> set (cells_of (x # ds)) \<longrightarrow> objs s' a = objs s a"
      "\<forall>a \<in> set (cells_of ds) - set (cells_of (remove_data d ds)). objs s' a = None"
      using delete_loop_chain [of s p x ds d] by auto
    have "dzn_list_delete p d s = return_run (p, s')"
      using False h s'(1) by (simp add: dzn_list_delete_def lift_run_def store_simps)
    moreover have "remove_data d cs = x # remove_data d ds" using Cons False by simp
    moreover have "objs s' a = None" if "a \<in> set (cells_of cs) - set (cells_of (remove_data d cs))" for a
      using that s'(5) Cons False by auto
    moreover have "objs s' a = objs s a" if "a \<notin> set (cells_of cs)" for a
      using that s'(4) Cons by blast
    ultimately show ?thesis using that [of p s'] s'(2,3) by (simp only: simp_thms)
  qed
qed

section \<open>Cycles\<close>

text \<open>
  Appending a list to itself ties its last cell to its first.  On such a heap the loop of
  \<open>dzn_list_length\<close> never reaches NULL; it stops only when the counter overflows, which the
  C standard leaves undefined.
\<close>

definition cyclic :: "cells \<Rightarrow> addr set \<Rightarrow> bool" where
  "cyclic s A \<longleftrightarrow> NULL \<notin> A \<and> (\<forall>a \<in> A. \<exists>c. objs s a = Some c \<and> cell_next c \<in> A)"

lemma cyclicD:
  assumes "cyclic s A" and "a \<in> A"
  shows "\<exists>c. objs s a = Some c \<and> cell_next c \<in> A \<and> a \<noteq> NULL"
proof -
  from assms have "a \<noteq> NULL" by (cases "a = NULL") (auto simp: cyclic_def)
  with assms show ?thesis by (simp add: cyclic_def)
qed

lemma length_loop_cyclic:
  assumes "cyclic s A" and "p \<in> A" and "n \<le> INT_MAX"
  shows "length_loop s p n = Some (Inl SignedOverflow)"
  using assms(2,3)
proof (induction "nat (INT_MAX - n)" arbitrary: p n)
  case 0
  with assms(1) have "p \<noteq> NULL" by (cases "p = NULL") (auto simp: cyclic_def)
  with 0 show ?case by (subst length_loop.simps) simp
next
  case (Suc k)
  from cyclicD [OF assms(1) Suc.prems(1)] obtain c where
    c: "objs s p = Some c" "cell_next c \<in> A" "p \<noteq> NULL" by blast
  have "k = nat (INT_MAX - (n + 1))" "n + 1 \<le> INT_MAX" using Suc.hyps(2) by auto
  from Suc.hyps(1) [OF this(1) c(2) this(2)] c Suc.hyps(2) show ?case
    by (subst length_loop.simps) (simp add: load_live)
qed

lemma find_cell_cyclic:
  assumes "cyclic s A" and "\<And>a c. a \<in> A \<Longrightarrow> objs s a = Some c \<Longrightarrow> cell_data c \<noteq> d" and "p \<in> A"
  shows "find_cell s p d = None"
proof (rule ccontr)
  assume "find_cell s p d \<noteq> None"
  then obtain r where r: "find_cell s p d = Some r" by blast
  have "s = s \<longrightarrow> d = d \<longrightarrow> p \<notin> A"
  proof (rule find_cell.raw_induct [where P = "\<lambda>t q e r. t = s \<longrightarrow> e = d \<longrightarrow> q \<notin> A", OF _ r],
      intro impI)
    fix f t q e and r :: "addr result"
    assume IH: "\<And>t q e r. f t q e = Some r \<Longrightarrow> t = s \<longrightarrow> e = d \<longrightarrow> q \<notin> A"
      and eq: "(if q = NULL then Some (Inr NULL)
         else case load t q of Inl e \<Rightarrow> Some (Inl e)
           | Inr c \<Rightarrow> if cell_data c = e then Some (Inr q) else f t (cell_next c) e) = Some r"
      and t: "t = s" "e = d"
    show "q \<notin> A"
    proof
      assume q: "q \<in> A"
      from cyclicD [OF assms(1) this] obtain c where
        c: "objs s q = Some c" "cell_next c \<in> A" "q \<noteq> NULL" by blast
      with eq t assms(2) [OF q c(1)] have "f s (cell_next c) d = Some r" by (simp add: load_live)
      with IH c(2) show False by blast
    qed
  qed
  with assms(3) show False by simp
qed

lemma append_self_cyclic:
  assumes "chain s p cs" and "cs \<noteq> []"
  shows "\<exists>s'. dzn_list_append p p s = return_run (p, s') \<and> cyclic s' (set (cells_of cs)) \<and>
    p \<in> set (cells_of cs) \<and>
    (\<forall>a \<in> set (cells_of cs). \<forall>c. objs s' a = Some c \<longrightarrow> cell_data c \<in> set (data_of cs))"
proof -
  from assms(2) obtain es x where cs: "cs = es @ [x]" by (cases cs rule: rev_cases) auto
  from assms obtain y zs where yz: "cs = y # zs" "p = fst y" "p \<noteq> NULL" by (cases cs) auto
  obtain c where c: "objs s (fst x) = Some c" "fst x \<noteq> NULL"
    using path_live [OF assms(1), of "fst x"] path_NULL_notin [OF assms(1)] cs by force
  have "append_loop s p = Some (Inr (fst x))" using assms cs by (simp add: append_loop_chain)
  then have app: "dzn_list_append p p s =
      return_run (p, set_obj (fst x) (Some (c\<lparr>cell_next := p\<rparr>)) s)"
    using yz c by (simp add: dzn_list_append_def store_simps)
  note step = path_step [OF assms(1)]
  let ?s' = "set_obj (fst x) (Some (c\<lparr>cell_next := p\<rparr>)) s"
  have p: "p \<in> set (cells_of cs)" using yz by simp
  have "\<exists>c'. objs ?s' a = Some c' \<and> cell_next c' \<in> set (cells_of cs)"
    if "a \<in> set (cells_of cs)" for a
  proof (cases "a = fst x")
    case True
    with p show ?thesis by simp
  next
    case False
    with step [OF that] cs show ?thesis by auto
  qed
  then have "cyclic ?s' (set (cells_of cs))"
    unfolding cyclic_def using path_NULL_notin [OF assms(1)] by blast
  moreover have "cell_data c' \<in> set (data_of cs)"
    if "a \<in> set (cells_of cs)" "objs ?s' a = Some c'" for a c'
  proof -
    from step [OF that(1)] obtain c'' where
      "objs s a = Some c''" "cell_data c'' \<in> set (data_of cs)" by blast
    with that(2) c(1) show ?thesis by (cases "a = fst x") (auto intro: rev_image_eqI)
  qed
  ultimately show ?thesis using app p by blast
qed

section \<open>Properties\<close>

text \<open>A heap with the two chains 1, 2 (holding 7, 8) and 3 (holding 9), for the witnesses.\<close>

definition three_cells :: cells where
  "three_cells = \<lparr>objs = (\<lambda>_. None)
     (1 := Some \<lparr>cell_data = 7, cell_next = 2\<rparr>, 2 := Some \<lparr>cell_data = 8, cell_next = NULL\<rparr>,
      3 := Some \<lparr>cell_data = 9, cell_next = NULL\<rparr>), fresh = 4\<rparr>"

lemma three_cells_chains:
  "chain three_cells 1 [(1, 7), (2, 8)]" "chain three_cells 3 [(3, 9)]"
  by (simp_all add: three_cells_def)

text \<open>C32: \<open>dzn_list_append\<close> concatenates two disjoint chains in place: it returns, the
  result is the chain of the first list's cells followed by the second's, and no cell
  outside the first list is written.\<close>

theorem list_append_concatenates:
  assumes "chain s p cs" and "chain s q ds" and "set (cells_of cs) \<inter> set (cells_of ds) = {}"
  shows "\<exists>p' s'. dzn_list_append p q s = return_run (p', s') \<and> chain s' p' (cs @ ds) \<and>
    (\<forall>a. a \<notin> set (cells_of cs) \<longrightarrow> objs s' a = objs s a)"
  using dzn_list_append_chain [OF assms] by metis

theorem list_append_concatenates_witness:
  "\<exists>p' s'. dzn_list_append 1 3 three_cells = return_run (p', s') \<and>
     chain s' p' [(1, 7), (2, 8), (3, 9)]"
  using list_append_concatenates [OF three_cells_chains] by auto

text \<open>\<open>dzn_list_delete\<close> removes exactly the first cell holding the datum: it returns,
  the remaining cells keep their order and data, the cell it dropped is freed and nothing
  else is, and no cell outside the list is written.\<close>

theorem list_delete_removes_first:
  assumes "chain s p cs"
  shows "\<exists>p' s'. dzn_list_delete p d s = return_run (p', s') \<and>
    chain s' p' (remove_data d cs) \<and> data_of (remove_data d cs) = remove1 d (data_of cs) \<and>
    (\<forall>a \<in> set (cells_of cs) - set (cells_of (remove_data d cs)). objs s' a = None) \<and>
    (\<forall>a. a \<notin> set (cells_of cs) \<longrightarrow> objs s' a = objs s a)"
  using dzn_list_delete_chain [OF assms, of d] data_of_remove_data by metis

theorem list_delete_removes_first_witness:
  "\<exists>p' s'. dzn_list_delete 1 8 three_cells = return_run (p', s') \<and>
     chain s' p' [(1, 7)] \<and> objs s' 2 = None"
  using list_delete_removes_first [OF three_cells_chains(1), of 8] by auto

text \<open>\<open>dzn_list_find_predicate\<close> returns the datum of the first cell the predicate accepts
  and NULL when it accepts none; a fault of the predicate on an earlier cell ends the search
  with that fault.  \<open>dzn_list_find\<close> finds a datum exactly when some cell holds it.\<close>

lemma list_find_spec:
  assumes "chain s p cs"
  shows "dzn_list_find_predicate p P s =
      Some (seq (first_match P cs) (\<lambda>m. Inr (case m of None \<Rightarrow> NULL | Some x \<Rightarrow> snd x))) \<and>
    dzn_list_find p d s = return_run (if d \<in> set (data_of cs) then d else NULL)"
  using assms by (simp add: dzn_list_find_predicate_chain dzn_list_find_chain)

lemma list_find_spec_witness:
  "dzn_list_find_predicate 1 (\<lambda>d. Inr (d = 8)) three_cells = return_run 8 \<and>
   dzn_list_find 1 9 three_cells = return_run 0"
  using list_find_spec [OF three_cells_chains(1), of "\<lambda>d. Inr (d = 8)" 9]
  by (simp add: return_run_def)

text \<open>The walking loops end exactly where the chain does.  On a chain of at most
  \<open>INT_MAX\<close> cells \<open>dzn_list_length\<close> returns the number of cells.  After appending a
  non-empty list to itself, searching it for a datum it does not hold never returns, and
  counting its cells runs into signed overflow.\<close>

theorem list_length_and_cycles:
  assumes "chain s p cs"
  shows "(int (length cs) \<le> INT_MAX \<longrightarrow> dzn_list_length p s = return_run (int (length cs))) \<and>
    (cs \<noteq> [] \<and> d \<notin> set (data_of cs) \<longrightarrow>
      (\<exists>s'. dzn_list_append p p s = return_run (p, s') \<and> dzn_list_find p d s' = None \<and>
        dzn_list_length p s' = fail_run SignedOverflow))"
proof (intro conjI impI)
  assume "int (length cs) \<le> INT_MAX"
  with assms show "dzn_list_length p s = return_run (int (length cs))"
    using length_loop_chain [OF assms, of 0] by (simp add: dzn_list_length_def return_run_def)
next
  assume cs: "cs \<noteq> [] \<and> d \<notin> set (data_of cs)"
  with append_self_cyclic [OF assms] obtain s' where
    s': "dzn_list_append p p s = return_run (p, s')" "cyclic s' (set (cells_of cs))"
      "p \<in> set (cells_of cs)"
      "\<forall>a \<in> set (cells_of cs). \<forall>c. objs s' a = Some c \<longrightarrow> cell_data c \<in> set (data_of cs)"
    by blast
  have "cell_data c \<noteq> d" if "a \<in> set (cells_of cs)" "objs s' a = Some c" for a c
    using that s'(4) cs by blast
  from find_cell_cyclic [OF s'(2) this s'(3)] have "dzn_list_find p d s' = None"
    by (simp add: dzn_list_find_def)
  moreover have "dzn_list_length p s' = fail_run SignedOverflow"
    using length_loop_cyclic [OF s'(2,3), of 0]
    by (simp add: dzn_list_length_def fail_run_def INT_MAX_def)
  ultimately show "\<exists>s'. dzn_list_append p p s = return_run (p, s') \<and>
      dzn_list_find p d s' = None \<and> dzn_list_length p s' = fail_run SignedOverflow"
    using s'(1) by blast
qed

theorem list_length_and_cycles_witness:
  "dzn_list_length 1 three_cells = return_run 2 \<and>
   (\<exists>s'. dzn_list_append 1 1 three_cells = return_run (1, s') \<and> dzn_list_find 1 5 s' = None)"
  using list_length_and_cycles [OF three_cells_chains(1), of 5] by (auto simp: INT_MAX_def)

end
