(* ===== verification/Event_Queue.thy ===== *)
theory Event_Queue
  imports Chain
begin

text \<open>
  \<open>runtime/c/queue.c\<close> and \<open>dzn/queue.h\<close>: the event queue of a component, in its two builds.

  With \<open>DZN_DYNAMIC_QUEUES\<close> the queue is a chain of nodes allocated on the heap
  (\<open>dzn_queue\<close>); without it, a ring of \<open>DZN_QUEUE_SIZE\<close> nodes inside the struct
  (\<open>static_queue\<close>), whose head and tail pointers are offsets from \<open>element\<close>.  In both
  the number of elements is a \<open>uint8_t\<close> that wraps.  Allocating a node is taken to succeed; \<open>dzn_malloc\<close> asserts it
  (\<open>Memory_Pool\<close>).

  The locale \<open>fifo\<close> is the contract of either build up to its capacity; its simulation lemma
  replays any sequence of pushes and pops on a plain list.  Both builds interpret it, the
  dynamic one with capacity 255 and the static one with capacity 7, and the lemmas at the end
  say what happens one element beyond.
\<close>

section \<open>The dynamic queue\<close>

record dzn_node =
  item :: addr
  node_next :: addr

type_synonym nodes = "dzn_node store"

record dzn_queue =
  q_head :: addr
  q_tail :: addr
  q_size :: "8 word"

definition dzn_queue_init :: dzn_queue where
  "dzn_queue_init = \<lparr>q_head = NULL, q_tail = NULL, q_size = 0\<rparr>"

definition dzn_queue_size :: "dzn_queue \<Rightarrow> 8 word" where
  "dzn_queue_size self = q_size self"

definition dzn_queue_empty :: "dzn_queue \<Rightarrow> bool" where
  "dzn_queue_empty self = (if dzn_queue_size self = 0 then True else False)"

definition dzn_queue_push :: "dzn_queue \<Rightarrow> addr \<Rightarrow> nodes \<Rightarrow> (dzn_queue \<times> nodes) result" where
  "dzn_queue_push self e s =
     (case malloc \<lparr>item = e, node_next = NULL\<rparr> s of (n, s1) \<Rightarrow>
        seq (if q_head self = NULL then Inr (self\<lparr>q_head := n\<rparr>, s1)
             else seq (load s1 (q_tail self)) (\<lambda>t.
                    seq (poke (q_tail self) (t\<lparr>node_next := n\<rparr>) s1) (\<lambda>s2. Inr (self, s2))))
          (\<lambda>(self', s2). Inr (self'\<lparr>q_tail := n, q_size := q_size self' + 1\<rparr>, s2)))"

definition dzn_queue_pop :: "dzn_queue \<Rightarrow> nodes \<Rightarrow> (addr \<times> dzn_queue \<times> nodes) result" where
  "dzn_queue_pop self s =
     seq (c_assert ''(int8_t)self->size'' (q_size self \<noteq> 0)) (\<lambda>_.
     seq (load s (q_head self)) (\<lambda>n.
     seq (c_free (q_head self) s) (\<lambda>s'.
     Inr (item n, self\<lparr>q_head := node_next n, q_size := q_size self - 1\<rparr>, s'))))"

definition dzn_queue_front :: "dzn_queue \<Rightarrow> nodes \<Rightarrow> addr result" where
  "dzn_queue_front self s = seq (load s (q_head self)) (\<lambda>n. Inr (item n))"

section \<open>The static queue\<close>

definition DZN_QUEUE_SIZE :: nat where "DZN_QUEUE_SIZE = 7"

record 'e static_queue =
  sq_element :: "'e list"
  sq_head :: nat
  sq_tail :: nat
  sq_size :: "8 word"

definition static_queue_init :: "'e list \<Rightarrow> 'e static_queue" where
  "static_queue_init element =
     \<lparr>sq_element = element, sq_head = 0, sq_tail = 0, sq_size = 0\<rparr>"

definition static_queue_empty :: "'e static_queue \<Rightarrow> bool" where
  "static_queue_empty self = (if sq_size self = 0 then True else False)"

definition static_queue_push :: "'e static_queue \<Rightarrow> 'e \<Rightarrow> 'e static_queue result" where
  "static_queue_push self e =
     (if length (sq_element self) \<le> sq_tail self then Inl OutOfBounds
      else let element = (sq_element self)[sq_tail self := e];
               tail = sq_tail self + 1;
               tail = (if tail = DZN_QUEUE_SIZE then 0 else tail);
               sz = sq_size self + 1
           in seq (c_assert ''self->size <= DZN_QUEUE_SIZE'' (unat sz \<le> DZN_QUEUE_SIZE))
                (\<lambda>_. Inr (self\<lparr>sq_element := element, sq_tail := tail, sq_size := sz\<rparr>)))"

definition static_queue_pop :: "'e static_queue \<Rightarrow> (nat \<times> 'e static_queue) result" where
  "static_queue_pop self =
     seq (c_assert ''self->size'' (sq_size self \<noteq> 0)) (\<lambda>_.
       let res = sq_head self;
           head = sq_head self + 1;
           head = (if head = DZN_QUEUE_SIZE then 0 else head)
       in Inr (res, self\<lparr>sq_head := head, sq_size := sq_size self - 1\<rparr>))"

definition static_queue_front :: "'e static_queue \<Rightarrow> nat" where
  "static_queue_front self = sq_head self"

text \<open>The pointer \<open>dzn_queue_pop\<close> returns points into \<open>element\<close>; its caller reads through it.\<close>

definition static_queue_take :: "'e static_queue \<Rightarrow> ('e \<times> 'e static_queue) result" where
  "static_queue_take self =
     seq (static_queue_pop self) (\<lambda>(res, self').
       if length (sq_element self') \<le> res then Inl OutOfBounds
       else Inr (sq_element self' ! res, self'))"

section \<open>The contract of a bounded queue\<close>

datatype 'a queue_op = Push 'a | Pop

fun queue_run ::
    "('a \<Rightarrow> 'q \<Rightarrow> 'q result) \<Rightarrow> ('q \<Rightarrow> ('a \<times> 'q) result) \<Rightarrow> 'q \<Rightarrow> 'a queue_op list \<Rightarrow>
       ('a list \<times> 'q) result" where
  "queue_run push pop q [] = Inr ([], q)"
| "queue_run push pop q (Push x # ops) = seq (push x q) (\<lambda>q'. queue_run push pop q' ops)"
| "queue_run push pop q (Pop # ops) =
     seq (pop q) (\<lambda>(x, q'). seq (queue_run push pop q' ops) (\<lambda>(xs, q''). Inr (x # xs, q'')))"

text \<open>The same operations on a list that may hold at most \<open>cap\<close> elements.\<close>

fun list_run :: "nat \<Rightarrow> 'a list \<Rightarrow> 'a queue_op list \<Rightarrow> ('a list \<times> 'a list) option" where
  "list_run cap xs [] = Some ([], xs)"
| "list_run cap xs (Push x # ops) =
     (if length xs < cap then list_run cap (xs @ [x]) ops else None)"
| "list_run cap xs (Pop # ops) =
     (case xs of [] \<Rightarrow> None
      | x # xs' \<Rightarrow> map_option (\<lambda>(out, ys). (x # out, ys)) (list_run cap xs' ops))"

lemma list_run_bound:
  "length xs \<le> cap \<Longrightarrow> list_run cap xs ops = Some (out, ys) \<Longrightarrow> length ys \<le> cap"
proof (induction cap xs ops arbitrary: out rule: list_run.induct)
  case (3 cap xs ops)
  then show ?case by (cases xs) auto
qed (auto split: if_splits)

locale fifo =
  fixes rep :: "'q \<Rightarrow> 'a list \<Rightarrow> bool" and is_empty :: "'q \<Rightarrow> bool"
    and push :: "'a \<Rightarrow> 'q \<Rightarrow> 'q result" and pop :: "'q \<Rightarrow> ('a \<times> 'q) result" and cap :: nat
  assumes rep_empty: "rep q xs \<Longrightarrow> length xs \<le> cap \<Longrightarrow> is_empty q \<longleftrightarrow> xs = []"
    and rep_push: "rep q xs \<Longrightarrow> length xs < cap \<Longrightarrow> \<exists>q'. push x q = Inr q' \<and> rep q' (xs @ [x])"
    and rep_pop: "rep q (x # xs) \<Longrightarrow> length (x # xs) \<le> cap \<Longrightarrow> \<exists>q'. pop q = Inr (x, q') \<and> rep q' xs"
    and rep_pop_empty: "rep q [] \<Longrightarrow> \<exists>what. pop q = Inl (AssertFailed what)"
begin

lemma simulation:
  assumes "rep q xs" and "length xs \<le> cap" and "list_run cap xs ops = Some (out, ys)"
  shows "\<exists>q'. queue_run push pop q ops = Inr (out, q') \<and> rep q' ys"
  using assms
proof (induction ops arbitrary: q xs out)
  case Nil
  then show ?case by simp
next
  case (Cons op ops)
  show ?case
  proof (cases op)
    case (Push x)
    with Cons.prems have len: "length xs < cap" and run: "list_run cap (xs @ [x]) ops = Some (out, ys)"
      by (auto split: if_splits)
    from rep_push [OF Cons.prems(1) len] obtain q' where q': "push x q = Inr q'" "rep q' (xs @ [x])"
      by blast
    with Cons.IH [OF q'(2) _ run] len Push show ?thesis by auto
  next
    case Pop
    with Cons.prems obtain x xs' out' where xs: "xs = x # xs'" and out: "out = x # out'"
      and run: "list_run cap xs' ops = Some (out', ys)"
      by (auto split: list.splits)
    from rep_pop [of q x xs'] Cons.prems xs obtain q' where q': "pop q = Inr (x, q')" "rep q' xs'"
      by auto
    with Cons.IH [OF q'(2) _ run] Cons.prems(2) xs out Pop show ?thesis by auto
  qed
qed

end

section \<open>The dynamic queue implements the contract\<close>

interpretation node: linked item node_next "\<lambda>q c. c\<lparr>node_next := q\<rparr>"
  by unfold_locales simp_all

definition queue_cells :: "dzn_queue \<Rightarrow> nodes \<Rightarrow> (addr \<times> addr) list \<Rightarrow> bool" where
  "queue_cells q s cs \<longleftrightarrow>
     store_ok s \<and> path item node_next s (q_head q) cs \<and> q_size q = of_nat (length cs) \<and>
     (cs \<noteq> [] \<longrightarrow> q_tail q = fst (last cs))"

definition queue_rep :: "dzn_queue \<times> nodes \<Rightarrow> addr list \<Rightarrow> bool" where
  "queue_rep qs xs \<longleftrightarrow> (\<exists>cs. queue_cells (fst qs) (snd qs) cs \<and> xs = data_of cs)"

lemma queue_cells_init: "store_ok s \<Longrightarrow> queue_cells dzn_queue_init s []"
  by (simp add: queue_cells_def dzn_queue_init_def)

lemma path_malloc:
  assumes "store_ok s" and "path val nxt s p cs" and "malloc x s = (n, s')"
  shows "path val nxt s' p cs" and "n \<notin> set (cells_of cs)"
  using assms path_fresh_notin [OF assms(1,2)] by (auto simp: malloc_def)

lemma queue_cells_push:
  assumes "queue_cells q s cs"
  shows "\<exists>q' s'. dzn_queue_push q e s = Inr (q', s') \<and> queue_cells q' s' (cs @ [(fresh s, e)])"
proof -
  let ?n = "fresh s"
  obtain s1 where m: "malloc \<lparr>item = e, node_next = NULL\<rparr> s = (?n, s1)"
    by (simp add: malloc_def)
  from assms have ok: "store_ok s" and pth: "path item node_next s (q_head q) cs"
    and sz: "q_size q = of_nat (length cs)" and tl: "cs \<noteq> [] \<Longrightarrow> q_tail q = fst (last cs)"
    by (auto simp: queue_cells_def)
  from ok m have ok1: "store_ok s1" by (rule store_ok_malloc)
  note pth1 = path_malloc [OF ok pth m]
  have new: "objs s1 ?n = Some \<lparr>item = e, node_next = NULL\<rparr>"
    using m by (auto simp: malloc_def)
  from ok have n: "?n \<noteq> NULL" by (simp add: store_ok_def)
  have new_path: "path item node_next s1 ?n [(?n, e)]" using new n by simp
  show ?thesis
  proof (cases cs rule: rev_cases)
    case Nil
    with pth have "q_head q = NULL" by simp
    with Nil new_path ok1 sz m show ?thesis
      by (simp add: dzn_queue_push_def queue_cells_def)
  next
    case (snoc ds x)
    have live: "q_tail q = fst x" "q_tail q \<noteq> NULL" "q_head q \<noteq> NULL"
      using tl snoc pth path_NULL_notin [OF pth] by (auto intro: ccontr)
    obtain t where t: "objs s1 (fst x) = Some t"
      using path_live [OF pth1(1), of "fst x"] snoc by auto
    have "path item node_next (set_obj (fst x) (Some (t\<lparr>node_next := ?n\<rparr>)) s1) (q_head q)
        (ds @ x # [(?n, e)])"
      using pth1 snoc t new_path by (intro node.relink) auto
    moreover have "store_ok (set_obj (fst x) (Some (t\<lparr>node_next := ?n\<rparr>)) s1)"
      using ok1 t by (rule store_ok_poke)
    ultimately show ?thesis
      using live t snoc sz m
      by (simp add: dzn_queue_push_def queue_cells_def load_live poke_live)
  qed
qed

lemma queue_cells_pop:
  assumes "queue_cells q s ((a, d) # cs)" and "q_size q \<noteq> 0"
  shows "\<exists>q'. dzn_queue_pop q s = Inr (d, q', set_obj a None s) \<and>
     queue_cells q' (set_obj a None s) cs"
proof -
  from assms obtain c where c: "objs s a = Some c" "item c = d" "a \<noteq> NULL" "q_head q = a"
      "path item node_next s (node_next c) cs"
    by (auto simp: queue_cells_def)
  have "a \<notin> set (cells_of cs)"
    using assms(1) path_not_in_tail [of item node_next s "q_head q" "(a, d)" cs] c(4)
    by (auto simp: queue_cells_def)
  with assms c show ?thesis
    by (auto simp: dzn_queue_pop_def queue_cells_def load_live c_free_live store_ok_free)
qed

lemma unat_of_nat_u8: "unat (of_nat n :: 8 word) = n mod 256"
  by (simp add: unat_of_nat)

lemma of_nat_u8_zero: "(of_nat n :: 8 word) = 0 \<longleftrightarrow> n mod 256 = 0"
  by (metis unat_eq_zero unat_of_nat_u8)

abbreviation dynamic_push :: "addr \<Rightarrow> dzn_queue \<times> nodes \<Rightarrow> (dzn_queue \<times> nodes) result" where
  "dynamic_push e qs \<equiv> dzn_queue_push (fst qs) e (snd qs)"

abbreviation dynamic_pop :: "dzn_queue \<times> nodes \<Rightarrow> (addr \<times> dzn_queue \<times> nodes) result" where
  "dynamic_pop qs \<equiv> dzn_queue_pop (fst qs) (snd qs)"

interpretation dynamic: fifo queue_rep "\<lambda>qs. dzn_queue_empty (fst qs)" dynamic_push dynamic_pop 255
proof (unfold_locales, goal_cases)
  case (1 q xs)
  then show ?case
    by (cases q)
      (auto simp: queue_rep_def queue_cells_def dzn_queue_empty_def dzn_queue_size_def of_nat_u8_zero)
next
  case (2 q xs e)
  then obtain cs where cs: "queue_cells (fst q) (snd q) cs" "xs = data_of cs"
    by (auto simp: queue_rep_def)
  from queue_cells_push [OF cs(1), of e] cs(2) show ?case
    by (cases q) (force simp: queue_rep_def)
next
  case (3 q x xs)
  then obtain a cs where cs: "queue_cells (fst q) (snd q) ((a, x) # cs)" "xs = data_of cs"
    by (auto simp: queue_rep_def Cons_eq_map_conv)
  with 3 have "q_size (fst q) \<noteq> 0"
    by (simp add: queue_cells_def of_nat_u8_zero flip: of_nat_Suc)
  from queue_cells_pop [OF cs(1) this] cs(2) show ?case
    by (cases q) (auto simp: queue_rep_def)
next
  case (4 q)
  then show ?case
    by (cases q) (auto simp: queue_rep_def queue_cells_def dzn_queue_pop_def)
qed

section \<open>The static queue implements the contract\<close>

definition ring_contents :: "'e static_queue \<Rightarrow> 'e list" where
  "ring_contents r =
     map (\<lambda>i. sq_element r ! ((sq_head r + i) mod DZN_QUEUE_SIZE)) [0..<unat (sq_size r)]"

definition ring_ok :: "'e static_queue \<Rightarrow> bool" where
  "ring_ok r \<longleftrightarrow> length (sq_element r) = DZN_QUEUE_SIZE \<and> sq_head r < DZN_QUEUE_SIZE \<and>
     unat (sq_size r) \<le> DZN_QUEUE_SIZE \<and>
     sq_tail r = (sq_head r + unat (sq_size r)) mod DZN_QUEUE_SIZE"

definition ring_rep :: "'e static_queue \<Rightarrow> 'e list \<Rightarrow> bool" where
  "ring_rep r xs \<longleftrightarrow> ring_ok r \<and> ring_contents r = xs"

lemma ring_ok_init: "length es = DZN_QUEUE_SIZE \<Longrightarrow> ring_rep (static_queue_init es) []"
  by (simp add: ring_rep_def ring_ok_def ring_contents_def static_queue_init_def DZN_QUEUE_SIZE_def)

lemma ring_slot_distinct:
  assumes "i < j" and "j < DZN_QUEUE_SIZE"
  shows "(h + i) mod DZN_QUEUE_SIZE \<noteq> (h + j) mod DZN_QUEUE_SIZE"
proof
  assume "(h + i) mod DZN_QUEUE_SIZE = (h + j) mod DZN_QUEUE_SIZE"
  then have "DZN_QUEUE_SIZE dvd (h + j) - (h + i)"
    using assms(1) by (metis mod_eq_dvd_iff_nat add_le_mono1 add.commute less_imp_le)
  then have "DZN_QUEUE_SIZE dvd j - i" by simp
  with assms show False by (auto dest: dvd_imp_le)
qed

lemma ring_wrap:
  "h < DZN_QUEUE_SIZE \<Longrightarrow> (if Suc h = DZN_QUEUE_SIZE then 0 else h + 1) = Suc h mod DZN_QUEUE_SIZE"
  by (auto simp: DZN_QUEUE_SIZE_def)

lemma ring_rep_push:
  assumes "ring_rep r xs" and "length xs < DZN_QUEUE_SIZE"
  shows "\<exists>r'. static_queue_push r e = Inr r' \<and> ring_rep r' (xs @ [e])"
proof -
  let ?n = "unat (sq_size r)" and ?t = "sq_tail r"
  from assms have ok: "length (sq_element r) = DZN_QUEUE_SIZE" "sq_head r < DZN_QUEUE_SIZE"
      "?t = (sq_head r + ?n) mod DZN_QUEUE_SIZE"
    and xs: "ring_contents r = xs" and n: "?n = length xs" "?n < DZN_QUEUE_SIZE"
    by (auto simp: ring_rep_def ring_ok_def ring_contents_def)
  have t: "?t < DZN_QUEUE_SIZE" unfolding ok(3) by (simp add: DZN_QUEUE_SIZE_def)
  have sz: "unat (sq_size r + 1) = Suc ?n"
    using n(2) by (simp add: unat_word_ariths DZN_QUEUE_SIZE_def)
  let ?r' = "r\<lparr>sq_element := (sq_element r)[?t := e],
      sq_tail := (if ?t + 1 = DZN_QUEUE_SIZE then 0 else ?t + 1), sq_size := sq_size r + 1\<rparr>"
  have "static_queue_push r e = Inr ?r'"
    using ok(1,2) t n sz by (simp add: static_queue_push_def Let_def)
  moreover have "ring_ok ?r'"
    using ok(1,2) n sz ring_wrap [OF t]
    by (simp add: ring_ok_def) (simp add: ok(3) mod_simps)
  moreover have "ring_contents ?r' = xs @ [e]"
  proof -
    have old: "sq_element ?r' ! ((sq_head r + i) mod DZN_QUEUE_SIZE) =
        sq_element r ! ((sq_head r + i) mod DZN_QUEUE_SIZE)" if "i < ?n" for i
      using that n ok ring_slot_distinct [of i ?n "sq_head r"] by simp
    have "ring_contents ?r' =
        map (\<lambda>i. sq_element ?r' ! ((sq_head r + i) mod DZN_QUEUE_SIZE)) [0..<?n] @ [e]"
      using sz ok t by (simp add: ring_contents_def)
    also have "\<dots> = ring_contents r @ [e]"
      unfolding ring_contents_def using old by (auto intro: map_cong)
    finally show ?thesis using xs by simp
  qed
  ultimately show ?thesis by (auto simp: ring_rep_def)
qed

lemma ring_rep_pop:
  assumes "ring_rep r (x # xs)"
  shows "\<exists>r'. static_queue_take r = Inr (x, r') \<and> ring_rep r' xs"
proof -
  let ?n = "unat (sq_size r)"
  from assms have ok: "length (sq_element r) = DZN_QUEUE_SIZE" "sq_head r < DZN_QUEUE_SIZE"
      "?n \<le> DZN_QUEUE_SIZE" "sq_tail r = (sq_head r + ?n) mod DZN_QUEUE_SIZE"
    and xs: "ring_contents r = x # xs"
    by (auto simp: ring_rep_def ring_ok_def)
  from xs have n: "?n = Suc (length xs)"
    by (metis ring_contents_def length_map length_upt length_Cons diff_zero)
  then have nz: "sq_size r \<noteq> 0" by auto
  have sz: "unat (sq_size r - 1) = length xs" using n nz by (simp add: unat_minus_one)
  have cont: "ring_contents r = sq_element r ! sq_head r #
      map (\<lambda>i. sq_element r ! ((sq_head r + Suc i) mod DZN_QUEUE_SIZE)) [0..<length xs]"
    unfolding ring_contents_def n map_upt_Suc using ok(2) by simp
  let ?r' = "r\<lparr>sq_head := (if sq_head r + 1 = DZN_QUEUE_SIZE then 0 else sq_head r + 1),
      sq_size := sq_size r - 1\<rparr>"
  have x: "x = sq_element r ! sq_head r" using xs cont by simp
  have "static_queue_take r = Inr (x, ?r')"
    using ok nz x by (simp add: static_queue_take_def static_queue_pop_def Let_def)
  moreover have "ring_ok ?r'"
    using ok n sz by (simp add: ring_ok_def ring_wrap mod_simps DZN_QUEUE_SIZE_def)
  moreover have "ring_contents ?r' = xs"
    using xs cont sz ok by (simp add: ring_contents_def ring_wrap mod_simps)
  ultimately show ?thesis by (auto simp: ring_rep_def)
qed

interpretation static: fifo ring_rep static_queue_empty "\<lambda>e q. static_queue_push q e"
  static_queue_take DZN_QUEUE_SIZE
proof (unfold_locales, goal_cases)
  case (1 q xs)
  then have "length xs = unat (sq_size q)" by (auto simp: ring_rep_def ring_contents_def)
  then show ?case by (auto simp: static_queue_empty_def unat_eq_zero)
next
  case (2 q xs e)
  then show ?case by (rule ring_rep_push)
next
  case (3 q x xs)
  then show ?case by (blast intro: ring_rep_pop)
next
  case (4 q)
  then have "sq_size q = 0" by (simp add: ring_rep_def ring_contents_def unat_eq_zero)
  then show ?case by (simp add: static_queue_take_def static_queue_pop_def)
qed

section \<open>Properties\<close>

text \<open>C33: the dynamic queue is a FIFO of up to 255 elements: whatever sequence of pushes and
  pops a list of at most 255 elements allows, the queue allows it, returns the same elements
  in the same order, and ends up representing the same list.\<close>

theorem dynamic_queue_fifo:
  assumes "queue_rep qs xs" and "length xs \<le> 255" and "list_run 255 xs ops = Some (out, ys)"
  shows "\<exists>qs'. queue_run dynamic_push dynamic_pop qs ops = Inr (out, qs') \<and> queue_rep qs' ys \<and>
    dzn_queue_empty (fst qs') = (ys = [])"
proof -
  from assms(2,3) have "length ys \<le> 255" by (rule list_run_bound)
  with dynamic.simulation [OF assms] dynamic.rep_empty show ?thesis by blast
qed

theorem dynamic_queue_fifo_witness:
  "\<exists>qs'. queue_run dynamic_push dynamic_pop (dzn_queue_init, empty_store)
       [Push 11, Push 12, Pop, Push 13, Pop] = Inr ([11, 12], qs') \<and> queue_rep qs' [13]"
proof -
  have "queue_rep (dzn_queue_init, empty_store) []"
    by (auto simp: queue_rep_def intro: queue_cells_init)
  from dynamic_queue_fifo [OF this, of "[Push 11, Push 12, Pop, Push 13, Pop]" "[11, 12]" "[13]"]
  show ?thesis by auto
qed

text \<open>C34: the static queue is a FIFO of up to \<open>DZN_QUEUE_SIZE\<close> elements, across every
  wrap-around of its head and tail pointers.\<close>

theorem static_queue_fifo:
  assumes "ring_rep r xs" and "length xs \<le> DZN_QUEUE_SIZE"
    and "list_run DZN_QUEUE_SIZE xs ops = Some (out, ys)"
  shows "\<exists>r'. queue_run (\<lambda>e q. static_queue_push q e) static_queue_take r ops = Inr (out, r') \<and>
    ring_rep r' ys"
  using assms by (rule static.simulation)

theorem static_queue_fifo_witness:
  "\<exists>r'. queue_run (\<lambda>e q. static_queue_push q e) static_queue_take
       (static_queue_init (replicate 7 0)) [Push (1::int), Push 2, Pop, Push 3] = Inr ([1], r') \<and>
     ring_rep r' [2, 3]"
proof -
  have "ring_rep (static_queue_init (replicate 7 (0::int))) []"
    by (rule ring_ok_init) (simp add: DZN_QUEUE_SIZE_def)
  from static_queue_fifo [OF this, of "[Push 1, Push 2, Pop, Push 3]" "[1]" "[2, 3]"]
  show ?thesis by (auto simp: DZN_QUEUE_SIZE_def)
qed

text \<open>C35: one element beyond the capacity.  Pushing the 256th element of a dynamic queue
  succeeds but wraps \<open>size\<close> to 0: the queue then claims to be empty and \<open>dzn_queue_pop\<close> fails
  its assertion, although all 256 elements are still linked.  Pushing the 8th element of a
  static queue fails its assertion.\<close>

theorem queue_capacity_exceeded:
  assumes "queue_rep (q, s) xs" and "length xs = 255"
    and "ring_rep r es" and "length es = DZN_QUEUE_SIZE"
  shows "(\<exists>q' s'. dzn_queue_push q e s = Inr (q', s') \<and> queue_rep (q', s') (xs @ [e]) \<and>
      dzn_queue_empty q' \<and> dzn_queue_pop q' s' = Inl (AssertFailed ''(int8_t)self->size'')) \<and>
    static_queue_push r x = Inl (AssertFailed ''self->size <= DZN_QUEUE_SIZE'')"
proof
  from assms(1) obtain cs where cs: "queue_cells q s cs" "xs = data_of cs"
    by (auto simp: queue_rep_def)
  from queue_cells_push [OF cs(1), of e] obtain q' s' where
    q': "dzn_queue_push q e s = Inr (q', s')" "queue_cells q' s' (cs @ [(fresh s, e)])" by blast
  have "q_size q' = of_nat (length (cs @ [(fresh s, e)]))" using q'(2) by (simp only: queue_cells_def)
  also have "\<dots> = of_nat 256" using assms(2) cs(2) by simp
  finally have "q_size q' = 0" by simp
  with q' cs(2) show "\<exists>q' s'. dzn_queue_push q e s = Inr (q', s') \<and> queue_rep (q', s') (xs @ [e]) \<and>
      dzn_queue_empty q' \<and> dzn_queue_pop q' s' = Inl (AssertFailed ''(int8_t)self->size'')"
    by (force simp: queue_rep_def dzn_queue_empty_def dzn_queue_size_def dzn_queue_pop_def)
next
  from assms(3,4) have r: "length (sq_element r) = DZN_QUEUE_SIZE" "unat (sq_size r) = DZN_QUEUE_SIZE"
      "sq_tail r = (sq_head r + unat (sq_size r)) mod DZN_QUEUE_SIZE"
    by (auto simp: ring_rep_def ring_ok_def ring_contents_def)
  have "sq_tail r < DZN_QUEUE_SIZE" unfolding r(3) by (simp add: DZN_QUEUE_SIZE_def)
  moreover have "unat (sq_size r + 1) = 8"
    using r(2) by (simp add: unat_word_ariths DZN_QUEUE_SIZE_def)
  ultimately show "static_queue_push r x = Inl (AssertFailed ''self->size <= DZN_QUEUE_SIZE'')"
    using r(1) by (simp add: static_queue_push_def Let_def DZN_QUEUE_SIZE_def)
qed

lemma pushes_allowed: "length xs + length es \<le> cap \<Longrightarrow> list_run cap xs (map Push es) = Some ([], xs @ es)"
  by (induction es arbitrary: xs) auto

theorem queue_capacity_exceeded_witness:
  "(\<exists>q s q' s'. dzn_queue_push q 5 s = Inr (q', s') \<and>
      queue_rep (q', s') (replicate 255 4 @ [5]) \<and> dzn_queue_empty q') \<and>
   (\<exists>r. ring_rep r [1::int, 2, 3, 4, 5, 6, 7] \<and>
      static_queue_push r 8 = Inl (AssertFailed ''self->size <= DZN_QUEUE_SIZE''))"
proof -
  have "queue_rep (dzn_queue_init, empty_store) []"
    by (auto simp: queue_rep_def intro: queue_cells_init)
  from dynamic.simulation [OF this _ pushes_allowed, of "replicate 255 4"]
  obtain q s where q: "queue_rep (q, s) (replicate 255 4)" by auto
  have "ring_rep (static_queue_init (replicate 7 (0::int))) []"
    by (rule ring_ok_init) (simp add: DZN_QUEUE_SIZE_def)
  from static.simulation [OF this _ pushes_allowed, of "[1, 2, 3, 4, 5, 6, 7]"]
  obtain r where r: "ring_rep r [1::int, 2, 3, 4, 5, 6, 7]" by (auto simp: DZN_QUEUE_SIZE_def)
  show ?thesis
    using queue_capacity_exceeded [OF q _ r, of 5 8] r by (auto simp: DZN_QUEUE_SIZE_def)
qed

end
