(* ===== verification/Memory_Pool.thy ===== *)
theory Memory_Pool
  imports Prelude
begin

text \<open>
  \<open>runtime/c/mem.c\<close> and \<open>dzn/mem.h\<close>: the two allocators of the runtime.

  The MISRA build hands out slices of one static array of \<open>DZN_MAX_SIZE\<close> bytes; its state is
  the offset of \<open>dzn_current_address\<close> in \<open>dzn_memory_array\<close>, sizes are \<open>size_t\<close> (64 bits) and
  their product wraps.  The hosted build calls \<open>calloc\<close> of the C library; whether that
  succeeds is a parameter, and so is \<open>NDEBUG\<close>, because with assertions compiled out a failed
  allocation is returned as NULL (\<open>None\<close>) and \<open>map.c\<close> has code for that case.
\<close>

section \<open>The MISRA pool\<close>

definition DZN_MAX_SIZE :: nat where "DZN_MAX_SIZE = 1048576"

record pool =
  dzn_current_address :: nat

definition initial_pool :: pool where
  "initial_pool = \<lparr>dzn_current_address = 0\<rparr>"

text \<open>
  \<open>DZN_MAX_SIZE + dzn_memory_array - dzn_current_address\<close> is a \<open>ptrdiff_t\<close>; comparing it with
  a \<open>size_t\<close> converts it to an unsigned 64-bit number.
\<close>

definition pool_calloc :: "64 word \<Rightarrow> 64 word \<Rightarrow> pool \<Rightarrow> (nat \<times> pool) result" where
  "pool_calloc n sz p =
     seq (c_assert ''DZN_MAX_SIZE + dzn_memory_array - dzn_current_address >= n * size''
           ((word_of_int (int DZN_MAX_SIZE - int (dzn_current_address p)) :: 64 word) \<ge> n * sz))
       (\<lambda>_. Inr (dzn_current_address p, p\<lparr>dzn_current_address := unat (n * sz)\<rparr>))"

definition pool_malloc :: "64 word \<Rightarrow> pool \<Rightarrow> (nat \<times> pool) result" where
  "pool_malloc sz p = pool_calloc 1 sz p"

definition pool_free :: "nat \<Rightarrow> pool \<Rightarrow> pool" where
  "pool_free ptr p = p"

definition pool_ok :: "pool \<Rightarrow> bool" where
  "pool_ok p \<longleftrightarrow> dzn_current_address p \<le> DZN_MAX_SIZE"

lemma pool_ok_initial [simp]: "pool_ok initial_pool"
  by (simp add: pool_ok_def initial_pool_def)

lemma dzn_current_address_initial: "dzn_current_address initial_pool = 0"
  by (simp add: initial_pool_def)

lemma unat_pool_left:
  assumes "pool_ok p"
  shows "unat (word_of_int (int DZN_MAX_SIZE - int (dzn_current_address p)) :: 64 word) =
    DZN_MAX_SIZE - dzn_current_address p"
proof -
  have "int DZN_MAX_SIZE - int (dzn_current_address p) =
      int (DZN_MAX_SIZE - dzn_current_address p)"
    using assms by (simp add: pool_ok_def)
  moreover have "DZN_MAX_SIZE - dzn_current_address p < 2 ^ LENGTH(64)"
    by (simp add: DZN_MAX_SIZE_def)
  ultimately show ?thesis by (simp only: of_int_of_nat_eq unat_of_nat mod_less)
qed

lemma pool_calloc_cases:
  assumes "pool_ok p"
  shows "pool_calloc n sz p =
    (if unat (n * sz) \<le> DZN_MAX_SIZE - dzn_current_address p
     then Inr (dzn_current_address p, p\<lparr>dzn_current_address := unat (n * sz)\<rparr>)
     else Inl (AssertFailed ''DZN_MAX_SIZE + dzn_memory_array - dzn_current_address >= n * size''))"
  unfolding pool_calloc_def word_le_nat_alt unat_pool_left [OF assms] by (simp add: c_assert_def)

lemma pool_calloc_ok: "pool_calloc n sz p = Inr (a, p') \<Longrightarrow> pool_ok p \<Longrightarrow> pool_ok p'"
  by (auto simp: pool_calloc_cases pool_ok_def split: if_splits)

text \<open>Every block the pool hands out lies inside the array, and the pool's address stays
  inside it, whatever the sizes (including products that wrap).\<close>

lemma pool_block_in_bounds:
  assumes "pool_ok p" and "pool_calloc n sz p = Inr (a, p')"
  shows "a + unat (n * sz) \<le> DZN_MAX_SIZE \<and> pool_ok p'"
  using assms by (auto simp: pool_calloc_cases pool_ok_def split: if_splits)

lemma pool_block_in_bounds_witness:
  "pool_calloc 4 8 initial_pool = Inr (0, \<lparr>dzn_current_address = 32\<rparr>) \<and>
   (0::nat) + unat (4 * 8 :: 64 word) \<le> DZN_MAX_SIZE"
proof -
  have "pool_calloc 4 8 initial_pool = Inr (0, \<lparr>dzn_current_address = 32\<rparr>)"
    by (simp add: pool_calloc_cases) (simp add: initial_pool_def DZN_MAX_SIZE_def)
  with pool_block_in_bounds [OF pool_ok_initial this] show ?thesis by simp
qed

text \<open>The pool reuses live memory.  \<open>dzn_calloc\<close> sets the address to the size of the block it
  has just handed out instead of advancing by it, so of any three consecutive non-empty
  allocations the third always overlaps the first or the second.\<close>

theorem pool_blocks_overlap:
  assumes "pool_malloc x initial_pool = Inr (a, p1)" and "pool_malloc y p1 = Inr (b, p2)"
    and "pool_malloc z p2 = Inr (c, p3)" and "0 < x" and "0 < y" and "0 < z"
  shows "{c..<c + unat z} \<inter> {a..<a + unat x} \<noteq> {} \<or> {c..<c + unat z} \<inter> {b..<b + unat y} \<noteq> {}"
proof -
  from assms have p1: "pool_ok p1"
    by (auto simp: pool_malloc_def dest: pool_calloc_ok)
  from p1 assms have p2: "pool_ok p2"
    by (auto simp: pool_malloc_def dest: pool_calloc_ok)
  from assms(1-3) p1 p2 have at: "a = 0" "b = unat x" "c = unat y"
    by (auto simp: pool_malloc_def pool_calloc_cases dzn_current_address_initial split: if_splits)
  have pos: "0 < unat x" "0 < unat y" "0 < unat z"
    using assms(4-6) by (simp_all add: word_less_nat_alt)
  show ?thesis
  proof (cases "unat y < unat x")
    case True
    with at pos have "c \<in> {c..<c + unat z} \<inter> {a..<a + unat x}" by simp
    then show ?thesis by blast
  next
    case False
    with at pos have "c \<in> {c..<c + unat z} \<inter> {b..<b + unat y}" by simp
    then show ?thesis by blast
  qed
qed

theorem pool_blocks_overlap_witness:
  "\<exists>p1 p2 p3. pool_malloc 16 initial_pool = Inr (0, p1) \<and> pool_malloc 8 p1 = Inr (16, p2) \<and>
     pool_malloc 8 p2 = Inr (8, p3) \<and> {8..<8 + 8} \<inter> {0..<0 + 16} \<noteq> ({} :: nat set)"
proof -
  have "pool_malloc 16 initial_pool = Inr (0, \<lparr>dzn_current_address = 16\<rparr>)"
    by (simp add: pool_malloc_def pool_calloc_cases) (simp add: initial_pool_def DZN_MAX_SIZE_def)
  moreover have "pool_malloc 8 \<lparr>dzn_current_address = 16\<rparr> = Inr (16, \<lparr>dzn_current_address = 8\<rparr>)"
    by (simp add: pool_malloc_def pool_calloc_cases pool_ok_def DZN_MAX_SIZE_def)
  moreover have "pool_malloc 8 \<lparr>dzn_current_address = 8\<rparr> = Inr (8, \<lparr>dzn_current_address = 8\<rparr>)"
    by (simp add: pool_malloc_def pool_calloc_cases pool_ok_def DZN_MAX_SIZE_def)
  ultimately show ?thesis
    using pool_blocks_overlap [of 16 0 _ 8 16 _ 8 8] by auto
qed

section \<open>The hosted allocator\<close>

record mem_config =
  ndebug :: bool
  calloc_ok :: "nat \<Rightarrow> nat \<Rightarrow> bool"

text \<open>\<open>zero\<close> is the object type's all-zero value: \<open>calloc\<close> clears what it allocates.\<close>

definition dzn_calloc :: "mem_config \<Rightarrow> nat \<Rightarrow> nat \<Rightarrow> 'o \<Rightarrow> 'o list option result" where
  "dzn_calloc cfg n sz zero =
     (if calloc_ok cfg n sz then Inr (Some (replicate n zero))
      else seq (if ndebug cfg then Inr () else c_assert ''0'' False) (\<lambda>_. Inr None))"

definition dzn_malloc :: "mem_config \<Rightarrow> nat \<Rightarrow> 'o \<Rightarrow> 'o option result" where
  "dzn_malloc cfg sz zero =
     seq (dzn_calloc cfg 1 sz zero) (\<lambda>r. Inr (map_option hd r))"

end
