(* ===== verification/Hash_Key.thy ===== *)
theory Hash_Key
  imports Prelude
begin

unbundle bit_operations_syntax

text \<open>
  The hash of a map key, \<open>runtime/c/map.c\<close> lines 98 to 189: the table-driven CRC-32, Jenkins'
  mix and Knuth's multiplication, all on \<open>uint32_t\<close> values (\<open>32 word\<close>), and the reduction
  modulo the table size.

  The loop counter of \<open>crc32\<close> is a \<open>uint16_t\<close>: on a key of 65536 bytes or more it wraps and
  the loop never ends, so \<open>crc32\<close> is a \<open>partial_function\<close>.  \<open>char\<close> is signed, and the cast
  of \<open>s[i]\<close> to \<open>uint32_t\<close> sign-extends it.  The reference \<open>crc_bitwise\<close> feeds the register
  one bit at a time with the polynomial the source's comment names.
\<close>

definition crc32_tab :: "32 word list" where
  "crc32_tab =
    [0x00000000, 0x77073096, 0xee0e612c, 0x990951ba, 0x076dc419, 0x706af48f,
     0xe963a535, 0x9e6495a3, 0x0edb8832, 0x79dcb8a4, 0xe0d5e91e, 0x97d2d988,
     0x09b64c2b, 0x7eb17cbd, 0xe7b82d07, 0x90bf1d91, 0x1db71064, 0x6ab020f2,
     0xf3b97148, 0x84be41de, 0x1adad47d, 0x6ddde4eb, 0xf4d4b551, 0x83d385c7,
     0x136c9856, 0x646ba8c0, 0xfd62f97a, 0x8a65c9ec, 0x14015c4f, 0x63066cd9,
     0xfa0f3d63, 0x8d080df5, 0x3b6e20c8, 0x4c69105e, 0xd56041e4, 0xa2677172,
     0x3c03e4d1, 0x4b04d447, 0xd20d85fd, 0xa50ab56b, 0x35b5a8fa, 0x42b2986c,
     0xdbbbc9d6, 0xacbcf940, 0x32d86ce3, 0x45df5c75, 0xdcd60dcf, 0xabd13d59,
     0x26d930ac, 0x51de003a, 0xc8d75180, 0xbfd06116, 0x21b4f4b5, 0x56b3c423,
     0xcfba9599, 0xb8bda50f, 0x2802b89e, 0x5f058808, 0xc60cd9b2, 0xb10be924,
     0x2f6f7c87, 0x58684c11, 0xc1611dab, 0xb6662d3d, 0x76dc4190, 0x01db7106,
     0x98d220bc, 0xefd5102a, 0x71b18589, 0x06b6b51f, 0x9fbfe4a5, 0xe8b8d433,
     0x7807c9a2, 0x0f00f934, 0x9609a88e, 0xe10e9818, 0x7f6a0dbb, 0x086d3d2d,
     0x91646c97, 0xe6635c01, 0x6b6b51f4, 0x1c6c6162, 0x856530d8, 0xf262004e,
     0x6c0695ed, 0x1b01a57b, 0x8208f4c1, 0xf50fc457, 0x65b0d9c6, 0x12b7e950,
     0x8bbeb8ea, 0xfcb9887c, 0x62dd1ddf, 0x15da2d49, 0x8cd37cf3, 0xfbd44c65,
     0x4db26158, 0x3ab551ce, 0xa3bc0074, 0xd4bb30e2, 0x4adfa541, 0x3dd895d7,
     0xa4d1c46d, 0xd3d6f4fb, 0x4369e96a, 0x346ed9fc, 0xad678846, 0xda60b8d0,
     0x44042d73, 0x33031de5, 0xaa0a4c5f, 0xdd0d7cc9, 0x5005713c, 0x270241aa,
     0xbe0b1010, 0xc90c2086, 0x5768b525, 0x206f85b3, 0xb966d409, 0xce61e49f,
     0x5edef90e, 0x29d9c998, 0xb0d09822, 0xc7d7a8b4, 0x59b33d17, 0x2eb40d81,
     0xb7bd5c3b, 0xc0ba6cad, 0xedb88320, 0x9abfb3b6, 0x03b6e20c, 0x74b1d29a,
     0xead54739, 0x9dd277af, 0x04db2615, 0x73dc1683, 0xe3630b12, 0x94643b84,
     0x0d6d6a3e, 0x7a6a5aa8, 0xe40ecf0b, 0x9309ff9d, 0x0a00ae27, 0x7d079eb1,
     0xf00f9344, 0x8708a3d2, 0x1e01f268, 0x6906c2fe, 0xf762575d, 0x806567cb,
     0x196c3671, 0x6e6b06e7, 0xfed41b76, 0x89d32be0, 0x10da7a5a, 0x67dd4acc,
     0xf9b9df6f, 0x8ebeeff9, 0x17b7be43, 0x60b08ed5, 0xd6d6a3e8, 0xa1d1937e,
     0x38d8c2c4, 0x4fdff252, 0xd1bb67f1, 0xa6bc5767, 0x3fb506dd, 0x48b2364b,
     0xd80d2bda, 0xaf0a1b4c, 0x36034af6, 0x41047a60, 0xdf60efc3, 0xa867df55,
     0x316e8eef, 0x4669be79, 0xcb61b38c, 0xbc66831a, 0x256fd2a0, 0x5268e236,
     0xcc0c7795, 0xbb0b4703, 0x220216b9, 0x5505262f, 0xc5ba3bbe, 0xb2bd0b28,
     0x2bb45a92, 0x5cb36a04, 0xc2d7ffa7, 0xb5d0cf31, 0x2cd99e8b, 0x5bdeae1d,
     0x9b64c2b0, 0xec63f226, 0x756aa39c, 0x026d930a, 0x9c0906a9, 0xeb0e363f,
     0x72076785, 0x05005713, 0x95bf4a82, 0xe2b87a14, 0x7bb12bae, 0x0cb61b38,
     0x92d28e9b, 0xe5d5be0d, 0x7cdcefb7, 0x0bdbdf21, 0x86d3d2d4, 0xf1d4e242,
     0x68ddb3f8, 0x1fda836e, 0x81be16cd, 0xf6b9265b, 0x6fb077e1, 0x18b74777,
     0x88085ae6, 0xff0f6a70, 0x66063bca, 0x11010b5c, 0x8f659eff, 0xf862ae69,
     0x616bffd3, 0x166ccf45, 0xa00ae278, 0xd70dd2ee, 0x4e048354, 0x3903b3c2,
     0xa7672661, 0xd06016f7, 0x4969474d, 0x3e6e77db, 0xaed16a4a, 0xd9d65adc,
     0x40df0b66, 0x37d83bf0, 0xa9bcae53, 0xdebb9ec5, 0x47b2cf7f, 0x30b5ffe9,
     0xbdbdf21c, 0xcabac28a, 0x53b39330, 0x24b4a3a6, 0xbad03605, 0xcdd70693,
     0x54de5729, 0x23d967bf, 0xb3667a2e, 0xc4614ab8, 0x5d681b02, 0x2a6f2b94,
     0xb40bbe37, 0xc30c8ea1, 0x5a05df1b, 0x2d02ef8d]"

definition char_to_uint32 :: "char \<Rightarrow> 32 word" where
  "char_to_uint32 c = scast (of_char c :: 8 word)"

definition crc32_step :: "32 word \<Rightarrow> char \<Rightarrow> 32 word" where
  "crc32_step crc32val c =
     (crc32_tab ! unat ((crc32val XOR char_to_uint32 c) AND 0xff)) XOR drop_bit 8 crc32val"

partial_function (option) crc32_loop ::
    "string \<Rightarrow> 32 word \<Rightarrow> 16 word \<Rightarrow> 32 word \<Rightarrow> 32 word option" where
  "crc32_loop s len i crc32val =
     (if (ucast i :: 32 word) < len
      then crc32_loop s len (i + 1) (crc32_step crc32val (s ! unat i))
      else Some crc32val)"

definition crc32 :: "string \<Rightarrow> 32 word \<Rightarrow> 32 word option" where
  "crc32 s len = crc32_loop s len 0 0"

definition hash_mix :: "32 word \<Rightarrow> 32 word" where
  "hash_mix key0 =
     (let key = key0 + push_bit 12 key0;
          key = key XOR drop_bit 22 key;
          key = key + push_bit 4 key;
          key = key XOR drop_bit 9 key;
          key = key + push_bit 10 key;
          key = key XOR drop_bit 2 key;
          key = key + push_bit 7 key;
          key = key XOR drop_bit 12 key
      in drop_bit 3 key * 2654435761)"

definition dzn_map_hash_int :: "64 word \<Rightarrow> string \<Rightarrow> 32 word run" where
  "dzn_map_hash_int table_size keystring =
     (case crc32 keystring (word_of_nat (length keystring)) of
        None \<Rightarrow> None
      | Some key \<Rightarrow>
          (if (ucast table_size :: 32 word) = 0 then Some (Inl DivisionByZero)
           else Some (Inr (hash_mix key mod ucast table_size))))"

section \<open>The loop of crc32\<close>

definition short_key :: "string \<Rightarrow> bool" where
  "short_key s \<longleftrightarrow> length s < 65536"

lemma unat_ucast_16: "unat (ucast (w :: 16 word) :: 32 word) = unat w"
proof -
  have "unat w < 2 ^ 16" using unsigned_less [of w, where 'a = nat] by simp
  then show ?thesis by (simp add: unsigned_ucast_eq take_bit_nat_eq_self)
qed

lemma crc32_loop_fold:
  assumes "short_key s" and "n \<le> length s"
  shows "crc32_loop s (word_of_nat (length s)) (word_of_nat n) c =
    Some (foldl crc32_step c (drop n s))"
  using assms(2)
proof (induction "length s - n" arbitrary: n c)
  case 0
  have "\<not> (ucast (word_of_nat n :: 16 word) :: 32 word) < word_of_nat (length s)"
    using 0 assms(1) by (simp add: word_less_nat_alt unat_of_nat unat_ucast_16 short_key_def)
  with 0 show ?case by (subst crc32_loop.simps) simp
next
  case (Suc k)
  then have n: "n < length s" by simp
  with assms(1) have "(ucast (word_of_nat n :: 16 word) :: 32 word) < word_of_nat (length s)"
    and u: "unat (word_of_nat n :: 16 word) = n"
    by (simp_all add: word_less_nat_alt unat_of_nat unat_ucast_16 short_key_def)
  moreover have "k = length s - Suc n" "Suc n \<le> length s" using Suc.hyps(2) by simp_all
  note Suc.hyps(1) [OF this, of "crc32_step c (s ! n)"]
  moreover have "(word_of_nat n :: 16 word) + 1 = word_of_nat (Suc n)" by simp
  ultimately show ?case
    using n by (subst crc32_loop.simps) (simp add: add.commute flip: Cons_nth_drop_Suc)
qed

lemma crc32_short: "short_key s \<Longrightarrow> crc32 s (word_of_nat (length s)) = Some (foldl crc32_step 0 s)"
  using crc32_loop_fold [of s 0 0] by (simp add: crc32_def)

section \<open>The table against the polynomial\<close>

text \<open>
  The reference: one step per message bit, with the reversed polynomial
  \<open>X^32+X^26+X^23+X^22+X^16+X^12+X^11+X^10+X^8+X^7+X^5+X^4+X^2+X^1+X^0\<close> of the source's comment.
  A step is linear for \<open>XOR\<close>, so the 256 entries of the table follow from twenty of them and
  the structure of the table.
\<close>

definition crc_shift :: "32 word \<Rightarrow> 32 word" where
  "crc_shift c = (if bit c 0 then drop_bit 1 c XOR 0xedb88320 else drop_bit 1 c)"

definition crc_byte :: "32 word \<Rightarrow> 32 word" where
  "crc_byte c = crc_shift (crc_shift (crc_shift (crc_shift
                  (crc_shift (crc_shift (crc_shift (crc_shift c)))))))"

definition crc_bitwise :: "string \<Rightarrow> 32 word" where
  "crc_bitwise s = foldl (\<lambda>c ch. crc_byte (c XOR of_char ch)) 0 s"

lemma crc_shift_xor: "crc_shift (a XOR b) = crc_shift a XOR crc_shift b"
  by (auto simp: crc_shift_def bit_xor_iff drop_bit_xor ac_simps)

lemma crc_byte_xor: "crc_byte (a XOR b) = crc_byte a XOR crc_byte b"
  by (simp add: crc_byte_def crc_shift_xor)

lemma low_byte_bits: "\<forall>k\<in>set [0..<8]. bit (0xff :: 32 word) k"
  by code_simp

lemma low_byte_mask: "(0xff :: 32 word) = mask 8"
  by (simp add: mask_eq_exp_minus_1)

lemma crc_byte_high:
  assumes "c AND 0xff = 0"
  shows "crc_byte c = drop_bit 8 c"
proof -
  have "\<not> bit c k" if "k < 8" for k
    using assms low_byte_bits that by (metis atLeast0LessThan atLeastLessThan_upt bit_0_eq
        bit_and_iff bot_apply bot_bool_def lessThan_iff)
  then have s: "crc_shift (drop_bit k c) = drop_bit (Suc k) c" if "k < 8" for k
    using that by (simp add: crc_shift_def bit_drop_bit_eq)
  have "(crc_shift ^^ k) c = drop_bit k c" if "k \<le> 8" for k
    using that by (induction k) (simp_all add: s)
  from this [of 8] show ?thesis
    by (simp add: crc_byte_def eval_nat_numeral)
qed

lemma crc32_tab_rows: "\<forall>i\<in>set [0..<8]. crc32_tab ! (32 * i) = crc_byte (word_of_nat (32 * i))"
  by code_simp

lemma crc32_tab_quads: "\<forall>i\<in>set [0..<8]. crc32_tab ! (4 * i) = crc_byte (word_of_nat (4 * i))"
  by code_simp

lemma crc32_tab_units: "\<forall>i\<in>set [0..<4]. crc32_tab ! i = crc_byte (word_of_nat i)"
  by code_simp

lemma crc32_tab_linear:
  "\<forall>i\<in>set [0..<8]. \<forall>j\<in>set [0..<32].
     crc32_tab ! (32 * i + j) = crc32_tab ! (32 * i) XOR crc32_tab ! j"
  by code_simp

lemma crc32_tab_linear_low:
  "\<forall>i\<in>set [0..<8]. \<forall>j\<in>set [0..<4].
     crc32_tab ! (4 * i + j) = crc32_tab ! (4 * i) XOR crc32_tab ! j"
  by code_simp

lemma index_linear:
  "\<forall>i\<in>set [0..<8]. \<forall>j\<in>set [0..<32].
     (word_of_nat (32 * i + j) :: 32 word) = word_of_nat (32 * i) XOR word_of_nat j"
  by code_simp

lemma index_linear_low:
  "\<forall>i\<in>set [0..<8]. \<forall>j\<in>set [0..<4].
     (word_of_nat (4 * i + j) :: 32 word) = word_of_nat (4 * i) XOR word_of_nat j"
  by code_simp

lemma crc32_tab_low:
  assumes "j < 32"
  shows "crc32_tab ! j = crc_byte (word_of_nat j)"
proof -
  have "j div 4 \<in> set [0..<8]" "j mod 4 \<in> set [0..<4]" using assms by auto
  then show ?thesis
    using crc32_tab_linear_low [THEN bspec, THEN bspec, of "j div 4" "j mod 4"]
      index_linear_low [THEN bspec, THEN bspec, of "j div 4" "j mod 4"]
      crc32_tab_units [THEN bspec, of "j mod 4"] crc32_tab_quads [THEN bspec, of "j div 4"]
    by (simp only: crc_byte_xor mult_div_mod_eq)
qed

lemma crc32_tab_entry:
  assumes "i < 256"
  shows "crc32_tab ! i = crc_byte (word_of_nat i)"
proof -
  have "i div 32 \<in> set [0..<8]" "i mod 32 \<in> set [0..<32]" "i mod 32 < 32" using assms by auto
  then show ?thesis
    using crc32_tab_linear [THEN bspec, THEN bspec, of "i div 32" "i mod 32"]
      index_linear [THEN bspec, THEN bspec, of "i div 32" "i mod 32"]
      crc32_tab_low [of "i mod 32"] crc32_tab_rows [THEN bspec, of "i div 32"]
    by (simp only: crc_byte_xor mult_div_mod_eq)
qed

lemma of_char_word_bit: "bit (of_char ch :: 'a::len word) n \<longleftrightarrow> n < LENGTH('a) \<and> n < 8 \<and>
   [digit0 ch, digit1 ch, digit2 ch, digit3 ch, digit4 ch, digit5 ch, digit6 ch, digit7 ch] ! n"
  unfolding of_char_def by (simp only: bit_horner_sum_bit_word_iff) auto

lemmas low_byte_bits_simps =
  low_byte_mask bit_and_iff bit_xor_iff bit_not_iff bit_mask_iff of_char_word_bit bit_signed_iff

text \<open>Sign-extending \<open>s[i]\<close> does not disturb the checksum: only the low byte selects the entry.\<close>

lemma char_to_uint32_low: "char_to_uint32 ch AND 0xff = of_char ch"
  by (rule bit_eqI) (auto simp: char_to_uint32_def low_byte_bits_simps)

lemma of_char_low: "of_char ch AND 0xff = (of_char ch :: 32 word)"
  by (rule bit_eqI) (auto simp: low_byte_bits_simps)

lemma split_at_mask: "x = (x AND m) XOR (x AND NOT m)" for x :: "'a::len word"
  by (rule bit_eqI) (auto simp: bit_simps)

lemma crc32_step_bitwise: "crc32_step c ch = crc_byte (c XOR of_char ch)"
proof -
  define x where "x = c XOR (of_char ch :: 32 word)"
  have idx: "(c XOR char_to_uint32 ch) AND 0xff = x AND 0xff"
    by (simp add: x_def bit.conj_xor_distrib2 char_to_uint32_low of_char_low)
  have "x AND 0xff < 2 ^ 8" unfolding low_byte_mask by (rule and_mask_less') simp
  then have "unat (x AND 0xff) < 256" by (simp add: word_less_nat_alt)
  from crc32_tab_entry [OF this]
  have low: "crc32_tab ! unat (x AND 0xff) = crc_byte (x AND 0xff)" by simp
  have high: "drop_bit 8 (x AND NOT 0xff) = drop_bit 8 c"
    by (rule bit_eqI)
      (auto simp: x_def low_byte_bits_simps bit_drop_bit_eq dest: bit_imp_le_length)
  have "crc_byte x = crc_byte (x AND 0xff) XOR crc_byte (x AND NOT 0xff)"
    by (subst split_at_mask [of x "0xff"]) (rule crc_byte_xor)
  also have "crc_byte (x AND NOT 0xff) = drop_bit 8 c"
    unfolding high [symmetric] by (rule crc_byte_high) (simp add: and.assoc)
  finally have "crc32_step c ch = crc_byte x"
    unfolding crc32_step_def idx low by simp
  then show ?thesis by (simp add: x_def)
qed

text \<open>C36: on every key shorter than 64 KiB, the table-driven checksum is the bit-by-bit CRC with
  the reversed polynomial, for \<open>char\<close>s of either sign.\<close>

theorem crc32_is_bitwise:
  assumes "short_key s"
  shows "crc32 s (word_of_nat (length s)) = Some (crc_bitwise s)"
proof -
  have "crc32_step = (\<lambda>c ch. crc_byte (c XOR of_char ch))"
    by (intro ext) (rule crc32_step_bitwise)
  with assms show ?thesis by (simp add: crc32_short crc_bitwise_def)
qed

theorem crc32_is_bitwise_witness:
  "crc32 ''locator'' (word_of_nat (length ''locator'')) = Some (crc_bitwise ''locator'')"
  by (rule crc32_is_bitwise) (simp add: short_key_def)

lemma crc32_loop_outside:
  assumes "crc32_loop s len i c = Some r"
  shows "\<exists>j. \<not> (ucast (j :: 16 word) :: 32 word) < len"
proof (rule crc32_loop.raw_induct [where P = "\<lambda>s len i c r. \<exists>j. \<not> (ucast (j :: 16 word) :: 32 word) < len",
    OF _ assms])
  fix f s len c r and i :: "16 word"
  assume "\<And>s len i c r. f s len i c = Some (r :: 32 word) \<Longrightarrow> \<exists>j. \<not> (ucast (j :: 16 word) :: 32 word) < len"
    and "(if (ucast i :: 32 word) < len then f s len (i + 1) (crc32_step c (s ! unat i))
      else Some c) = Some r"
  then show "\<exists>j. \<not> (ucast (j :: 16 word) :: 32 word) < len"
    by (cases "(ucast i :: 32 word) < len") auto
qed

text \<open>The loop counter of \<open>crc32\<close> is a \<open>uint16_t\<close>, so on a key of 65536 bytes or more, whose
  length still fits the \<open>uint32_t\<close> parameter, the loop never ends.\<close>

lemma crc32_long_key_diverges:
  assumes "65536 \<le> length s" and "length s < 2 ^ 32"
  shows "crc32 s (word_of_nat (length s)) = None"
proof -
  have "(ucast (i :: 16 word) :: 32 word) < word_of_nat (length s)" for i
  proof -
    have "unat i < 2 ^ 16" using unsigned_less [of i, where 'a = nat] by simp
    with assms show ?thesis
      by (simp add: word_less_nat_alt unat_of_nat unat_ucast_16)
  qed
  then have "crc32_loop s (word_of_nat (length s)) i c = None" for i c
    by (cases "crc32_loop s (word_of_nat (length s)) i c") (auto dest: crc32_loop_outside)
  then show ?thesis by (simp add: crc32_def)
qed

lemma crc32_long_key_diverges_witness:
  "crc32 (replicate 65536 CHR ''k'') (word_of_nat (length (replicate 65536 CHR ''k''))) = None"
  by (rule crc32_long_key_diverges) (simp_all only: length_replicate, simp_all)

definition key_hash :: "string \<Rightarrow> 32 word" where
  "key_hash s = hash_mix (foldl crc32_step 0 s)"

lemma dzn_map_hash_int_short:
  "short_key s \<Longrightarrow> (ucast ts :: 32 word) \<noteq> 0 \<Longrightarrow>
     dzn_map_hash_int ts s = Some (Inr (key_hash s mod ucast ts))"
  by (simp add: dzn_map_hash_int_def crc32_short key_hash_def)

end
