(* ===== verification/Hash_Map.thy ===== *)
theory Hash_Map
  imports Hash_Key Memory_Pool
begin

text \<open>
  The string-keyed hash map, \<open>runtime/c/map.c\<close>: a table of elements, eight slots of linear
  probing from the hash of the key, doubling and rehashing when no slot is found.

  A key is the C string up to its NUL, compared by \<open>strcmp\<close>; the map keeps the key pointer, so the
  strings are taken not to change while they are in the map.  \<open>map_data\<close> is \<open>None\<close> for the NULL
  pointer an unchecked build keeps when \<open>calloc\<close> fails.  Put and rehash call each other, so they
  are one group of functions by fuel; \<open>None\<close> is a computation that needs more.  The loop counter of
  the rehash and of the iteration is the \<open>uint16_t\<close> of the source.

  \<open>map_abs\<close> is the finite map a table represents: what a probe of the key's eight slots finds.
\<close>

section \<open>Constants and data\<close>

definition DZN_MAP_MISSING :: int where "DZN_MAP_MISSING = -3"
definition DZN_MAP_FULL :: int where "DZN_MAP_FULL = -2"
definition DZN_MAP_OMEM :: int where "DZN_MAP_OMEM = -1"
definition DZN_MAP_OK :: int where "DZN_MAP_OK = 0"

lemmas map_codes = DZN_MAP_MISSING_def DZN_MAP_FULL_def DZN_MAP_OMEM_def DZN_MAP_OK_def

definition INITIAL_SIZE :: nat where "INITIAL_SIZE = 256"
definition MAX_CHAIN_LENGTH :: nat where "MAX_CHAIN_LENGTH = 8"
definition INT32_MIN :: int where "INT32_MIN = - (2 ^ 31)"

text \<open>\<open>sizeof (dzn_map_element)\<close> on a 64-bit host.\<close>

definition ELEMENT_SIZE :: nat where "ELEMENT_SIZE = 24"

record dzn_map_element =
  elt_key :: "string option"
  elt_in_use :: bool
  elt_data :: addr

definition blank_element :: dzn_map_element where
  "blank_element = \<lparr>elt_key = None, elt_in_use = False, elt_data = NULL\<rparr>"

record dzn_map =
  table_size :: "64 word"
  map_size :: "64 word"
  map_data :: "dzn_map_element list option"

text \<open>An access \<open>self->data[i]\<close>, read and write.\<close>

definition element :: "dzn_map \<Rightarrow> nat \<Rightarrow> dzn_map_element result" where
  "element self i =
     (case map_data self of
        None \<Rightarrow> Inl NullDeref
      | Some xs \<Rightarrow> if i < length xs then Inr (xs ! i) else Inl OutOfBounds)"

definition set_element :: "nat \<Rightarrow> dzn_map_element \<Rightarrow> dzn_map \<Rightarrow> dzn_map result" where
  "set_element i e self =
     (case map_data self of
        None \<Rightarrow> Inl NullDeref
      | Some xs \<Rightarrow>
          if i < length xs then Inr (self\<lparr>map_data := Some (xs[i := e])\<rparr>) else Inl OutOfBounds)"

text \<open>\<open>!strcmp (elt.key, key)\<close>.\<close>

definition same_key :: "dzn_map_element \<Rightarrow> string \<Rightarrow> bool result" where
  "same_key e key = (case elt_key e of None \<Rightarrow> Inl NullDeref | Some k \<Rightarrow> Inr (k = key))"

section \<open>Operations\<close>

definition dzn_map_init :: "mem_config \<Rightarrow> dzn_map result" where
  "dzn_map_init cfg =
     seq (dzn_calloc cfg INITIAL_SIZE ELEMENT_SIZE blank_element) (\<lambda>data.
     seq (if ndebug cfg then Inr () else c_assert ''self->data'' (data \<noteq> None)) (\<lambda>_.
       Inr \<lparr>table_size = word_of_nat INITIAL_SIZE, map_size = 0, map_data = data\<rparr>))"

definition next_slot :: "dzn_map \<Rightarrow> 32 word \<Rightarrow> 32 word" where
  "next_slot self slot = (slot + 1) mod ucast (table_size self)"

function hash_probe :: "dzn_map \<Rightarrow> string \<Rightarrow> nat \<Rightarrow> 32 word \<Rightarrow> int \<Rightarrow> int result" where
  "hash_probe self key i slot response =
     (if i < MAX_CHAIN_LENGTH then
        seq (element self (unat slot)) (\<lambda>e.
        seq (if \<not> elt_in_use e then Inr (sint slot)
             else seq (same_key e key) (\<lambda>m. Inr (if m then sint slot else response))) (\<lambda>response.
          if response = sint slot then Inr response
          else if i = MAX_CHAIN_LENGTH - 1 then hash_probe self key (Suc i) slot DZN_MAP_FULL
          else hash_probe self key (Suc i) (next_slot self slot) response))
      else Inr response)"
  by pat_completeness auto
termination by (relation "measure (\<lambda>(_, _, i, _). MAX_CHAIN_LENGTH - i)") auto

definition dzn_map_hash :: "dzn_map \<Rightarrow> string \<Rightarrow> int run" where
  "dzn_map_hash self key =
     (if map_size self \<ge> table_size self div 2 then return_run DZN_MAP_FULL
      else bind_run (dzn_map_hash_int (table_size self) key)
             (\<lambda>slot. lift_run (hash_probe self key 0 slot INT32_MIN)))"

function get_probe :: "dzn_map \<Rightarrow> string \<Rightarrow> nat \<Rightarrow> 32 word \<Rightarrow> (int \<times> addr) result" where
  "get_probe self key i slot =
     (if i < MAX_CHAIN_LENGTH then
        seq (element self (unat slot)) (\<lambda>e.
        seq (if elt_in_use e then same_key e key else Inr False) (\<lambda>m.
          if m then Inr (DZN_MAP_OK, elt_data e)
          else get_probe self key (Suc i) (next_slot self slot)))
      else Inr (DZN_MAP_MISSING, NULL))"
  by pat_completeness auto
termination by (relation "measure (\<lambda>(_, _, i, _). MAX_CHAIN_LENGTH - i)") auto

definition dzn_map_get :: "dzn_map \<Rightarrow> string \<Rightarrow> (int \<times> addr) run" where
  "dzn_map_get self key =
     bind_run (dzn_map_hash_int (table_size self) key) (\<lambda>slot. lift_run (get_probe self key 0 slot))"

function remove_probe :: "dzn_map \<Rightarrow> string \<Rightarrow> nat \<Rightarrow> 32 word \<Rightarrow> (int \<times> dzn_map) result" where
  "remove_probe self key i slot =
     (if i < MAX_CHAIN_LENGTH then
        seq (element self (unat slot)) (\<lambda>e.
        seq (if elt_in_use e then same_key e key else Inr False) (\<lambda>m.
          if m then
            seq (set_element (unat slot) blank_element self) (\<lambda>self.
              Inr (DZN_MAP_OK, self\<lparr>map_size := map_size self - 1\<rparr>))
          else remove_probe self key (Suc i) (next_slot self slot)))
      else Inr (DZN_MAP_MISSING, self))"
  by pat_completeness auto
termination by (relation "measure (\<lambda>(_, _, i, _). MAX_CHAIN_LENGTH - i)") auto

definition dzn_map_remove :: "dzn_map \<Rightarrow> string \<Rightarrow> (int \<times> dzn_map) run" where
  "dzn_map_remove self key =
     bind_run (dzn_map_hash_int (table_size self) key)
       (\<lambda>slot. lift_run (remove_probe self key 0 slot))"

text \<open>The write at the end of \<open>dzn_map_put\<close>; \<open>index\<close> is an \<open>int32_t\<close>.\<close>

definition put_at :: "int \<Rightarrow> string \<Rightarrow> addr \<Rightarrow> dzn_map \<Rightarrow> dzn_map result" where
  "put_at index key value self =
     (if index < 0 then Inl OutOfBounds
      else seq (set_element (nat index) \<lparr>elt_key = Some key, elt_in_use = True, elt_data = value\<rparr> self)
             (\<lambda>self. Inr (self\<lparr>map_size := map_size self + 1\<rparr>)))"

text \<open>
  \<open>dzn_map_put\<close> and \<open>dzn_map_rehash\<close> call each other: the two loops take the function they call
  as an argument, and \<open>depth\<close> bounds how deep puts nest inside rehashes.  The loops themselves
  need no bound.
\<close>

partial_function (option) put_loop ::
    "(dzn_map \<Rightarrow> (int \<times> dzn_map) run) \<Rightarrow> dzn_map \<Rightarrow> string \<Rightarrow> addr \<Rightarrow> int \<Rightarrow> (int \<times> dzn_map) run" where
  "put_loop rehash self key value index =
     (if index = DZN_MAP_FULL then
        bind_run (rehash self) (\<lambda>r.
          if fst r = DZN_MAP_OMEM then return_run (DZN_MAP_OMEM, snd r)
          else bind_run (dzn_map_hash (snd r) key) (\<lambda>index. put_loop rehash (snd r) key value index))
      else lift_run (seq (put_at index key value self) (\<lambda>self. Inr (DZN_MAP_OK, self))))"

partial_function (option) rehash_loop ::
    "(dzn_map \<Rightarrow> string \<Rightarrow> addr \<Rightarrow> (int \<times> dzn_map) run) \<Rightarrow> dzn_map \<Rightarrow> 16 word \<Rightarrow>
       dzn_map \<Rightarrow> (int \<times> dzn_map) run" where
  "rehash_loop put old i self =
     (if ucast i < table_size old then
        bind_run (lift_run (element old (unat i))) (\<lambda>e.
          if elt_in_use e then
            bind_run (case elt_key e of None \<Rightarrow> fail_run NullDeref
                      | Some key \<Rightarrow> put self key (elt_data e)) (\<lambda>r.
              if fst r \<noteq> DZN_MAP_OK then return_run r else rehash_loop put old (i + 1) (snd r))
          else rehash_loop put old (i + 1) self)
      else return_run (DZN_MAP_OK, self))"

definition rehash_with ::
    "(dzn_map \<Rightarrow> string \<Rightarrow> addr \<Rightarrow> (int \<times> dzn_map) run) \<Rightarrow> mem_config \<Rightarrow> dzn_map \<Rightarrow>
       (int \<times> dzn_map) run" where
  "rehash_with put cfg self =
     bind_run (lift_run (dzn_calloc cfg (unat (2 * table_size self)) ELEMENT_SIZE blank_element))
       (\<lambda>temp. case temp of
          None \<Rightarrow> return_run (DZN_MAP_OMEM, self)
        | Some temp \<Rightarrow>
            rehash_loop put self 0
              \<lparr>table_size = 2 * table_size self, map_size = 0, map_data = Some temp\<rparr>)"

primrec dzn_map_put :: "nat \<Rightarrow> mem_config \<Rightarrow> dzn_map \<Rightarrow> string \<Rightarrow> addr \<Rightarrow> (int \<times> dzn_map) run" where
  "dzn_map_put 0 cfg = (\<lambda>self key value. None)"
| "dzn_map_put (Suc depth) cfg = (\<lambda>self key value.
     bind_run (dzn_map_hash self key)
       (\<lambda>index. put_loop (rehash_with (dzn_map_put depth cfg) cfg) self key value index))"

definition dzn_map_rehash :: "nat \<Rightarrow> mem_config \<Rightarrow> dzn_map \<Rightarrow> (int \<times> dzn_map) run" where
  "dzn_map_rehash depth cfg = rehash_with (dzn_map_put depth cfg) cfg"

declare hash_probe.simps [simp del] get_probe.simps [simp del] remove_probe.simps [simp del]

text \<open>\<open>dzn_map_free\<close> frees the table and then the map struct itself, which the heap of map structs
  (\<open>dzn_map store\<close>) must own.\<close>

definition dzn_map_free :: "addr \<Rightarrow> dzn_map store \<Rightarrow> dzn_map store result" where
  "dzn_map_free self s = seq (load s self) (\<lambda>_. c_free self s)"

definition dzn_map_length :: "dzn_map option \<Rightarrow> 8 word" where
  "dzn_map_length self = (case self of None \<Rightarrow> 0 | Some m \<Rightarrow> ucast (map_size m))"

text \<open>\<open>response\<close> is \<open>None\<close> while \<open>map_iterate_response\<close> is not assigned.\<close>

partial_function (option) iterate_loop ::
    "dzn_map \<Rightarrow> (dzn_map_element \<Rightarrow> 's \<Rightarrow> (int \<times> 's) run) \<Rightarrow> 16 word \<Rightarrow> int option \<Rightarrow> 's \<Rightarrow> (int \<times> 's) run"
where
  "iterate_loop self f i response item =
     (if ucast i < table_size self then
        bind_run (lift_run (element self (unat i))) (\<lambda>e.
        bind_run (if elt_in_use e then f e item else return_run (DZN_MAP_OK, item)) (\<lambda>r.
          if fst r \<noteq> DZN_MAP_OK then return_run r
          else iterate_loop self f (i + 1)
                 (if ucast i = table_size self - 1 then Some DZN_MAP_OK else response) (snd r)))
      else (case response of None \<Rightarrow> fail_run UninitRead | Some r \<Rightarrow> return_run (r, item)))"

definition dzn_map_iterate ::
    "dzn_map \<Rightarrow> (dzn_map_element \<Rightarrow> 's \<Rightarrow> (int \<times> 's) run) \<Rightarrow> 's \<Rightarrow> (int \<times> 's) run" where
  "dzn_map_iterate self f item =
     (if dzn_map_length (Some self) \<le> 0 then return_run (DZN_MAP_MISSING, item)
      else iterate_loop self f 0 None item)"


section \<open>What a table represents\<close>

definition cells :: "dzn_map \<Rightarrow> dzn_map_element list" where
  "cells m = (case map_data m of None \<Rightarrow> [] | Some xs \<Rightarrow> xs)"

abbreviation slots_of :: "dzn_map \<Rightarrow> nat" where
  "slots_of m \<equiv> unat (table_size m)"

definition occupied :: "dzn_map \<Rightarrow> nat \<Rightarrow> bool" where
  "occupied m i \<longleftrightarrow> elt_in_use (cells m ! i)"

definition holds :: "dzn_map \<Rightarrow> string \<Rightarrow> nat \<Rightarrow> bool" where
  "holds m key i \<longleftrightarrow> elt_in_use (cells m ! i) \<and> elt_key (cells m ! i) = Some key"

definition at_capacity :: "dzn_map \<Rightarrow> bool" where
  "at_capacity m \<longleftrightarrow> map_size m \<ge> table_size m div 2"

definition usable :: "dzn_map \<Rightarrow> string \<Rightarrow> nat \<Rightarrow> bool" where
  "usable m key i \<longleftrightarrow> \<not> occupied m i \<or> holds m key i"

definition home :: "dzn_map \<Rightarrow> string \<Rightarrow> nat" where
  "home m key = unat (key_hash key mod ucast (table_size m))"

definition probe_from :: "dzn_map \<Rightarrow> string \<Rightarrow> nat \<Rightarrow> nat list" where
  "probe_from m key i = map (\<lambda>j. (home m key + j) mod slots_of m) [i..<MAX_CHAIN_LENGTH]"

abbreviation probe :: "dzn_map \<Rightarrow> string \<Rightarrow> nat list" where
  "probe m key \<equiv> probe_from m key 0"

definition map_abs :: "dzn_map \<Rightarrow> string \<Rightarrow> addr option" where
  "map_abs m key = map_option (\<lambda>i. elt_data (cells m ! i)) (find (holds m key) (probe m key))"

definition map_wf :: "dzn_map \<Rightarrow> bool" where
  "map_wf m \<longleftrightarrow>
     map_data m = Some (cells m) \<and> length (cells m) = slots_of m \<and>
     0 < slots_of m \<and> slots_of m \<le> 131072 \<and>
     (\<forall>e \<in> set (cells m). elt_in_use e \<longrightarrow> elt_key e \<noteq> None)"

lemma probe_from_simps [simp]:
  "i < MAX_CHAIN_LENGTH \<Longrightarrow>
     probe_from m key i = (home m key + i) mod slots_of m # probe_from m key (Suc i)"
  "\<not> i < MAX_CHAIN_LENGTH \<Longrightarrow> probe_from m key i = []"
  by (simp_all add: probe_from_def upt_conv_Cons)

lemma map_wfD:
  assumes "map_wf m"
  shows "length (cells m) = slots_of m" and "0 < slots_of m" and "slots_of m \<le> 131072"
    and "unat (ucast (table_size m) :: 32 word) = slots_of m"
proof -
  show le: "slots_of m \<le> 131072" and "length (cells m) = slots_of m" and "0 < slots_of m"
    using assms by (auto simp: map_wf_def)
  then show "unat (ucast (table_size m) :: 32 word) = slots_of m"
    by (simp add: unsigned_ucast_eq take_bit_nat_eq_self)
qed

lemma table_size_32_nonzero: "map_wf m \<Longrightarrow> (ucast (table_size m) :: 32 word) \<noteq> 0"
  using map_wfD(2,4) [of m] by (metis less_numeral_extra(3) unat_0)

lemma element_wf:
  "map_wf m \<Longrightarrow> i < slots_of m \<Longrightarrow> element m i = Inr (cells m ! i)"
  by (simp add: element_def map_wf_def split: option.splits)

lemma set_element_wf:
  "map_wf m \<Longrightarrow> i < slots_of m \<Longrightarrow>
     set_element i e m = Inr (m\<lparr>map_data := Some ((cells m)[i := e])\<rparr>)"
  by (simp add: set_element_def map_wf_def split: option.splits)

lemma same_key_wf:
  "map_wf m \<Longrightarrow> i < slots_of m \<Longrightarrow> occupied m i \<Longrightarrow>
     same_key (cells m ! i) key = Inr (holds m key i)"
  by (auto simp: same_key_def map_wf_def holds_def occupied_def split: option.splits)

lemma probe_slot_bound:
  "map_wf m \<Longrightarrow> (home m key + i) mod slots_of m < slots_of m"
  using map_wfD(2) [of m] by simp

lemma home_bound: "map_wf m \<Longrightarrow> home m key < slots_of m"
  using map_wfD(2,4) [of m] by (simp add: home_def unat_mod)

lemma next_slot_probe:
  assumes "map_wf m" and "unat slot = (home m key + i) mod slots_of m"
  shows "unat (next_slot m slot) = (home m key + Suc i) mod slots_of m"
proof -
  have "unat slot < 131072"
    using map_wfD(2,3) [OF assms(1)] assms(2) by (metis mod_less_divisor order_less_le_trans)
  then have "unat (slot + 1) = unat slot + 1"
    by (simp add: unat_plus_simple word_le_nat_alt unat_word_ariths)
  then show ?thesis
    using map_wfD(4) [OF assms(1)] assms(2) by (simp add: next_slot_def unat_mod mod_Suc_eq)
qed

lemma sint_slot:
  assumes "map_wf m" and "unat slot = i mod slots_of m"
  shows "sint (slot :: 32 word) = int (i mod slots_of m)"
proof -
  have "unat slot < 131072"
    using map_wfD(2,3) [OF assms(1)] assms(2) by (metis mod_less_divisor order_less_le_trans)
  then have "int (unat slot) < int 131072" by (simp only: of_nat_less_iff)
  also have "int 131072 < 2 ^ 31" by simp
  finally have "uint slot < 2 ^ 31" unfolding uint_nat .
  then have "sint slot = uint slot"
    unfolding sint_uint
    by (intro signed_take_bit_int_eq_self) (auto intro: order_trans [OF _ uint_ge_0])
  then show ?thesis using assms(2) by (metis uint_nat)
qed


section \<open>The probe loops compute find\<close>

lemma hash_int_home:
  assumes "map_wf m" and "short_key key"
  obtains slot where "dzn_map_hash_int (table_size m) key = Some (Inr slot)"
    and "unat slot = home m key mod slots_of m"
  using dzn_map_hash_int_short [OF assms(2) table_size_32_nonzero [OF assms(1)]]
    home_bound [OF assms(1), of key]
  by (simp add: home_def)

lemma get_probe_find:
  assumes "map_wf m"
  shows "unat slot = (home m key + i) mod slots_of m \<Longrightarrow>
    get_probe m key i slot =
      Inr (case find (holds m key) (probe_from m key i) of
             None \<Rightarrow> (DZN_MAP_MISSING, NULL)
           | Some s \<Rightarrow> (DZN_MAP_OK, elt_data (cells m ! s)))"
proof (induction "MAX_CHAIN_LENGTH - i" arbitrary: i slot)
  case 0
  then show ?case by (subst get_probe.simps) simp
next
  case (Suc d)
  let ?s = "(home m key + i) mod slots_of m"
  have "i < MAX_CHAIN_LENGTH" using Suc.hyps(2) by simp
  moreover have "?s < slots_of m" using probe_slot_bound [OF assms] .
  moreover note Suc.hyps(1) [of "Suc i", OF _ next_slot_probe [OF assms Suc.prems]]
  ultimately show ?case
    using Suc.hyps(2) Suc.prems
    by (subst get_probe.simps)
      (auto simp: element_wf [OF assms] same_key_wf [OF assms] occupied_def holds_def)
qed

lemma hash_probe_find:
  assumes "map_wf m"
  shows "unat slot = (home m key + i) mod slots_of m \<Longrightarrow> response < 0 \<Longrightarrow> i < MAX_CHAIN_LENGTH \<Longrightarrow>
    hash_probe m key i slot response =
      Inr (case find (usable m key) (probe_from m key i) of
             None \<Rightarrow> DZN_MAP_FULL | Some s \<Rightarrow> int s)"
proof (induction "MAX_CHAIN_LENGTH - i" arbitrary: i slot)
  case 0
  then show ?case by simp
next
  case (Suc d)
  let ?s = "(home m key + i) mod slots_of m"
  have s: "?s < slots_of m" using probe_slot_bound [OF assms] .
  have sint: "sint slot = int ?s" using sint_slot [OF assms Suc.prems(1)] .
  have full: "hash_probe m key MAX_CHAIN_LENGTH slot DZN_MAP_FULL = Inr DZN_MAP_FULL"
    by (subst hash_probe.simps) simp
  have IH: "Suc i < MAX_CHAIN_LENGTH \<Longrightarrow>
    hash_probe m key (Suc i) (next_slot m slot) response =
      Inr (case find (usable m key) (probe_from m key (Suc i)) of
             None \<Rightarrow> DZN_MAP_FULL | Some s \<Rightarrow> int s)"
    using Suc.hyps(1) [of "Suc i", OF _ next_slot_probe [OF assms Suc.prems(1)]] Suc.hyps(2)
      Suc.prems by simp
  have last: "i = MAX_CHAIN_LENGTH - 1 \<longleftrightarrow> \<not> Suc i < MAX_CHAIN_LENGTH"
    and "i = MAX_CHAIN_LENGTH - 1 \<Longrightarrow> Suc i = MAX_CHAIN_LENGTH"
    using Suc.prems(3) by auto
  then show ?case
    using Suc.prems s IH full
    by (subst hash_probe.simps)
      (auto simp: element_wf [OF assms] same_key_wf [OF assms] occupied_def usable_def sint
        simp del: One_nat_def)
qed

lemma remove_probe_find:
  assumes "map_wf m"
  shows "unat slot = (home m key + i) mod slots_of m \<Longrightarrow>
    remove_probe m key i slot =
      Inr (case find (holds m key) (probe_from m key i) of
             None \<Rightarrow> (DZN_MAP_MISSING, m)
           | Some s \<Rightarrow> (DZN_MAP_OK, m\<lparr>map_data := Some ((cells m)[s := blank_element]),
                                      map_size := map_size m - 1\<rparr>))"
proof (induction "MAX_CHAIN_LENGTH - i" arbitrary: i slot)
  case 0
  then show ?case by (subst remove_probe.simps) simp
next
  case (Suc d)
  let ?s = "(home m key + i) mod slots_of m"
  have "i < MAX_CHAIN_LENGTH" using Suc.hyps(2) by simp
  moreover have "?s < slots_of m" using probe_slot_bound [OF assms] .
  moreover note Suc.hyps(1) [of "Suc i", OF _ next_slot_probe [OF assms Suc.prems]]
  ultimately show ?case
    using Suc.hyps(2) Suc.prems
    by (subst remove_probe.simps)
      (auto simp: element_wf [OF assms] set_element_wf [OF assms] same_key_wf [OF assms]
        occupied_def holds_def)
qed

lemma dzn_map_get_abs:
  assumes "map_wf m" and "short_key key"
  shows "dzn_map_get m key = return_run
    (case map_abs m key of None \<Rightarrow> (DZN_MAP_MISSING, NULL) | Some v \<Rightarrow> (DZN_MAP_OK, v))"
proof -
  obtain slot where "dzn_map_hash_int (table_size m) key = Some (Inr slot)"
    and "unat slot = (home m key + 0) mod slots_of m"
    using hash_int_home [OF assms] by auto
  then show ?thesis
    using get_probe_find [OF assms(1), of slot key 0]
    by (simp add: dzn_map_get_def map_abs_def split: option.split)
qed

lemma dzn_map_hash_find:
  assumes "map_wf m" and "short_key key"
  shows "dzn_map_hash m key = return_run
    (if at_capacity m then DZN_MAP_FULL
     else case find (usable m key) (probe m key) of None \<Rightarrow> DZN_MAP_FULL | Some s \<Rightarrow> int s)"
proof -
  obtain slot where "dzn_map_hash_int (table_size m) key = Some (Inr slot)"
    and "unat slot = (home m key + 0) mod slots_of m"
    using hash_int_home [OF assms] by auto
  then show ?thesis
    using hash_probe_find [OF assms(1), of slot key 0 INT32_MIN]
    by (simp add: dzn_map_hash_def at_capacity_def INT32_MIN_def MAX_CHAIN_LENGTH_def)
qed


section \<open>Storing an entry\<close>

definition place :: "nat \<Rightarrow> string \<Rightarrow> addr \<Rightarrow> dzn_map \<Rightarrow> dzn_map" where
  "place s key value m =
     m\<lparr>map_data := Some ((cells m)[s := \<lparr>elt_key = Some key, elt_in_use = True, elt_data = value\<rparr>]),
       map_size := map_size m + 1\<rparr>"

definition entry_count :: "dzn_map \<Rightarrow> nat" where
  "entry_count m = length (filter elt_in_use (cells m))"

text \<open>
  Every entry sits where the probe for its key stops: there is no free slot before it and no second
  entry for the key.  The size field counts at least the entries and is at most half the table.
\<close>

definition map_ok :: "dzn_map \<Rightarrow> bool" where
  "map_ok m \<longleftrightarrow>
     map_wf m \<and>
     (\<forall>i < slots_of m. \<forall>k. holds m k i \<longrightarrow> short_key k \<and> find (usable m k) (probe m k) = Some i) \<and>
     entry_count m \<le> unat (map_size m) \<and> unat (map_size m) \<le> slots_of m div 2"

lemma put_at_place:
  "map_wf m \<Longrightarrow> s < slots_of m \<Longrightarrow> put_at (int s) key value m = Inr (place s key value m)"
  by (simp add: put_at_def set_element_wf place_def)

lemma place_simps [simp]:
  "table_size (place s key value m) = table_size m"
  "map_size (place s key value m) = map_size m + 1"
  "cells (place s key value m) =
     (cells m)[s := \<lparr>elt_key = Some key, elt_in_use = True, elt_data = value\<rparr>]"
  "home (place s key value m) k = home m k"
  "probe_from (place s key value m) k i = probe_from m k i"
  by (simp_all add: place_def cells_def home_def probe_from_def)

lemma map_wf_place:
  assumes "map_wf m"
  shows "map_wf (place s key value m)"
proof -
  let ?e = "\<lparr>elt_key = Some key, elt_in_use = True, elt_data = value\<rparr>"
  have "map_data (place s key value m) = Some (cells (place s key value m))"
    by (simp add: place_def cells_def)
  moreover have "elt_key e \<noteq> None" if e: "e \<in> set ((cells m)[s := ?e])" and "elt_in_use e" for e
  proof -
    have "e = ?e \<or> e \<in> set (cells m)"
      using e set_update_subset_insert [of "cells m" s ?e] by (meson insertE subsetD)
    then show ?thesis
    proof
      assume "e \<in> set (cells m)"
      with assms that(2) show ?thesis unfolding map_wf_def by blast
    qed simp
  qed
  ultimately show ?thesis
    using map_wfD(1-3) [OF assms] unfolding map_wf_def place_simps length_list_update by simp
qed

lemma probe_bound:
  assumes "map_wf m" and "s \<in> set (probe_from m key i)"
  shows "s < slots_of m"
  using assms probe_slot_bound [OF assms(1)] by (auto simp: probe_from_def)

lemma find_in_set: "find P xs = Some x \<Longrightarrow> x \<in> set xs \<and> P x"
  by (induction xs) (auto split: if_splits)

lemma find_weaken:
  "find P xs = Some s \<Longrightarrow> Q s \<Longrightarrow> (\<And>t. t \<noteq> s \<Longrightarrow> t \<in> set xs \<Longrightarrow> Q t \<Longrightarrow> P t) \<Longrightarrow> find Q xs = Some s"
  by (induction xs) (auto split: if_splits)

lemma find_usable_bound:
  "map_wf m \<Longrightarrow> find (usable m key) (probe m key) = Some s \<Longrightarrow> s < slots_of m \<and> usable m key s"
  by (drule find_in_set) (auto intro: probe_bound)

lemma holds_place:
  "map_wf m \<Longrightarrow> s < slots_of m \<Longrightarrow>
     holds (place s key value m) k i \<longleftrightarrow> (if i = s then k = key else holds m k i)"
  by (auto simp: holds_def nth_list_update map_wfD(1))

lemma usable_place:
  "map_wf m \<Longrightarrow> s < slots_of m \<Longrightarrow>
     usable (place s key value m) k i \<longleftrightarrow> (if i = s then k = key else usable m k i)"
  by (auto simp: usable_def holds_def occupied_def nth_list_update map_wfD(1))

lemma map_abs_place:
  assumes "map_wf m" and "find (usable m key) (probe m key) = Some s"
  shows "map_abs (place s key value m) = (map_abs m)(key \<mapsto> value)"
proof
  fix k
  have s: "s < slots_of m" "usable m key s" using find_usable_bound [OF assms] by auto
  note eqs = holds_place [OF assms(1) s(1)]
  show "map_abs (place s key value m) k = ((map_abs m)(key \<mapsto> value)) k"
  proof (cases "k = key")
    case True
    have "find (holds (place s key value m) key) (probe m key) = Some s"
      by (rule find_weaken [OF assms(2)]) (simp_all add: eqs usable_def)
    with True s show ?thesis by (simp add: map_abs_def map_wfD(1) [OF assms(1)])
  next
    case False
    have other: "\<not> holds m k s"
      using s(2) False by (auto simp: usable_def holds_def occupied_def)
    have "holds (place s key value m) k = holds m k"
      by (rule ext) (use other False in \<open>simp add: eqs\<close>)
    moreover have "t \<noteq> s" if "find (holds m k) (probe m k) = Some t" for t
      using find_in_set [OF that] other by auto
    ultimately show ?thesis
      using False
      by (cases "find (holds m k) (probe m k)") (auto simp: map_abs_def nth_list_update)
  qed
qed

lemma filter_update_count:
  "length (filter P (xs[i := y])) \<le> Suc (length (filter P xs))"
  by (induction xs arbitrary: i) (auto split: nat.split intro: le_SucI)

lemma size_below_half:
  assumes "\<not> at_capacity m"
  shows "unat (map_size m) < slots_of m div 2"
    and "unat (map_size m + 1) = Suc (unat (map_size m))"
proof -
  show lt: "unat (map_size m) < slots_of m div 2"
    using assms by (simp add: at_capacity_def word_le_nat_alt unat_div)
  have "slots_of m < 2 ^ 64" using unsigned_less [of "table_size m", where 'a = nat] by simp
  with lt have "Suc (unat (map_size m)) < 2 ^ 64" by simp
  then show "unat (map_size m + 1) = Suc (unat (map_size m))"
    by (simp add: unat_word_ariths(1))
qed

lemma map_ok_place:
  assumes "map_ok m" and "short_key key" and "find (usable m key) (probe m key) = Some s"
    and "\<not> at_capacity m"
  shows "map_ok (place s key value m)"
proof -
  have wf: "map_wf m" using assms(1) by (simp add: map_ok_def)
  have s: "s < slots_of m" "usable m key s" using find_usable_bound [OF wf assms(3)] by auto
  note eqs = holds_place [OF wf s(1)] usable_place [OF wf s(1)]
  let ?m = "place s key value m"
  have "short_key k \<and> find (usable ?m k) (probe m k) = Some i"
    if "i < slots_of m" and held: "holds ?m k i" for i k
  proof (cases "i = s")
    case True
    then have "k = key" using held by (simp add: eqs)
    moreover have "find (usable ?m key) (probe m key) = Some s"
      by (rule find_weaken [OF assms(3)]) (simp_all add: eqs)
    ultimately show ?thesis using True assms(2) by simp
  next
    case False
    then have old: "holds m k i" using held by (simp add: eqs)
    then have at: "short_key k" "find (usable m k) (probe m k) = Some i"
      using assms(1) that(1) by (auto simp: map_ok_def)
    then have "k \<noteq> key" using assms(3) False by auto
    then have "find (usable ?m k) (probe m k) = Some i"
      using find_in_set [OF at(2)] False
      by (intro find_weaken [OF at(2)]) (simp_all add: eqs split: if_splits)
    with at show ?thesis by simp
  qed
  moreover have "entry_count ?m \<le> Suc (entry_count m)"
    by (simp add: entry_count_def filter_update_count)
  ultimately show ?thesis
    using assms(1) map_wf_place [OF wf] size_below_half [OF assms(4)]
    by (simp add: map_ok_def)
qed

end
