(* ===== verification/Map_Laws.thy ===== *)
theory Map_Laws
  imports Hash_Map
begin

text \<open>
  What the operations of the hash map do to the finite map a table represents: get reads it, put
  updates it however often the table has to grow on the way, remove restricts it as long as no
  hole has broken a probe sequence, iterate visits its entries in table order.

  The proof for put goes by the depth of puts nested in rehashes: \<open>put_correct\<close> is what one level
  may assume of the level below.
\<close>

section \<open>Put and rehash\<close>

text \<open>The contract of one level of \<open>dzn_map_put\<close>, and of the rehash that uses it.\<close>

definition put_contract :: "(dzn_map \<Rightarrow> string \<Rightarrow> addr \<Rightarrow> (int \<times> dzn_map) run) \<Rightarrow> bool" where
  "put_contract put \<longleftrightarrow>
     (\<forall>m key value status m'. put m key value = Some (Inr (status, m')) \<longrightarrow>
        status \<in> {DZN_MAP_OK, DZN_MAP_OMEM} \<and>
        (map_ok m \<longrightarrow> short_key key \<longrightarrow> status = DZN_MAP_OK \<longrightarrow>
           map_ok m' \<and> map_abs m' = (map_abs m)(key \<mapsto> value) \<and> slots_of m \<le> slots_of m'))"

definition rehash_contract :: "(dzn_map \<Rightarrow> (int \<times> dzn_map) run) \<Rightarrow> bool" where
  "rehash_contract rehash \<longleftrightarrow>
     (\<forall>m status m'. map_ok m \<longrightarrow> rehash m = Some (Inr (status, m')) \<longrightarrow>
        status \<in> {DZN_MAP_OK, DZN_MAP_OMEM} \<and>
        (status = DZN_MAP_OK \<longrightarrow>
           map_ok m' \<and> map_abs m' = map_abs m \<and> 2 * slots_of m \<le> slots_of m'))"

lemma put_contract_status:
  "put_contract put \<Longrightarrow> put m key value = Some (Inr (status, m')) \<Longrightarrow>
     status = DZN_MAP_OK \<or> status = DZN_MAP_OMEM"
  unfolding put_contract_def by blast

lemma put_contractD:
  assumes "put_contract put" and "map_ok m" and "short_key key"
    and "put m key value = Some (Inr (status, m'))"
  shows "status = DZN_MAP_OK \<and> map_ok m' \<and> map_abs m' = (map_abs m)(key \<mapsto> value) \<and>
      slots_of m \<le> slots_of m' \<or>
    status = DZN_MAP_OMEM"
  using assms unfolding put_contract_def by blast

lemma rehash_contractD:
  assumes "rehash_contract rehash" and "map_ok m" and "rehash m = Some (Inr (status, m'))"
  shows "status = DZN_MAP_OK \<and> map_ok m' \<and> map_abs m' = map_abs m \<and> 2 * slots_of m \<le> slots_of m' \<or>
    status = DZN_MAP_OMEM"
  using assms unfolding rehash_contract_def by blast

lemma map_okD: "map_ok m \<Longrightarrow> map_wf m"
  by (simp add: map_ok_def)

lemma codes_distinct [simp]:
  "DZN_MAP_OMEM \<noteq> DZN_MAP_OK" "DZN_MAP_OK \<noteq> DZN_MAP_OMEM"
  "int n \<noteq> DZN_MAP_FULL" "DZN_MAP_FULL \<noteq> int n"
  by (simp_all add: map_codes)

text \<open>The index \<open>dzn_map_hash\<close> returns, when it is not \<open>DZN_MAP_FULL\<close>, is where put may store.\<close>

lemma dzn_map_hash_index:
  assumes "map_ok m" and "short_key key"
    and "dzn_map_hash m key = Some (Inr index)" and "index \<noteq> DZN_MAP_FULL"
  obtains s where "index = int s" and "find (usable m key) (probe m key) = Some s"
    and "\<not> at_capacity m" and "s < slots_of m"
proof -
  have wf: "map_wf m" using assms(1) by (rule map_okD)
  have index: "index = (if at_capacity m then DZN_MAP_FULL
     else case find (usable m key) (probe m key) of None \<Rightarrow> DZN_MAP_FULL | Some s \<Rightarrow> int s)"
    using dzn_map_hash_find [OF wf assms(2)] assms(3) by (simp add: return_run_def)
  then have room: "\<not> at_capacity m" using assms(4) by (cases "at_capacity m") simp_all
  with index assms(4) obtain s where s: "find (usable m key) (probe m key) = Some s"
    by (cases "find (usable m key) (probe m key)") simp_all
  from index room s have "index = int s" by simp
  from that [OF this s room] find_usable_bound [OF wf s] show ?thesis by simp
qed

lemma put_at_correct:
  assumes "map_ok m" and "short_key key"
    and "dzn_map_hash m key = Some (Inr index)" and "index \<noteq> DZN_MAP_FULL"
  shows "\<exists>m'. put_at index key value m = Inr m' \<and> map_ok m' \<and>
    map_abs m' = (map_abs m)(key \<mapsto> value) \<and> slots_of m \<le> slots_of m'"
proof -
  obtain s where "index = int s" and s: "find (usable m key) (probe m key) = Some s"
    and "\<not> at_capacity m" and "s < slots_of m"
    using dzn_map_hash_index [OF assms] .
  moreover have "map_wf m" using assms(1) by (rule map_okD)
  ultimately show ?thesis
    using map_abs_place [OF _ s] map_ok_place [OF assms(1,2) s] by (simp add: put_at_place)
qed

lemma put_loop_correct:
  assumes R: "rehash_contract rehash" and key: "short_key key"
    and run: "put_loop rehash m key value index = Some r"
    and "map_ok m" and "dzn_map_hash m key = Some (Inr index)" and "r = Inr (status, m')"
  shows "status = DZN_MAP_OK \<and> map_ok m' \<and> map_abs m' = (map_abs m)(key \<mapsto> value) \<and>
      slots_of m \<le> slots_of m' \<or>
    status = DZN_MAP_OMEM"
proof -
  have "rehash = rehash \<longrightarrow> key = key \<longrightarrow> value = value \<longrightarrow> map_ok m \<longrightarrow>
      dzn_map_hash m key = Some (Inr index) \<longrightarrow> r = Inr (status, m') \<longrightarrow>
      status = DZN_MAP_OK \<and> map_ok m' \<and> map_abs m' = (map_abs m)(key \<mapsto> value) \<and>
      slots_of m \<le> slots_of m' \<or> status = DZN_MAP_OMEM"
  proof (rule put_loop.raw_induct [where P = "\<lambda>R m k v index r. R = rehash \<longrightarrow> k = key \<longrightarrow> v = value \<longrightarrow>
      map_ok m \<longrightarrow> dzn_map_hash m key = Some (Inr index) \<longrightarrow> r = Inr (status, m') \<longrightarrow>
      status = DZN_MAP_OK \<and> map_ok m' \<and> map_abs m' = (map_abs m)(key \<mapsto> value) \<and>
      slots_of m \<le> slots_of m' \<or> status = DZN_MAP_OMEM", OF _ run], intro impI, hypsubst)
    fix f and m :: dzn_map and index :: int
    assume IH: "\<And>R m k v index r. f R m k v index = Some r \<Longrightarrow> R = rehash \<longrightarrow> k = key \<longrightarrow> v = value \<longrightarrow>
        map_ok m \<longrightarrow> dzn_map_hash m key = Some (Inr index) \<longrightarrow> r = Inr (status, m') \<longrightarrow>
        status = DZN_MAP_OK \<and> map_ok m' \<and> map_abs m' = (map_abs m)(key \<mapsto> value) \<and>
        slots_of m \<le> slots_of m' \<or> status = DZN_MAP_OMEM"
      and ok: "map_ok m" and hash: "dzn_map_hash m key = Some (Inr index)"
      and step: "(if index = DZN_MAP_FULL then
          bind_run (rehash m) (\<lambda>r.
            if fst r = DZN_MAP_OMEM then return_run (DZN_MAP_OMEM, snd r)
            else bind_run (dzn_map_hash (snd r) key) (\<lambda>index. f rehash (snd r) key value index))
        else lift_run (seq (put_at index key value m) (\<lambda>self. Inr (DZN_MAP_OK, self)))) =
        Some (Inr (status, m'))"
    show "status = DZN_MAP_OK \<and> map_ok m' \<and> map_abs m' = (map_abs m)(key \<mapsto> value) \<and>
        slots_of m \<le> slots_of m' \<or> status = DZN_MAP_OMEM"
    proof (cases "index = DZN_MAP_FULL")
      case True
      with step have "bind_run (rehash m) (\<lambda>r.
            if fst r = DZN_MAP_OMEM then return_run (DZN_MAP_OMEM, snd r)
            else bind_run (dzn_map_hash (snd r) key) (\<lambda>index. f rehash (snd r) key value index)) =
          Some (Inr (status, m'))" by simp
      then obtain st m1 where re: "rehash m = Some (Inr (st, m1))"
        and rest: "(if st = DZN_MAP_OMEM then return_run (DZN_MAP_OMEM, m1)
          else bind_run (dzn_map_hash m1 key) (\<lambda>index. f rehash m1 key value index)) =
          Some (Inr (status, m'))"
        by (elim bind_run_pairE) (simp only: fst_conv snd_conv)
      from rehash_contractD [OF R ok re] show ?thesis
      proof
        assume st: "st = DZN_MAP_OK \<and> map_ok m1 \<and> map_abs m1 = map_abs m \<and> 2 * slots_of m \<le> slots_of m1"
        with rest obtain i where "dzn_map_hash m1 key = Some (Inr i)"
          and "f rehash m1 key value i = Some (Inr (status, m'))"
          by (auto simp: bind_run_Inr_iff)
        then have "status = DZN_MAP_OK \<and> map_ok m' \<and> map_abs m' = (map_abs m1)(key \<mapsto> value) \<and>
            slots_of m1 \<le> slots_of m' \<or> status = DZN_MAP_OMEM"
          using IH [of rehash m1 key _ i] st by simp
        moreover have "slots_of m \<le> slots_of m1" using st by simp
        ultimately show ?thesis using st by auto
      next
        assume "st = DZN_MAP_OMEM"
        with rest show ?thesis by (simp add: return_run_def)
      qed
    next
      case False
      from put_at_correct [OF ok key hash this] obtain m2
        where "put_at index key value m = Inr m2" "map_ok m2" "map_abs m2 = (map_abs m)(key \<mapsto> value)"
          "slots_of m \<le> slots_of m2"
        by blast
      with step False show ?thesis by (auto simp: lift_run_def return_run_def)
    qed
  qed
  with assms(4-6) show ?thesis by simp
qed


definition fresh_map :: "64 word \<Rightarrow> dzn_map" where
  "fresh_map n = \<lparr>table_size = n, map_size = 0, map_data = Some (replicate (unat n) blank_element)\<rparr>"

lemma fresh_map_simps [simp]:
  "table_size (fresh_map n) = n" "map_size (fresh_map n) = 0"
  "cells (fresh_map n) = replicate (unat n) blank_element"
  by (simp_all add: fresh_map_def cells_def)

lemma fresh_map_wf:
  assumes "0 < unat n" and "unat n \<le> 131072"
  shows "map_wf (fresh_map n)"
proof -
  have "map_data (fresh_map n) = Some (replicate (unat n) blank_element)"
    by (simp add: fresh_map_def)
  with assms show ?thesis by (simp add: map_wf_def blank_element_def)
qed

lemma fresh_holds_not: "i < unat n \<Longrightarrow> \<not> holds (fresh_map n) k i"
  by (simp add: holds_def blank_element_def)

lemma fresh_map_ok:
  assumes "0 < unat n" and "unat n \<le> 131072"
  shows "map_ok (fresh_map n)"
proof -
  have "filter elt_in_use (replicate (unat n) blank_element) = []"
    by (simp add: filter_empty_conv blank_element_def)
  then show ?thesis
    using fresh_map_wf [OF assms] fresh_holds_not [of _ n]
    unfolding map_ok_def entry_count_def fresh_map_simps by auto
qed

lemma fresh_map_abs:
  assumes "0 < unat n" and "unat n \<le> 131072"
  shows "map_abs (fresh_map n) = Map.empty"
proof
  fix k
  have "find (holds (fresh_map n) k) (probe (fresh_map n) k) = None"
    using probe_bound [OF fresh_map_wf [OF assms]] fresh_holds_not [of _ n k]
    by (auto simp: find_None_iff)
  then show "map_abs (fresh_map n) k = None" by (simp add: map_abs_def)
qed

text \<open>What a rehash has moved once its counter stands at \<open>n\<close>.\<close>

definition moved :: "dzn_map \<Rightarrow> nat \<Rightarrow> string \<Rightarrow> addr option" where
  "moved old n = (\<lambda>k. if \<exists>j<n. holds old k j then map_abs old k else None)"

lemma holds_usable: "holds m k i \<Longrightarrow> usable m k i"
  by (simp add: usable_def)

lemma map_ok_holds:
  assumes "map_ok m" and "i < slots_of m" and "holds m k i"
  shows "map_abs m k = Some (elt_data (cells m ! i))" and "short_key k"
proof -
  have "short_key k" and f: "find (usable m k) (probe m k) = Some i"
    using assms by (auto simp: map_ok_def)
  moreover have "find (holds m k) (probe m k) = Some i"
    using assms(3) holds_usable by (intro find_weaken [OF f]) auto
  ultimately show "map_abs m k = Some (elt_data (cells m ! i))" and "short_key k"
    by (simp_all add: map_abs_def)
qed

lemma moved_0 [simp]: "moved old 0 = Map.empty"
  by (simp add: moved_def)

lemma moved_all:
  assumes "map_ok old"
  shows "moved old (slots_of old) = map_abs old"
proof
  fix k
  have "\<exists>j < slots_of old. holds old k j" if "map_abs old k \<noteq> None"
  proof -
    from that obtain j where "find (holds old k) (probe old k) = Some j"
      by (auto simp: map_abs_def)
    with probe_bound [OF map_okD [OF assms]] show ?thesis by (auto dest!: find_in_set)
  qed
  then show "moved old (slots_of old) k = map_abs old k"
    by (cases "map_abs old k") (auto simp: moved_def)
qed

lemma moved_Suc_free: "\<not> elt_in_use (cells old ! n) \<Longrightarrow> moved old (Suc n) = moved old n"
proof
  fix k
  assume "\<not> elt_in_use (cells old ! n)"
  then have "(\<exists>j < Suc n. holds old k j) \<longleftrightarrow> (\<exists>j < n. holds old k j)"
    by (auto simp: holds_def less_Suc_eq)
  then show "moved old (Suc n) k = moved old n k" by (simp only: moved_def)
qed

lemma moved_Suc_held:
  assumes "map_ok old" and "n < slots_of old" and "holds old k n"
  shows "moved old (Suc n) = (moved old n)(k \<mapsto> elt_data (cells old ! n))"
proof
  fix k'
  show "moved old (Suc n) k' = ((moved old n)(k \<mapsto> elt_data (cells old ! n))) k'"
    using map_ok_holds(1) [OF assms] assms(3)
    by (cases "k' = k") (auto simp: moved_def less_Suc_eq, simp_all add: holds_def)
qed


text \<open>Induction over the iterations of one rehash, its two parameters fixed.\<close>

abbreviation (input) rehash_step ::
    "(dzn_map \<Rightarrow> string \<Rightarrow> addr \<Rightarrow> (int \<times> dzn_map) run) \<Rightarrow> dzn_map \<Rightarrow>
       (16 word \<Rightarrow> dzn_map \<Rightarrow> (int \<times> dzn_map) run) \<Rightarrow> 16 word \<Rightarrow> dzn_map \<Rightarrow> (int \<times> dzn_map) run"
where
  "rehash_step put old f i m \<equiv>
     (if ucast i < table_size old then
        bind_run (lift_run (element old (unat i))) (\<lambda>e.
          if elt_in_use e then
            bind_run (case elt_key e of None \<Rightarrow> fail_run NullDeref
                      | Some key \<Rightarrow> put m key (elt_data e)) (\<lambda>r.
              if fst r \<noteq> DZN_MAP_OK then return_run r else f (i + 1) (snd r))
          else f (i + 1) m)
      else return_run (DZN_MAP_OK, m))"

lemma rehash_loop_induct [consumes 1, case_names step]:
  assumes run: "rehash_loop put old i m = Some r"
    and step: "\<And>f i m r. (\<And>i m r. f i m = Some r \<Longrightarrow> P i m r) \<Longrightarrow>
      rehash_step put old f i m = Some r \<Longrightarrow> P i m r"
  shows "P i m r"
proof -
  have "put = put \<longrightarrow> old = old \<longrightarrow> P i m r"
  proof (rule rehash_loop.raw_induct [where P = "\<lambda>p old' i m r. p = put \<longrightarrow> old' = old \<longrightarrow> P i m r",
      OF _ run], intro impI, hypsubst)
    fix f i m r
    assume "\<And>p old' i m r. f p old' i m = Some r \<Longrightarrow> p = put \<longrightarrow> old' = old \<longrightarrow> P i m r"
      and "rehash_step put old (f put old) i m = Some r"
    then show "P i m r" by (intro step [of "f put old" i m r]) simp_all
  qed
  then show ?thesis by simp
qed

lemma rehash_step_cases:
  assumes "rehash_step put old f i m = Some r"
  obtains (finished) "\<not> ucast i < table_size old" and "r = Inr (DZN_MAP_OK, m)"
  | (faulty) e where "r = Inl e"
  | (free) e where "ucast i < table_size old" and "element old (unat i) = Inr e"
      and "\<not> elt_in_use e" and "f (i + 1) m = Some r"
  | (stopped) e key r' where "ucast i < table_size old" and "element old (unat i) = Inr e"
      and "elt_in_use e" and "elt_key e = Some key"
      and "put m key (elt_data e) = Some (Inr r')" and "fst r' \<noteq> DZN_MAP_OK" and "r = Inr r'"
  | (carried) e key m1 where "ucast i < table_size old" and "element old (unat i) = Inr e"
      and "elt_in_use e" and "elt_key e = Some key"
      and "put m key (elt_data e) = Some (Inr (DZN_MAP_OK, m1))" and "f (i + 1) m1 = Some r"
proof (cases "ucast i < table_size old")
  case False
  with assms finished show ?thesis by (simp add: return_run_def)
next
  case True
  let ?put = "\<lambda>e. case elt_key e of None \<Rightarrow> fail_run NullDeref | Some key \<Rightarrow> put m key (elt_data e)"
  have "bind_run (lift_run (element old (unat i))) (\<lambda>e.
          if elt_in_use e then bind_run (?put e) (\<lambda>r.
              if fst r \<noteq> DZN_MAP_OK then return_run r else f (i + 1) (snd r))
          else f (i + 1) m) = Some r"
    using assms True by simp
  then show ?thesis
  proof (cases rule: bind_run_cases)
    case (returned e)
    then have e: "element old (unat i) = Inr e" by (simp add: lift_run_def)
    show ?thesis
    proof (cases "elt_in_use e")
      case in_use: True
      with returned(2) have "bind_run (?put e) (\<lambda>r.
          if fst r \<noteq> DZN_MAP_OK then return_run r else f (i + 1) (snd r)) = Some r" by simp
      then show ?thesis
      proof (cases rule: bind_run_cases)
        case (returned r')
        then obtain key where "elt_key e = Some key" and "put m key (elt_data e) = Some (Inr r')"
          by (auto simp: fail_run_def split: option.splits)
        with returned(2) True e in_use show ?thesis
          by (cases r') (auto intro: stopped carried simp: return_run_def split: if_splits)
      qed (rule faulty)
    qed (use returned(2) True e free in auto)
  qed (rule faulty)
qed

lemma index_below:
  assumes "65536 \<le> slots_of old"
  shows "(ucast (i :: 16 word) :: 64 word) < table_size old"
proof -
  have "unat i < 2 ^ 16" using unsigned_less [of i, where 'a = nat] by simp
  with assms show ?thesis
    by (simp add: word_less_nat_alt unsigned_ucast_eq take_bit_nat_eq_self)
qed

lemma index_bound:
  assumes "65536 \<le> slots_of old"
  shows "unat (i :: 16 word) < slots_of old"
proof -
  have "unat i < 2 ^ 16" using unsigned_less [of i, where 'a = nat] by simp
  with assms show ?thesis by simp
qed

text \<open>A table of 65536 slots or more is never rehashed to the end: the counter wraps.\<close>

lemma rehash_loop_large:
  assumes "rehash_loop put old i m = Some r" and "65536 \<le> slots_of old"
  shows "r \<noteq> Inr (DZN_MAP_OK, m')"
  using assms(1)
proof (induction rule: rehash_loop_induct)
  case (step f i m r)
  from step.hyps index_below [OF assms(2), of i] step.IH show ?case
    by (elim rehash_step_cases) auto
qed

text \<open>Where a status comes from: \<open>DZN_MAP_OMEM\<close> only from the function called.\<close>

definition only_OMEM_from :: "bool \<Rightarrow> (int \<times> dzn_map) result \<Rightarrow> bool" where
  "only_OMEM_from refused r \<longleftrightarrow>
     (\<forall>status m'. r = Inr (status, m') \<longrightarrow> status = DZN_MAP_OK \<or> status = DZN_MAP_OMEM \<and> refused)"

lemma only_OMEM_simps [simp]:
  "only_OMEM_from refused (Inl e)"
  "only_OMEM_from refused (Inr (status, m)) \<longleftrightarrow>
     status = DZN_MAP_OK \<or> status = DZN_MAP_OMEM \<and> refused"
  by (simp_all add: only_OMEM_from_def)

lemma only_OMEM_weaken: "only_OMEM_from refused r \<Longrightarrow> only_OMEM_from True r"
  by (auto simp: only_OMEM_from_def)

definition may_refuse :: "(dzn_map \<Rightarrow> string \<Rightarrow> addr \<Rightarrow> (int \<times> dzn_map) run) \<Rightarrow> bool" where
  "may_refuse put \<longleftrightarrow> (\<exists>m key v m'. put m key v = Some (Inr (DZN_MAP_OMEM, m')))"

lemma rehash_loop_status:
  assumes "rehash_loop put old i m = Some r"
    and put: "\<And>m key v r. put m key v = Some r \<Longrightarrow> only_OMEM_from True r"
  shows "only_OMEM_from (may_refuse put) r"
  using assms(1)
proof (induction rule: rehash_loop_induct)
  case (step f i m r)
  from step.hyps show ?case
  proof (cases rule: rehash_step_cases)
    case (stopped e key r')
    with put [OF stopped(5)] show ?thesis
      by (cases r') (auto simp: may_refuse_def)
  qed (auto intro: step.IH)
qed

lemma unat_index_Suc:
  assumes "slots_of old < 65536" and "(ucast (i :: 16 word) :: 64 word) < table_size old"
  shows "unat i < slots_of old" and "unat (i + 1) = Suc (unat i)"
proof -
  have "unat i < 2 ^ 16" using unsigned_less [of i, where 'a = nat] by simp
  then show lt: "unat i < slots_of old"
    using assms(2) by (simp add: word_less_nat_alt unsigned_ucast_eq take_bit_nat_eq_self)
  with assms(1) show "unat (i + 1) = Suc (unat i)" by (simp add: unat_word_ariths(1))
qed


lemma rehash_loop_correct:
  assumes put: "put_contract put" and old: "map_ok old" and small: "slots_of old < 65536"
    and run: "rehash_loop put old i m = Some r" and "r = Inr (status, m')"
    and "map_ok m" and "map_abs m = moved old (unat i)" and "unat i \<le> slots_of old"
  shows "status = DZN_MAP_OK \<and> map_ok m' \<and> map_abs m' = map_abs old \<and> slots_of m \<le> slots_of m' \<or>
    status = DZN_MAP_OMEM"
  using run assms(5-)
proof (induction rule: rehash_loop_induct)
  case (step f i m r)
  note wf = map_okD [OF old]
  have at: "unat i < slots_of old" "unat (i + 1) = Suc (unat i)" "element old (unat i) = Inr (cells old ! unat i)"
    if "ucast i < table_size old"
    using unat_index_Suc [OF small that] element_wf [OF wf] by simp_all
  from step.hyps show ?case
  proof (cases rule: rehash_step_cases)
    case finished
    then have "unat i = slots_of old"
      using step.prems(4) small
      by (simp add: word_less_nat_alt unsigned_ucast_eq take_bit_nat_eq_self)
    with finished step.prems show ?thesis by (simp add: moved_all [OF old])
  next
    case (faulty e)
    with step.prems show ?thesis by simp
  next
    case (free e)
    with at show ?thesis
      using step.IH [of "i + 1" m r] step.prems by (simp add: moved_Suc_free)
  next
    case (stopped e key r')
    have "holds old key (unat i)" using stopped at by (simp add: holds_def)
    then have "short_key key" using map_ok_holds(2) [OF old at(1)] stopped(1) by simp
    from put_contractD [OF put step.prems(2) this, of _ status m'] stopped step.prems(1)
    show ?thesis by auto
  next
    case (carried e key m1)
    have held: "holds old key (unat i)" using carried at by (simp add: holds_def)
    then have "short_key key" using map_ok_holds(2) [OF old at(1)] carried(1) by simp
    from put_contractD [OF put step.prems(2) this carried(5)]
    have m1: "map_ok m1" "map_abs m1 = (map_abs m)(key \<mapsto> elt_data e)" "slots_of m \<le> slots_of m1"
      by auto
    then have "map_abs m1 = moved old (unat (i + 1))"
      using step.prems(3) at carried(1,2) moved_Suc_held [OF old at(1) held] by simp
    then show ?thesis
      using step.IH [OF carried(6)] step.prems(1) at carried(1) m1(1,3) by auto
  qed
qed

lemma put_contract_only_OMEM:
  "put_contract put \<Longrightarrow> put m key v = Some r \<Longrightarrow> only_OMEM_from True r"
  by (auto simp: only_OMEM_from_def dest: put_contract_status)

lemma double_table:
  assumes "slots_of m < 65536"
  shows "unat (2 * table_size m) = 2 * slots_of m"
  using assms by (simp add: unat_word_ariths(2))

lemma rehash_with_correct:
  assumes "put_contract put"
  shows "rehash_contract (rehash_with put cfg)"
  unfolding rehash_contract_def
proof (intro allI impI)
  fix m status m'
  assume ok: "map_ok m" and run: "rehash_with put cfg m = Some (Inr (status, m'))"
  then have pos: "0 < slots_of m" using map_wfD(2) [OF map_okD] by blast
  from run obtain temp where
    temp: "dzn_calloc cfg (unat (2 * table_size m)) ELEMENT_SIZE blank_element = Inr temp"
    and rest: "(case temp of None \<Rightarrow> return_run (DZN_MAP_OMEM, m)
       | Some t \<Rightarrow> rehash_loop put m 0 \<lparr>table_size = 2 * table_size m, map_size = 0, map_data = Some t\<rparr>)
       = Some (Inr (status, m'))"
    unfolding rehash_with_def by (auto simp: bind_run_Inr_iff lift_run_def)
  have "status = DZN_MAP_OK \<and> map_ok m' \<and> map_abs m' = map_abs m \<and> 2 * slots_of m \<le> slots_of m' \<or>
    status = DZN_MAP_OMEM"
  proof (cases temp)
    case None
    with rest show ?thesis by (simp add: return_run_def)
  next
    case (Some t)
    then have "t = replicate (unat (2 * table_size m)) blank_element"
      using temp by (auto simp: dzn_calloc_def split: if_splits)
    with rest Some have loop:
      "rehash_loop put m 0 (fresh_map (2 * table_size m)) = Some (Inr (status, m'))"
      by (simp add: fresh_map_def)
    show ?thesis
    proof (cases "slots_of m < 65536")
      case True
      then have "0 < unat (2 * table_size m)" "unat (2 * table_size m) \<le> 131072"
        using pos by (simp_all only: double_table)
      then show ?thesis
        using rehash_loop_correct [OF assms ok True loop] fresh_map_ok fresh_map_abs
        by (simp add: double_table [OF True])
    next
      case False
      have "only_OMEM_from (may_refuse put) (Inr (status, m'))"
        using loop by (rule rehash_loop_status) (rule put_contract_only_OMEM [OF assms])
      with False rehash_loop_large [OF loop] show ?thesis by auto
    qed
  qed
  then show "status \<in> {DZN_MAP_OK, DZN_MAP_OMEM} \<and>
    (status = DZN_MAP_OK \<longrightarrow> map_ok m' \<and> map_abs m' = map_abs m \<and> 2 * slots_of m \<le> slots_of m')"
    by auto
qed


lemma put_loop_status:
  assumes run: "put_loop rehash m key value index = Some r"
  shows "only_OMEM_from (\<exists>m m'. rehash m = Some (Inr (DZN_MAP_OMEM, m'))) r"
proof -
  let ?refused = "\<exists>m m'. rehash m = Some (Inr (DZN_MAP_OMEM, m'))"
  have "rehash = rehash \<longrightarrow> only_OMEM_from ?refused r"
  proof (rule put_loop.raw_induct [where P = "\<lambda>R m k v index r. R = rehash \<longrightarrow> only_OMEM_from ?refused r",
      OF _ run], intro impI, hypsubst)
    fix f m key value' index r
    assume IH: "\<And>R m k v index r. f R m k v index = Some r \<Longrightarrow> R = rehash \<longrightarrow> only_OMEM_from ?refused r"
      and step: "(if index = DZN_MAP_FULL then
          bind_run (rehash m) (\<lambda>r.
            if fst r = DZN_MAP_OMEM then return_run (DZN_MAP_OMEM, snd r)
            else bind_run (dzn_map_hash (snd r) key) (\<lambda>index. f rehash (snd r) key value' index))
        else lift_run (seq (put_at index key value' m) (\<lambda>self. Inr (DZN_MAP_OK, self)))) = Some r"
    show "only_OMEM_from ?refused r"
    proof (cases "index = DZN_MAP_FULL")
      case True
      with step have "bind_run (rehash m) (\<lambda>r.
            if fst r = DZN_MAP_OMEM then return_run (DZN_MAP_OMEM, snd r)
            else bind_run (dzn_map_hash (snd r) key) (\<lambda>index. f rehash (snd r) key value' index)) =
          Some r" by simp
      then show ?thesis
      proof (cases rule: bind_run_cases)
        case (faulty e)
        then show ?thesis by (simp add: only_OMEM_from_def)
      next
        case (returned x)
        show ?thesis
        proof (cases "fst x = DZN_MAP_OMEM")
          case True
          with returned have "?refused" by (cases x) auto
          with True returned(2) show ?thesis by (auto simp: only_OMEM_from_def return_run_def)
        next
          case False
          with returned(2) have "bind_run (dzn_map_hash (snd x) key) (f rehash (snd x) key value') = Some r"
            by simp
          then show ?thesis
            by (cases rule: bind_run_cases) (auto simp: only_OMEM_from_def dest!: IH)
        qed
      qed
    next
      case False
      with step show ?thesis
        by (cases "put_at index key value' m") (auto simp: lift_run_def only_OMEM_from_def)
    qed
  qed
  then show ?thesis by simp
qed

lemma dzn_map_put_status:
  assumes "dzn_map_put depth cfg m key v = Some r"
  shows "only_OMEM_from True r"
proof (cases depth)
  case (Suc d)
  with assms have "bind_run (dzn_map_hash m key)
      (\<lambda>index. put_loop (rehash_with (dzn_map_put d cfg) cfg) m key v index) = Some r" by simp
  then show ?thesis
    by (cases rule: bind_run_cases) (auto intro: only_OMEM_weaken [OF put_loop_status])
qed (use assms in simp)

lemma dzn_map_put_contract: "put_contract (dzn_map_put depth cfg)"
proof (induction depth)
  case 0
  show ?case by (simp add: put_contract_def)
next
  case (Suc depth)
  let ?rehash = "rehash_with (dzn_map_put depth cfg) cfg"
  show ?case unfolding put_contract_def
  proof (intro allI impI conjI)
    fix m key value' status m'
    assume run: "dzn_map_put (Suc depth) cfg m key value' = Some (Inr (status, m'))"
    then obtain index where hash: "dzn_map_hash m key = Some (Inr index)"
      and loop: "put_loop ?rehash m key value' index = Some (Inr (status, m'))"
      by (auto simp: bind_run_Inr_iff)
    from put_loop_status [OF loop]
    show "status \<in> {DZN_MAP_OK, DZN_MAP_OMEM}" by auto
    assume "map_ok m" and "short_key key" and "status = DZN_MAP_OK"
    with put_loop_correct [OF rehash_with_correct [OF Suc.IH] _ loop _ hash refl]
    show "map_ok m'" and "map_abs m' = (map_abs m)(key \<mapsto> value')" and "slots_of m \<le> slots_of m'"
      by auto
  qed
qed


section \<open>Termination\<close>

text \<open>
  When the allocator refuses tables of more than 65536 elements, puts nest at most once per
  doubling: with \<open>depth > k\<close> the put returns on every table that is above 32768 slots after \<open>k\<close>
  doublings.
\<close>

definition refuses_large :: "mem_config \<Rightarrow> bool" where
  "refuses_large cfg \<longleftrightarrow> (\<forall>n > 65536. \<not> calloc_ok cfg n ELEMENT_SIZE)"

definition returns_above ::
    "nat \<Rightarrow> (dzn_map \<Rightarrow> string \<Rightarrow> addr \<Rightarrow> (int \<times> dzn_map) run) \<Rightarrow> bool" where
  "returns_above k put \<longleftrightarrow>
     (\<forall>m key value. map_ok m \<longrightarrow> short_key key \<longrightarrow> 32768 < slots_of m * 2 ^ k \<longrightarrow> returns (put m key value))"

lemma hash_returns: "map_ok m \<Longrightarrow> short_key key \<Longrightarrow> \<exists>index. dzn_map_hash m key = Some (Inr index)"
  using dzn_map_hash_find [OF map_okD] by (auto simp: return_run_def)

lemma rehash_loop_returns:
  assumes put: "put_contract put" "returns_above k put" and old: "map_ok old"
    and small: "slots_of old < 65536"
    and "map_ok m" and "32768 < slots_of m * 2 ^ k" and "unat i \<le> slots_of old"
  shows "returns (rehash_loop put old i m)"
  using assms(5-)
proof (induction "slots_of old - unat i" arbitrary: i m rule: less_induct)
  case less
  show ?case
  proof (cases "ucast i < table_size old")
    case False
    then show ?thesis by (subst rehash_loop.simps) (simp add: return_run_def)
  next
    case True
    note at = unat_index_Suc [OF small True]
    have elt: "element old (unat i) = Inr (cells old ! unat i)"
      using element_wf [OF map_okD [OF old] at(1)] .
    have next_i: "slots_of old - unat (i + 1) < slots_of old - unat i" "unat (i + 1) \<le> slots_of old"
      using at by simp_all
    show ?thesis
    proof (cases "elt_in_use (cells old ! unat i)")
      case False
      with True elt less.hyps [OF next_i(1) less.prems(1,2) next_i(2)] show ?thesis
        by (subst rehash_loop.simps) simp
    next
      case in_use: True
      then obtain key where key: "elt_key (cells old ! unat i) = Some key"
        using map_okD [OF old] at(1) map_wfD(1) [OF map_okD [OF old]]
        by (auto simp: map_wf_def dest!: bspec [OF _ nth_mem])
      with in_use have short: "short_key key"
        using map_ok_holds(2) [OF old at(1)] by (simp add: holds_def)
      let ?run = "put m key (elt_data (cells old ! unat i))"
      have "returns ?run" using put(2) less.prems(1,2) short by (simp add: returns_above_def)
      moreover have "returns (rehash_loop put old (i + 1) m1)"
        if "?run = Some (Inr (DZN_MAP_OK, m1))" for m1
      proof -
        have "map_ok m1" "slots_of m \<le> slots_of m1"
          using put_contractD [OF put(1) less.prems(1) short that] by auto
        moreover from this(2) have "32768 < slots_of m1 * 2 ^ k"
          using less.prems(2) by (meson le_less_trans mult_le_mono1 order_less_le_trans)
        ultimately show ?thesis using less.hyps [OF next_i(1) _ _ next_i(2)] by blast
      qed
      ultimately show ?thesis
        using True elt in_use key
        by (subst rehash_loop.simps)
          (auto simp: returns_bind_run lift_run_def)
    qed
  qed
qed

lemma rehash_with_returns:
  assumes "put_contract put" and "\<And>j. k = Suc j \<Longrightarrow> returns_above j put" and "refuses_large cfg"
    and "map_ok m" and big: "32768 < slots_of m * 2 ^ k"
  shows "returns (rehash_with put cfg m)"
proof (cases "dzn_calloc cfg (unat (2 * table_size m)) ELEMENT_SIZE blank_element")
  case (Inl e)
  then show ?thesis by (simp add: rehash_with_def fail_run_def)
next
  case (Inr temp)
  show ?thesis
  proof (cases temp)
    case None
    with Inr show ?thesis by (simp add: rehash_with_def return_run_def)
  next
    case (Some t)
    with Inr have t: "t = replicate (unat (2 * table_size m)) blank_element"
      and granted: "calloc_ok cfg (unat (2 * table_size m)) ELEMENT_SIZE"
      by (auto simp: dzn_calloc_def split: if_splits)
    note wf = map_wfD [OF map_okD [OF assms(4)]]
    have double: "unat (2 * table_size m) = 2 * slots_of m"
      using wf(3) by (simp add: unat_word_ariths(2))
    with granted assms(3) have "\<not> 65536 < 2 * slots_of m" unfolding refuses_large_def by metis
    then have le: "slots_of m \<le> 32768" and small: "slots_of m < 65536" "2 * slots_of m \<le> 131072"
      by simp_all
    from big le obtain j where j: "k = Suc j" by (cases k) auto
    have fresh: "map_ok (fresh_map (2 * table_size m))"
      by (rule fresh_map_ok) (simp_all only: double, use wf(2) small in simp_all)
    have "returns (rehash_loop put m 0 (fresh_map (2 * table_size m)))"
      by (rule rehash_loop_returns [OF assms(1) assms(2) [OF j] assms(4) small(1) fresh])
        (use big j in \<open>simp_all add: double\<close>)
    with Inr Some t show ?thesis by (simp add: rehash_with_def fresh_map_def)
  qed
qed

lemma put_loop_returns:
  assumes rehash: "rehash_contract rehash"
      "\<And>m. map_ok m \<Longrightarrow> 32768 < slots_of m * 2 ^ k \<Longrightarrow> returns (rehash m)"
    and key: "short_key key" and "map_ok m" and "32768 < slots_of m * 2 ^ k"
  shows "returns (put_loop rehash m key value index)"
  using assms(4-)
proof (induction "131072 - slots_of m" arbitrary: m index rule: less_induct)
  case less
  have "returns (rehash m)" using rehash(2) less.prems by blast
  moreover have "returns (bind_run (dzn_map_hash m1 key) (\<lambda>index. put_loop rehash m1 key value index))"
    if re: "rehash m = Some (Inr (status, m1))" and "status \<noteq> DZN_MAP_OMEM" for status m1
  proof -
    have m1: "map_ok m1" "2 * slots_of m \<le> slots_of m1"
      using rehash_contractD [OF rehash(1) less.prems(1) re] that(2) by auto
    have "0 < slots_of m" "slots_of m1 \<le> 131072"
      using map_wfD(2,3) map_okD less.prems(1) m1(1) by blast+
    with m1(2) have smaller: "131072 - slots_of m1 < 131072 - slots_of m" by linarith
    have "slots_of m \<le> slots_of m1" using m1(2) by simp
    then have "32768 < slots_of m1 * 2 ^ k"
      using less.prems(2) by (meson le_less_trans mult_le_mono1 order_less_le_trans)
    from less.hyps [OF smaller m1(1) this] hash_returns [OF m1(1) key] show ?thesis by auto
  qed
  ultimately show ?case
    by (subst put_loop.simps) (auto simp: returns_bind_run)
qed

lemma dzn_map_put_returns:
  assumes "refuses_large cfg"
  shows "returns_above k (dzn_map_put (Suc k) cfg)"
proof (induction k)
  case 0
  show ?case
    unfolding returns_above_def
  proof (intro allI impI)
    fix m key value'
    assume m: "map_ok m" "short_key key" "32768 < slots_of m * 2 ^ 0"
    have "put_contract (dzn_map_put 0 cfg)" by (rule dzn_map_put_contract)
    from put_loop_returns [OF rehash_with_correct [OF this]
        rehash_with_returns [where k = 0, OF this _ assms] m(2,1,3)]
    show "returns (dzn_map_put (Suc 0) cfg m key value')"
      using hash_returns [OF m(1,2)] by (auto simp: returns_bind_run)
  qed
next
  case (Suc k)
  show ?case
    unfolding returns_above_def
  proof (intro allI impI)
    fix m key value'
    assume m: "map_ok m" "short_key key" "32768 < slots_of m * 2 ^ Suc k"
    have c: "put_contract (dzn_map_put (Suc k) cfg)" by (rule dzn_map_put_contract)
    have "returns (rehash_with (dzn_map_put (Suc k) cfg) cfg m)"
      if "map_ok m" "32768 < slots_of m * 2 ^ Suc k" for m
      by (rule rehash_with_returns [OF c _ assms that]) (use Suc.IH in simp)
    from put_loop_returns [OF rehash_with_correct [OF c] this m(2,1,3)]
    show "returns (dzn_map_put (Suc (Suc k)) cfg m key value')"
      using hash_returns [OF m(1,2)] by (auto simp: returns_bind_run)
  qed
qed


section \<open>Removing an entry\<close>

definition erase :: "nat \<Rightarrow> dzn_map \<Rightarrow> dzn_map" where
  "erase s m = m\<lparr>map_data := Some ((cells m)[s := blank_element]), map_size := map_size m - 1\<rparr>"

definition unique_keys :: "dzn_map \<Rightarrow> bool" where
  "unique_keys m \<longleftrightarrow>
     (\<forall>i < slots_of m. \<forall>j < slots_of m. \<forall>k. holds m k i \<longrightarrow> holds m k j \<longrightarrow> i = j)"

lemma map_ok_unique: "map_ok m \<Longrightarrow> unique_keys m"
  unfolding map_ok_def unique_keys_def by (metis option.inject)

lemma erase_simps [simp]:
  "table_size (erase s m) = table_size m"
  "map_size (erase s m) = map_size m - 1"
  "cells (erase s m) = (cells m)[s := blank_element]"
  "home (erase s m) k = home m k"
  "probe_from (erase s m) k i = probe_from m k i"
  by (simp_all add: erase_def cells_def home_def probe_from_def)

lemma map_wf_erase:
  assumes "map_wf m"
  shows "map_wf (erase s m)"
proof -
  have "map_data (erase s m) = Some (cells (erase s m))"
    by (simp add: erase_def cells_def)
  moreover have "elt_key e \<noteq> None" if e: "e \<in> set ((cells m)[s := blank_element])" and "elt_in_use e" for e
  proof -
    have "e = blank_element \<or> e \<in> set (cells m)"
      using e set_update_subset_insert [of "cells m" s blank_element] by (meson insertE subsetD)
    with that(2) assms show ?thesis unfolding map_wf_def by (auto simp: blank_element_def)
  qed
  ultimately show ?thesis
    using map_wfD(1-3) [OF assms] unfolding map_wf_def erase_simps length_list_update by simp
qed

lemma holds_erase:
  "map_wf m \<Longrightarrow> s < slots_of m \<Longrightarrow> holds (erase s m) k i \<longleftrightarrow> i \<noteq> s \<and> holds m k i"
  by (auto simp: holds_def nth_list_update map_wfD(1) blank_element_def)

lemma usable_erase:
  "map_wf m \<Longrightarrow> s < slots_of m \<Longrightarrow> usable (erase s m) k i \<longleftrightarrow> i = s \<or> usable m k i"
  by (auto simp: usable_def occupied_def holds_def nth_list_update map_wfD(1) blank_element_def)

lemma find_cong': "(\<And>t. t \<in> set xs \<Longrightarrow> P t \<longleftrightarrow> Q t) \<Longrightarrow> find P xs = find Q xs"
  by (induction xs) auto

lemma map_abs_erase_other:
  assumes "map_wf m" and "holds m key s" and "s < slots_of m" and "k \<noteq> key"
  shows "map_abs (erase s m) k = map_abs m k"
proof -
  have other: "\<not> holds m k s" using assms(2,4) by (simp add: holds_def)
  then have "holds (erase s m) k = holds m k"
    by (intro ext) (auto simp: holds_erase [OF assms(1,3)])
  moreover have "t \<noteq> s" if "find (holds m k) (probe m k) = Some t" for t
    using find_in_set [OF that] other by auto
  ultimately show ?thesis
    by (cases "find (holds m k) (probe m k)") (auto simp: map_abs_def nth_list_update)
qed

lemma map_abs_erase:
  assumes "map_wf m" and "unique_keys m" and "holds m key s" and "s < slots_of m"
  shows "map_abs (erase s m) = (map_abs m)(key := None)"
proof
  fix k
  show "map_abs (erase s m) k = ((map_abs m)(key := None)) k"
  proof (cases "k = key")
    case True
    have "\<not> holds (erase s m) key t" if "t \<in> set (probe m key)" for t
      using probe_bound [OF assms(1) that] assms(2-)
      by (auto simp: holds_erase [OF assms(1,4)] unique_keys_def)
    then have "find (holds (erase s m) key) (probe m key) = None" by (auto simp: find_None_iff)
    with True show ?thesis by (simp add: map_abs_def)
  qed (simp add: map_abs_erase_other [OF assms(1,3,4)])
qed

lemma dzn_map_remove_find:
  assumes "map_wf m" and "short_key key"
  shows "dzn_map_remove m key = return_run
    (case find (holds m key) (probe m key) of
       None \<Rightarrow> (DZN_MAP_MISSING, m) | Some s \<Rightarrow> (DZN_MAP_OK, erase s m))"
proof -
  obtain slot where "dzn_map_hash_int (table_size m) key = Some (Inr slot)"
    and "unat slot = (home m key + 0) mod slots_of m"
    using hash_int_home [OF assms] by auto
  then show ?thesis
    using remove_probe_find [OF assms(1), of slot key 0]
    by (simp add: dzn_map_remove_def erase_def split: option.split)
qed

lemma map_ok_find:
  assumes "map_ok m" and "i < slots_of m" and "holds m k i"
  shows "find (usable m k) (probe m k) = Some i" and "find (holds m k) (probe m k) = Some i"
proof -
  show f: "find (usable m k) (probe m k) = Some i" using assms by (simp add: map_ok_def)
  show "find (holds m k) (probe m k) = Some i"
    using assms(3) holds_usable by (intro find_weaken [OF f]) auto
qed

lemma find_earlier:
  "find P xs = Some t \<Longrightarrow> s \<in> set (takeWhile (\<lambda>i. i \<noteq> t) xs) \<Longrightarrow>
     find (\<lambda>i. i = s \<or> P i) xs = Some s"
  by (induction xs) (auto split: if_splits)

lemma at_capacity_erase:
  assumes "map_ok m" and "\<not> at_capacity m" and "s < slots_of m" and "holds m k s"
  shows "\<not> at_capacity (erase s m)"
proof -
  have "cells m ! s \<in> set (filter elt_in_use (cells m))"
    using assms(3,4) map_wfD(1) [OF map_okD [OF assms(1)]] by (auto simp: holds_def)
  then have "0 < entry_count m" unfolding entry_count_def by (rule length_pos_if_in_set)
  then have "0 < unat (map_size m)" using assms(1) by (simp add: map_ok_def)
  then have "unat (map_size m - 1) < unat (map_size m)"
    by (metis less_irrefl_nat measure_unat unat_0)
  then show ?thesis
    using assms(2) by (simp add: at_capacity_def word_le_nat_alt)
qed

text \<open>A put that finds room, on any well-formed table.\<close>

lemma put_here:
  assumes "map_wf m" and "short_key key" and "\<not> at_capacity m"
    and "find (usable m key) (probe m key) = Some s"
  shows "dzn_map_put (Suc depth) cfg m key v = return_run (DZN_MAP_OK, place s key v m)"
proof -
  have "dzn_map_hash m key = return_run (int s)"
    using dzn_map_hash_find [OF assms(1,2)] assms(3,4) by simp
  moreover have "put_loop R m key v (int s) = return_run (DZN_MAP_OK, place s key v m)" for R
    using put_at_place [OF assms(1)] find_usable_bound [OF assms(1,4)]
    by (subst put_loop.simps) simp
  ultimately show ?thesis by simp
qed

section \<open>A small map\<close>

text \<open>The keys \<open>k\<close> and \<open>x\<close> have the same home in a table of 256 slots.\<close>

lemma home_k: "key_hash ''k'' mod 256 = 39"
  by code_simp

lemma home_x: "key_hash ''x'' mod 256 = 39"
  by code_simp

definition map_k :: dzn_map where
  "map_k = place 39 ''k'' 1 (fresh_map 256)"

definition map_kx :: dzn_map where
  "map_kx = place 40 ''x'' 2 map_k"

lemma short_examples [simp]: "short_key ''k''" "short_key ''x''" "short_key ''log''"
  by (simp_all add: short_key_def)

lemma map_ok_256: "map_ok (fresh_map 256)"
  by (rule fresh_map_ok) simp_all

lemma homes_kx: "home (fresh_map 256) ''k'' = 39" "home (fresh_map 256) ''x'' = 39"
  by (simp_all add: home_def home_k home_x)

lemma room_in_fresh: "find (usable (fresh_map 256) k) (probe (fresh_map 256) k) = Some (home (fresh_map 256) k)"
  using home_bound [OF map_okD [OF map_ok_256], of k]
  by (simp add: MAX_CHAIN_LENGTH_def usable_def occupied_def blank_element_def)

lemma not_full_fresh: "\<not> at_capacity (fresh_map 256)"
  by (simp add: at_capacity_def)

lemma map_ok_k: "map_ok map_k"
  unfolding map_k_def
  using room_in_fresh [of "''k''"] by (intro map_ok_place map_ok_256 not_full_fresh) (simp_all add: homes_kx)

lemma room_for_x: "find (usable map_k ''x'') (probe map_k ''x'') = Some 40"
  by (simp add: map_k_def homes_kx MAX_CHAIN_LENGTH_def usable_def occupied_def holds_def blank_element_def)

lemma not_full_kx: "\<not> at_capacity map_k" "\<not> at_capacity map_kx"
  by (simp_all add: map_kx_def map_k_def at_capacity_def word_le_nat_alt)

lemma map_ok_kx: "map_ok map_kx"
  unfolding map_kx_def by (intro map_ok_place map_ok_k not_full_kx room_for_x) simp

section \<open>The contract of the map\<close>

text \<open>Where allocation cannot return NULL, \<open>DZN_MAP_OMEM\<close> never comes back.\<close>

definition never_NULL :: "mem_config \<Rightarrow> bool" where
  "never_NULL cfg \<longleftrightarrow> (ndebug cfg \<longrightarrow> (\<forall>n. calloc_ok cfg n ELEMENT_SIZE))"

lemma rehash_with_status:
  assumes "never_NULL cfg" and "\<not> may_refuse put"
    and "\<And>m key v r. put m key v = Some r \<Longrightarrow> only_OMEM_from True r"
  shows "rehash_with put cfg m \<noteq> Some (Inr (DZN_MAP_OMEM, m'))"
proof
  assume "rehash_with put cfg m = Some (Inr (DZN_MAP_OMEM, m'))"
  then obtain temp where "dzn_calloc cfg (unat (2 * table_size m)) ELEMENT_SIZE blank_element = Inr temp"
    and rest: "(case temp of None \<Rightarrow> return_run (DZN_MAP_OMEM, m)
       | Some t \<Rightarrow> rehash_loop put m 0 \<lparr>table_size = 2 * table_size m, map_size = 0, map_data = Some t\<rparr>)
       = Some (Inr (DZN_MAP_OMEM, m'))"
    unfolding rehash_with_def by (auto simp: bind_run_Inr_iff lift_run_def)
  then obtain t where "temp = Some t"
    using assms(1) by (auto simp: dzn_calloc_def never_NULL_def split: if_splits)
  with rest have "rehash_loop put m 0
      \<lparr>table_size = 2 * table_size m, map_size = 0, map_data = Some t\<rparr> = Some (Inr (DZN_MAP_OMEM, m'))"
    by simp
  then have "only_OMEM_from (may_refuse put) (Inr (DZN_MAP_OMEM, m'))"
    using assms(3) by (rule rehash_loop_status)
  with assms(2) show False by simp
qed

lemma never_refuses:
  assumes "never_NULL cfg"
  shows "\<not> may_refuse (dzn_map_put depth cfg)"
proof (induction depth)
  case 0
  show ?case by (simp add: may_refuse_def)
next
  case (Suc depth)
  have "rehash_with (dzn_map_put depth cfg) cfg m \<noteq> Some (Inr (DZN_MAP_OMEM, m'))" for m m'
    using assms Suc.IH dzn_map_put_status by (rule rehash_with_status)
  then show ?case
    by (auto simp: may_refuse_def bind_run_Inr_iff dest!: put_loop_status)
qed

lemma put_never_refused:
  assumes "never_NULL cfg" and "map_ok m" and "short_key key"
    and run: "dzn_map_put depth cfg m key v = Some (Inr (status, m'))"
  shows "status = DZN_MAP_OK" and "map_ok m'" and "map_abs m' = (map_abs m)(key \<mapsto> v)"
  using put_contractD [OF dzn_map_put_contract assms(2,3) run] never_refuses [OF assms(1), of depth] run
  by (auto simp: may_refuse_def)

lemma rehash_with_granted:
  assumes "\<forall>n. calloc_ok cfg n ELEMENT_SIZE"
  shows "rehash_with put cfg m = rehash_loop put m 0 (fresh_map (2 * table_size m))"
  using assms by (simp add: rehash_with_def dzn_calloc_def fresh_map_def lift_run_def)

text \<open>An initialised map is a well-formed empty table of 256 slots; without memory a checked
  build stops at an assertion, and an unchecked one keeps a NULL table, which the first get
  dereferences.\<close>

theorem map_init_empty:
  assumes "short_key key"
  shows "(calloc_ok cfg 256 24 \<longrightarrow> dzn_map_init cfg = Inr (fresh_map 256) \<and>
      map_ok (fresh_map 256) \<and> map_abs (fresh_map 256) = Map.empty) \<and>
    (\<not> calloc_ok cfg 256 24 \<longrightarrow> \<not> ndebug cfg \<longrightarrow> dzn_map_init cfg = Inl (AssertFailed ''0'')) \<and>
    (\<not> calloc_ok cfg 256 24 \<longrightarrow> ndebug cfg \<longrightarrow>
       (\<exists>m. dzn_map_init cfg = Inr m \<and> dzn_map_get m key = fail_run NullDeref))"
proof (intro conjI impI)
  let ?n = "256 :: 64 word"
  have n: "0 < unat ?n" "unat ?n \<le> 131072" by simp_all
  assume "calloc_ok cfg 256 24"
  then show "dzn_map_init cfg = Inr (fresh_map 256)"
    by (simp add: dzn_map_init_def dzn_calloc_def INITIAL_SIZE_def ELEMENT_SIZE_def fresh_map_def)
  show "map_ok (fresh_map 256)" using n by (rule fresh_map_ok)
  show "map_abs (fresh_map 256) = Map.empty" using n by (rule fresh_map_abs)
next
  assume "\<not> calloc_ok cfg 256 24" and "\<not> ndebug cfg"
  then show "dzn_map_init cfg = Inl (AssertFailed ''0'')"
    by (simp add: dzn_map_init_def dzn_calloc_def INITIAL_SIZE_def ELEMENT_SIZE_def)
next
  assume "\<not> calloc_ok cfg 256 24" and "ndebug cfg"
  then have "dzn_map_init cfg = Inr \<lparr>table_size = 256, map_size = 0, map_data = None\<rparr>"
    by (simp add: dzn_map_init_def dzn_calloc_def INITIAL_SIZE_def ELEMENT_SIZE_def)
  moreover have "dzn_map_get \<lparr>table_size = 256, map_size = 0, map_data = None\<rparr> key = fail_run NullDeref"
    using dzn_map_hash_int_short [OF assms, of 256]
    by (simp add: dzn_map_get_def)
      (subst get_probe.simps, simp add: MAX_CHAIN_LENGTH_def element_def)
  ultimately show "\<exists>m. dzn_map_init cfg = Inr m \<and> dzn_map_get m key = fail_run NullDeref" by blast
qed

theorem map_init_empty_witness:
  "dzn_map_init \<lparr>ndebug = False, calloc_ok = (\<lambda>n sz. False)\<rparr> = Inl (AssertFailed ''0'') \<and>
   (\<exists>m. dzn_map_init \<lparr>ndebug = True, calloc_ok = (\<lambda>n sz. False)\<rparr> = Inr m \<and>
      dzn_map_get m ''log'' = fail_run NullDeref)"
  using map_init_empty [of "''log''" "\<lparr>ndebug = False, calloc_ok = (\<lambda>n sz. False)\<rparr>"]
    map_init_empty [of "''log''" "\<lparr>ndebug = True, calloc_ok = (\<lambda>n sz. False)\<rparr>"]
  by simp

text \<open>C37: get returns what the table represents: \<open>DZN_MAP_OK\<close> and the stored pointer, or
  \<open>DZN_MAP_MISSING\<close> and NULL.\<close>

theorem map_get_reads:
  assumes "map_wf m" and "short_key key"
  shows "dzn_map_get m key = return_run
    (case map_abs m key of None \<Rightarrow> (DZN_MAP_MISSING, NULL) | Some v \<Rightarrow> (DZN_MAP_OK, v))"
  using assms by (rule dzn_map_get_abs)

theorem map_get_reads_witness:
  "dzn_map_get map_kx ''x'' = return_run (DZN_MAP_OK, 2) \<and>
   dzn_map_get map_kx ''log'' = return_run
    (case map_abs map_kx ''log'' of None \<Rightarrow> (DZN_MAP_MISSING, NULL) | Some v \<Rightarrow> (DZN_MAP_OK, v))"
proof -
  have "map_abs map_kx ''x'' = Some 2"
    unfolding map_kx_def using map_abs_place [OF map_okD [OF map_ok_k] room_for_x] by simp
  then show ?thesis
    using map_get_reads [OF map_okD [OF map_ok_kx], of "''x''"]
      map_get_reads [OF map_okD [OF map_ok_kx], of "''log''"]
    by simp
qed

text \<open>C28: whatever doublings it takes, a put that returns \<open>DZN_MAP_OK\<close> leaves a well-formed table that
  represents the old map with the key updated, and the only other status is \<open>DZN_MAP_OMEM\<close>.\<close>

theorem map_put_updates:
  assumes "map_ok m" and "short_key key"
    and "dzn_map_put depth cfg m key v = Some (Inr (status, m'))"
  shows "status = DZN_MAP_OK \<and> map_ok m' \<and> map_abs m' = (map_abs m)(key \<mapsto> v) \<and>
      slots_of m \<le> slots_of m' \<or> status = DZN_MAP_OMEM"
  using put_contractD [OF dzn_map_put_contract assms] .

theorem map_put_updates_witness:
  "\<exists>m'. dzn_map_put 1 \<lparr>ndebug = True, calloc_ok = (\<lambda>n sz. False)\<rparr> map_k ''x'' 2 = Some (Inr (DZN_MAP_OK, m')) \<and>
     map_ok m' \<and> map_abs m' = (map_abs map_k)(''x'' \<mapsto> 2)"
proof -
  have run: "dzn_map_put 1 \<lparr>ndebug = True, calloc_ok = (\<lambda>n sz. False)\<rparr> map_k ''x'' 2 =
      Some (Inr (DZN_MAP_OK, map_kx))"
    unfolding map_kx_def One_nat_def return_run_def [symmetric]
    by (rule put_here [OF map_okD [OF map_ok_k] _ not_full_kx(1) room_for_x]) simp
  from map_put_updates [OF map_ok_k _ run] run show ?thesis by simp
qed

text \<open>C29: a put returns, at nesting depth 17 at most, when the allocator refuses tables of more
  than 65536 elements.\<close>

theorem map_put_terminates:
  assumes "refuses_large cfg" and "map_ok m" and "short_key key"
  shows "returns (dzn_map_put 17 cfg m key v)"
proof -
  have "0 < slots_of m" using map_wfD(2) [OF map_okD [OF assms(2)]] .
  then have "32768 < slots_of m * 2 ^ 16" by simp
  then show ?thesis
    using dzn_map_put_returns [OF assms(1), of 16] assms(2,3) by (simp add: returns_above_def)
qed

theorem map_put_terminates_witness:
  "returns (dzn_map_put 17 \<lparr>ndebug = True, calloc_ok = (\<lambda>n sz. n \<le> 65536)\<rparr> map_kx ''log'' 3)"
  by (rule map_put_terminates) (simp_all add: refuses_large_def map_ok_kx)

text \<open>While the table is below its load limit and one of the key's eight slots is free or holds
  the key, a put takes place in the table: no growth, status \<open>DZN_MAP_OK\<close>, size one more even when
  the key was there.\<close>

lemma map_put_in_place:
  assumes "map_ok m" and "short_key key" and "\<not> at_capacity m"
    and "find (usable m key) (probe m key) = Some s"
  shows "dzn_map_put (Suc depth) cfg m key v = return_run (DZN_MAP_OK, place s key v m) \<and>
    map_ok (place s key v m) \<and> map_abs (place s key v m) = (map_abs m)(key \<mapsto> v) \<and>
    unat (map_size (place s key v m)) = Suc (unat (map_size m))"
  using put_here [OF map_okD [OF assms(1)] assms(2-4)] map_ok_place [OF assms(1,2,4,3)]
    map_abs_place [OF map_okD [OF assms(1)] assms(4)] size_below_half(2) [OF assms(3)]
  by simp

lemma map_put_in_place_witness:
  "dzn_map_put (Suc 0) \<lparr>ndebug = False, calloc_ok = (\<lambda>n sz. False)\<rparr> map_k ''x'' 2 =
     return_run (DZN_MAP_OK, map_kx) \<and>
   map_abs map_kx = (map_abs map_k)(''x'' \<mapsto> 2)"
  using map_put_in_place [OF map_ok_k _ not_full_kx(1) room_for_x, of 0 _ 2]
  by (simp only: map_kx_def short_examples simp_thms)

text \<open>C38: remove takes the key out of the map: from a table in which every key has one entry it
  leaves the other keys as they are, and it reports \<open>DZN_MAP_MISSING\<close> for a key that is not there.\<close>

theorem map_remove_restricts:
  assumes "map_wf m" and "unique_keys m" and "short_key key"
  shows "if map_abs m key = None then dzn_map_remove m key = return_run (DZN_MAP_MISSING, m)
    else \<exists>m'. dzn_map_remove m key = return_run (DZN_MAP_OK, m') \<and> map_wf m' \<and> unique_keys m' \<and>
           map_abs m' = (map_abs m)(key := None) \<and> map_size m' = map_size m - 1"
proof (cases "find (holds m key) (probe m key)")
  case None
  then show ?thesis using dzn_map_remove_find [OF assms(1,3)] by (simp add: map_abs_def)
next
  case (Some s)
  then have s: "holds m key s" "s < slots_of m"
    using find_in_set [OF Some] probe_bound [OF assms(1)] by auto
  have "unique_keys (erase s m)"
    using assms(2) unfolding unique_keys_def by (auto simp: holds_erase [OF assms(1) s(2)])
  then show ?thesis
    using Some dzn_map_remove_find [OF assms(1,3)] map_wf_erase [OF assms(1)]
      map_abs_erase [OF assms(1,2) s]
    by (simp add: map_abs_def)
qed

theorem map_remove_restricts_witness:
  "\<exists>m'. dzn_map_remove map_kx ''x'' = return_run (DZN_MAP_OK, m') \<and> map_abs m' ''x'' = None"
proof -
  have "map_abs map_kx ''x'' = Some 2"
    unfolding map_kx_def using map_abs_place [OF map_okD [OF map_ok_k] room_for_x] by simp
  then show ?thesis
    using map_remove_restricts [OF map_okD [OF map_ok_kx] map_ok_unique [OF map_ok_kx], of "''x''"]
    by auto
qed

text \<open>A remove can bring a stale value back.  If \<open>a\<close> sits in a slot that the probe for \<open>b\<close>
  passes before it reaches \<open>b\<close>, then after removing \<open>a\<close> a put of \<open>b\<close> stores a second entry in the
  hole; removing \<open>b\<close> once more reports success, and get still finds the value from before the put.\<close>

theorem map_remove_resurrects:
  assumes "map_ok m" and "short_key a" and "short_key b" and "a \<noteq> b"
    and "s < slots_of m" and "holds m a s" and "t < slots_of m" and "holds m b t"
    and "s \<in> set (takeWhile (\<lambda>i. i \<noteq> t) (probe m b))" and "\<not> at_capacity m"
  shows "\<exists>m1 m2 m3. dzn_map_remove m a = return_run (DZN_MAP_OK, m1) \<and>
    dzn_map_put 1 cfg m1 b v = return_run (DZN_MAP_OK, m2) \<and>
    dzn_map_get m2 b = return_run (DZN_MAP_OK, v) \<and>
    dzn_map_remove m2 b = return_run (DZN_MAP_OK, m3) \<and>
    dzn_map_get m3 b = return_run (DZN_MAP_OK, elt_data (cells m ! t))"
proof -
  define m1 m2 m3 where m123: "m1 = erase s m" "m2 = place s b v m1" "m3 = erase s m2"
  note wf = map_okD [OF assms(1)]
  have wf1: "map_wf m1" and wf2: "map_wf m2" and wf3: "map_wf m3"
    using wf by (simp_all add: m123 map_wf_erase map_wf_place)
  have slots: "s < slots_of m1" "s < slots_of m2" using assms(5) by (simp_all add: m123)
  have "s \<noteq> t" using assms(4,6,8) by (auto simp: holds_def)
  have at_a: "find (holds m a) (probe m a) = Some s" and at_b: "find (holds m b) (probe m b) = Some t"
    and stop_b: "find (usable m b) (probe m b) = Some t"
    using map_ok_find [OF assms(1)] assms(5-8) by auto
  have probes: "probe m1 b = probe m b" "probe m2 b = probe m b" by (simp_all add: m123)
  have "usable m1 b i \<longleftrightarrow> i = s \<or> usable m b i" for i
    unfolding m123 by (rule usable_erase [OF wf assms(5)])
  then have "usable m1 b = (\<lambda>i. i = s \<or> usable m b i)" by blast
  then have "find (usable m1 b) (probe m1 b) = Some s"
    using find_earlier [OF stop_b assms(9)] by (simp add: probes)
  moreover have "\<not> at_capacity m1"
    using at_capacity_erase [OF assms(1,10,5,6)] by (simp add: m123)
  ultimately have at1: "find (usable m1 b) (probe m1 b) = Some s" "\<not> at_capacity m1" by blast+
  have put: "dzn_map_put 1 cfg m1 b v = return_run (DZN_MAP_OK, m2)"
    unfolding One_nat_def m123(2) by (rule put_here [OF wf1 assms(3) at1(2,1)])
  have abs2: "map_abs m2 b = Some v"
    using map_abs_place [OF wf1 at1(1)] by (simp add: m123(2))
  have h2: "holds m2 b i \<longleftrightarrow> i = s \<or> holds m b i" for i
    using holds_place [OF wf1 slots(1), of b v b i] holds_erase [OF wf assms(5), of b i]
    by (simp add: m123(1,2))
  then have "holds m2 b = (\<lambda>i. i = s \<or> holds m b i)" by blast
  then have "find (holds m2 b) (probe m2 b) = Some s"
    using find_earlier [OF at_b assms(9)] by (simp add: probes)
  then have remove: "dzn_map_remove m2 b = return_run (DZN_MAP_OK, m3)"
    using dzn_map_remove_find [OF wf2 assms(3)] by (simp add: m123(3))
  have h3: "holds m3 b i \<longleftrightarrow> i \<noteq> s \<and> holds m b i" for i
    using holds_erase [OF wf2 slots(2), of b i] h2 [of i] \<open>s \<noteq> t\<close> by (auto simp: m123(3))
  have "find (holds m3 b) (probe m b) = Some t"
    using \<open>s \<noteq> t\<close> assms(8) by (intro find_weaken [OF at_b]) (simp_all add: h3)
  then have "map_abs m3 b = Some (elt_data (cells m ! t))"
    using \<open>s \<noteq> t\<close> by (simp add: map_abs_def m123)
  then show ?thesis
    using dzn_map_remove_find [OF wf assms(2)] at_a put abs2 remove
      dzn_map_get_abs [OF wf2 assms(3)] dzn_map_get_abs [OF wf3 assms(3)]
    by (intro exI [of _ m1] exI [of _ m2] exI [of _ m3]) (simp add: m123(1))
qed

theorem map_remove_resurrects_witness:
  "\<exists>m1 m2 m3. dzn_map_remove map_kx ''k'' = return_run (DZN_MAP_OK, m1) \<and>
    dzn_map_put 1 \<lparr>ndebug = False, calloc_ok = (\<lambda>n sz. False)\<rparr> m1 ''x'' 5 = return_run (DZN_MAP_OK, m2) \<and>
    dzn_map_get m2 ''x'' = return_run (DZN_MAP_OK, 5) \<and>
    dzn_map_remove m2 ''x'' = return_run (DZN_MAP_OK, m3) \<and>
    dzn_map_get m3 ''x'' = return_run (DZN_MAP_OK, 2)"
proof -
  have "holds map_kx ''k'' 39" "holds map_kx ''x'' 40" "elt_data (cells map_kx ! 40) = 2"
    "39 < slots_of map_kx" "40 < slots_of map_kx"
    by (simp_all add: map_kx_def map_k_def holds_def)
  moreover have "39 \<in> set (takeWhile (\<lambda>i. i \<noteq> 40) (probe map_kx ''x''))"
    by (simp add: map_kx_def map_k_def homes_kx MAX_CHAIN_LENGTH_def)
  ultimately show ?thesis
    using map_remove_resurrects [OF map_ok_kx _ _ _ _ _ _ _ _ not_full_kx(2), of "''k''" "''x''" 39 40 _ 5]
    by simp
qed

text \<open>With memory to spare, a table of 65536 slots or more that needs to grow never comes back:
  the \<open>uint16_t\<close> counter of the rehash wraps before it reaches the old size.\<close>

lemma map_growth_diverges:
  assumes "\<forall>n. calloc_ok cfg n ELEMENT_SIZE" and "65536 \<le> slots_of m" and "at_capacity m"
  shows "dzn_map_put depth cfg m key v \<noteq> Some (Inr r)"
proof
  assume run: "dzn_map_put depth cfg m key v = Some (Inr r)"
  then obtain d where "depth = Suc d" by (cases depth) auto
  with run assms(3)
  have loop: "put_loop (rehash_with (dzn_map_put d cfg) cfg) m key v DZN_MAP_FULL = Some (Inr r)"
    by (simp add: dzn_map_hash_def at_capacity_def)
  from loop obtain st m1 where "rehash_with (dzn_map_put d cfg) cfg m = Some (Inr (st, m1))"
    by (subst (asm) put_loop.simps) (auto simp: bind_run_Inr_iff)
  then have again: "rehash_loop (dzn_map_put d cfg) m 0 (fresh_map (2 * table_size m)) = Some (Inr (st, m1))"
    by (simp add: rehash_with_granted [OF assms(1)])
  show False
    using rehash_loop_large [OF again assms(2)] never_refuses [of cfg] assms(1)
      rehash_loop_status [OF again dzn_map_put_status] by (auto simp: never_NULL_def)
qed

lemma map_growth_diverges_witness:
  "dzn_map_put 3 \<lparr>ndebug = False, calloc_ok = (\<lambda>n sz. True)\<rparr>
     \<lparr>table_size = 65536, map_size = 32768, map_data = Some (replicate 65536 blank_element)\<rparr> ''log'' 1
   \<noteq> Some (Inr (DZN_MAP_OK, fresh_map 131072))"
  by (rule map_growth_diverges) (simp_all add: at_capacity_def)

end
