(* ===== verification/Map_Iteration.thy ===== *)
theory Map_Iteration
  imports Map_Laws
begin

text \<open>
  Visiting the entries of a map, \<open>dzn_map_iterate\<close>: on a table below 65536 slots whose \<open>uint8_t\<close>
  length is not zero the loop calls the function on every entry, in slot order, until one call
  reports something else than \<open>DZN_MAP_OK\<close>.  And the two ways it goes wrong: the length is the size
  modulo 256, and the \<open>uint16_t\<close> counter never reaches the end of a larger table.
\<close>

fun visit_all :: "(dzn_map_element \<Rightarrow> 's \<Rightarrow> (int \<times> 's) run) \<Rightarrow> dzn_map_element list \<Rightarrow> 's \<Rightarrow> (int \<times> 's) run"
where
  "visit_all f [] item = return_run (DZN_MAP_OK, item)"
| "visit_all f (e # es) item = bind_run (f e item) (\<lambda>r.
     if fst r \<noteq> DZN_MAP_OK then return_run r else visit_all f es (snd r))"

definition entries :: "dzn_map \<Rightarrow> dzn_map_element list" where
  "entries m = filter elt_in_use (cells m)"

lemma iterate_loop_visits:
  assumes wf: "map_wf m" and small: "slots_of m < 65536"
    and "unat i \<le> slots_of m" and "unat i < slots_of m \<or> response = Some DZN_MAP_OK"
  shows "iterate_loop m f i response item =
    visit_all f (filter elt_in_use (drop (unat i) (cells m))) item"
  using assms(3,4)
proof (induction "slots_of m - unat i" arbitrary: i response item rule: less_induct)
  case less
  show ?case
  proof (cases "ucast i < table_size m")
    case False
    then have "unat i = slots_of m"
      using less.prems(1) small by (simp add: word_less_nat_alt unsigned_ucast_eq take_bit_nat_eq_self)
    with False less.prems(2) show ?thesis
      by (subst iterate_loop.simps) (simp add: map_wfD(1) [OF wf])
  next
    case True
    note at = unat_index_Suc [OF small True]
    define resp where "resp = (if ucast i = table_size m - 1 then Some DZN_MAP_OK else response)"
    have "ucast i = table_size m - 1" if "Suc (unat i) = slots_of m"
    proof -
      have "unat (ucast i + 1 :: 64 word) = slots_of m"
        using that small at(1) by (simp add: unat_word_ariths(1) unsigned_ucast_eq take_bit_nat_eq_self)
      then have "ucast i + 1 = table_size m" by (simp only: word_unat_eq_iff)
      then show ?thesis by (metis add_diff_cancel)
    qed
    then have "Suc (unat i) < slots_of m \<or> resp = Some DZN_MAP_OK"
      using at(1) unfolding resp_def by (cases "Suc (unat i) = slots_of m") simp_all
    with at have rest: "iterate_loop m f (i + 1) resp item' =
        visit_all f (filter elt_in_use (drop (Suc (unat i)) (cells m))) item'" for item'
      by (subst less.hyps) simp_all
    have "iterate_loop m f i response item =
        bind_run (if elt_in_use (cells m ! unat i) then f (cells m ! unat i) item
                  else return_run (DZN_MAP_OK, item)) (\<lambda>r.
          if fst r \<noteq> DZN_MAP_OK then return_run r else iterate_loop m f (i + 1) resp (snd r))"
      by (subst iterate_loop.simps) (simp only: True if_True element_wf [OF wf at(1)] run_inject
          bind_run_simps resp_def)
    moreover have "drop (unat i) (cells m) = cells m ! unat i # drop (Suc (unat i)) (cells m)"
      using at(1) by (simp add: Cons_nth_drop_Suc map_wfD(1) [OF wf])
    ultimately show ?thesis by (simp add: rest cong: if_cong)
  qed
qed

lemma iterate_loop_never_ends:
  assumes "iterate_loop m f i response item = Some r" and "65536 \<le> slots_of m"
    and f: "\<And>e item. \<exists>item'. f e item = return_run (DZN_MAP_OK, item')" and "map_wf m"
  shows False
proof -
  have "m = m \<longrightarrow> f = f \<longrightarrow> False"
  proof (rule iterate_loop.raw_induct [where P = "\<lambda>m' f' i response item r. m' = m \<longrightarrow> f' = f \<longrightarrow> False",
      OF _ assms(1)], intro impI, hypsubst)
    fix loop response item r and i :: "16 word"
    assume IH: "\<And>m' f' i response item r. loop m' f' i response item = Some r \<Longrightarrow> m' = m \<longrightarrow> f' = f \<longrightarrow> False"
      and "(if ucast i < table_size m
        then bind_run (lift_run (element m (unat i))) (\<lambda>e.
          bind_run (if elt_in_use e then f e item else return_run (DZN_MAP_OK, item)) (\<lambda>r.
            if fst r \<noteq> DZN_MAP_OK then return_run r
            else loop m f (i + 1) (if ucast i = table_size m - 1 then Some DZN_MAP_OK else response) (snd r)))
        else case response of None \<Rightarrow> fail_run UninitRead | Some r \<Rightarrow> return_run (r, item)) = Some r"
    moreover have "unat i < slots_of m"
      by (rule index_bound [OF assms(2)])
    moreover obtain item' where
      "(if elt_in_use (cells m ! unat i) then f (cells m ! unat i) item else return_run (DZN_MAP_OK, item)) =
         return_run (DZN_MAP_OK, item')"
      using f [of "cells m ! unat i" item] by (cases "elt_in_use (cells m ! unat i)") auto
    ultimately have "loop m f (i + 1)
        (if ucast i = table_size m - 1 then Some DZN_MAP_OK else response) item' = Some r"
      using index_below [OF assms(2), of i] element_wf [OF assms(4)] by simp
    from IH [OF this] show False by simp
  qed
  then show False by simp
qed

lemma map_iterate_is_visit:
  assumes "map_wf m" and "slots_of m < 65536" and "dzn_map_length (Some m) \<noteq> 0"
  shows "dzn_map_iterate m f item = visit_all f (entries m) item"
  using assms iterate_loop_visits [OF assms(1,2), of 0] map_wfD(2) [OF assms(1)]
  by (simp add: dzn_map_iterate_def entries_def word_le_0_iff)

lemma iterate_length_0:
  assumes "unat (map_size m) mod 256 = 0"
  shows "dzn_map_length (Some m) = 0"
    and "dzn_map_iterate m f item = return_run (DZN_MAP_MISSING, item)"
proof -
  have "unat (ucast (map_size m) :: 8 word) = 0"
    using assms by (simp add: unsigned_ucast_eq take_bit_eq_mod)
  then show "dzn_map_length (Some m) = 0" by (simp add: dzn_map_length_def unat_eq_zero)
  then show "dzn_map_iterate m f item = return_run (DZN_MAP_MISSING, item)"
    by (simp add: dzn_map_iterate_def)
qed

text \<open>On a table below 65536 slots with a length that is not zero, iterate calls the function on
  exactly the entries, in slot order, and stops at the first status that is not \<open>DZN_MAP_OK\<close>.\<close>

theorem map_iterate_visits:
  assumes "map_wf m" and "slots_of m < 65536" and "dzn_map_length (Some m) \<noteq> 0"
  shows "dzn_map_iterate m f item = visit_all f (entries m) item"
  using assms by (rule map_iterate_is_visit)

theorem map_iterate_visits_witness:
  "dzn_map_iterate map_kx (\<lambda>e n. return_run (DZN_MAP_OK, n + elt_data e)) 0 =
     visit_all (\<lambda>e n. return_run (DZN_MAP_OK, n + elt_data e)) (entries map_kx) 0"
  by (rule map_iterate_visits [OF map_okD [OF map_ok_kx]])
    (simp_all add: map_kx_def map_k_def dzn_map_length_def)

text \<open>\<open>dzn_map_length\<close> is the size modulo 256, so a map of 256 entries counts as empty: iterate
  reports \<open>DZN_MAP_MISSING\<close> and calls the function on none of them.\<close>

theorem map_iterate_misses_256:
  assumes "unat (map_size m) mod 256 = 0"
  shows "dzn_map_length (Some m) = 0 \<and>
    dzn_map_iterate m f item = return_run (DZN_MAP_MISSING, item)"
  using iterate_length_0(1) [OF assms] iterate_length_0(2) [OF assms, of f item] by blast

theorem map_iterate_misses_256_witness:
  "dzn_map_iterate \<lparr>table_size = 512, map_size = 256, map_data = Some (replicate 512 blank_element)\<rparr>
     (\<lambda>e n. return_run (DZN_MAP_OK, n + 1)) (0 :: nat) = return_run (DZN_MAP_MISSING, 0)"
  using map_iterate_misses_256 [of "\<lparr>table_size = 512, map_size = 256,
      map_data = Some (replicate 512 blank_element)\<rparr>" "\<lambda>e n. return_run (DZN_MAP_OK, n + 1)" "0 :: nat"]
  by simp

text \<open>On a table of 65536 slots or more, iterating a function that always succeeds never ends.\<close>

lemma map_iterate_diverges:
  assumes "map_wf m" and "65536 \<le> slots_of m" and "dzn_map_length (Some m) \<noteq> 0"
    and "\<And>e item. \<exists>item'. f e item = return_run (DZN_MAP_OK, item')"
  shows "dzn_map_iterate m f item = None"
  using iterate_loop_never_ends [OF _ assms(2,4,1)] assms(3)
  by (cases "iterate_loop m f 0 None item") (auto simp: dzn_map_iterate_def word_le_0_iff)

lemma map_iterate_diverges_witness:
  "dzn_map_iterate (place 0 ''k'' 1 (fresh_map 65536)) (\<lambda>e n. return_run (DZN_MAP_OK, n + 1)) (0 :: nat) = None"
  by (rule map_iterate_diverges) (simp_all add: map_wf_place fresh_map_wf dzn_map_length_def)

end
