(* ===== verification/Locator.thy ===== *)
theory Locator
  imports Map_Iteration
begin

text \<open>
  The service locator, \<open>runtime/c/locator.c\<close>: a record of the handler for illegal events and a map
  from service names to pointers.  \<open>dzn_locator_set\<close> and \<open>dzn_locator_clone\<close> ignore the status of the
  map operations they call; the clone is allocated zeroed and its handler is never assigned.

  The function pointer \<open>illegal\<close> is \<open>None\<close> when NULL.  The build without \<open>DZN_LOCATOR_SERVICES\<close> has
  no map and its clone is the locator itself.
\<close>

datatype illegal_handler = Runtime_illegal_handler | User_handler nat

record dzn_locator =
  loc_illegal :: "illegal_handler option"
  loc_services :: dzn_map

definition LOCATOR_SIZE :: nat where "LOCATOR_SIZE = 32"

text \<open>What \<open>calloc\<close> leaves in a locator.\<close>

definition zero_locator :: dzn_locator where
  "zero_locator =
     \<lparr>loc_illegal = None, loc_services = \<lparr>table_size = 0, map_size = 0, map_data = None\<rparr>\<rparr>"

definition dzn_locator_init :: "mem_config \<Rightarrow> dzn_locator \<Rightarrow> dzn_locator result" where
  "dzn_locator_init cfg self =
     seq (dzn_map_init cfg) (\<lambda>services.
       Inr (self\<lparr>loc_illegal := Some Runtime_illegal_handler, loc_services := services\<rparr>))"

definition dzn_map_copy :: "nat \<Rightarrow> mem_config \<Rightarrow> dzn_map_element \<Rightarrow> dzn_map \<Rightarrow> (int \<times> dzn_map) run" where
  "dzn_map_copy depth cfg elt dst =
     (case elt_key elt of
        None \<Rightarrow> fail_run NullDeref
      | Some key \<Rightarrow> dzn_map_put depth cfg dst key (elt_data elt))"

definition dzn_locator_get :: "dzn_locator \<Rightarrow> string \<Rightarrow> addr run" where
  "dzn_locator_get self key =
     bind_run (dzn_map_get (loc_services self) key) (\<lambda>r. return_run (snd r))"

definition dzn_locator_set :: "nat \<Rightarrow> mem_config \<Rightarrow> dzn_locator \<Rightarrow> string \<Rightarrow> addr \<Rightarrow> dzn_locator run" where
  "dzn_locator_set depth cfg self key value =
     bind_run (dzn_map_put depth cfg (loc_services self) key value)
       (\<lambda>r. return_run (self\<lparr>loc_services := snd r\<rparr>))"

definition dzn_locator_clone :: "nat \<Rightarrow> mem_config \<Rightarrow> dzn_locator \<Rightarrow> dzn_locator run" where
  "dzn_locator_clone depth cfg self =
     bind_run (lift_run (dzn_malloc cfg LOCATOR_SIZE zero_locator)) (\<lambda>p. case p of
       None \<Rightarrow> fail_run NullDeref
     | Some clone \<Rightarrow>
         bind_run (lift_run (dzn_map_init cfg)) (\<lambda>services.
         bind_run (dzn_map_iterate (loc_services self) (dzn_map_copy depth cfg) services) (\<lambda>r.
           return_run (clone\<lparr>loc_services := snd r\<rparr>))))"

text \<open>Services a locator provides: the pointers that are not NULL.\<close>

abbreviation services_of :: "dzn_locator \<Rightarrow> string \<Rightarrow> addr option" where
  "services_of self \<equiv> map_abs (loc_services self)"

lemma dzn_locator_get_abs:
  assumes "map_wf (loc_services self)" and "short_key key"
  shows "dzn_locator_get self key =
    return_run (case services_of self key of None \<Rightarrow> NULL | Some p \<Rightarrow> p)"
  using dzn_map_get_abs [OF assms] by (simp add: dzn_locator_get_def split: option.split)

lemma visit_copies:
  assumes cfg: "never_NULL cfg" and old: "map_ok old"
    and "map_ok m" and "map_abs m = moved old n" and "n \<le> slots_of old"
    and "visit_all (dzn_map_copy depth cfg) (filter elt_in_use (drop n (cells old))) m = Some (Inr (status, m'))"
  shows "map_ok m' \<and> map_abs m' = map_abs old"
  using assms(3-)
proof (induction "slots_of old - n" arbitrary: n m)
  case 0
  then have "n = slots_of old" by simp
  with 0 show ?case
    using moved_all [OF old] by (simp add: map_wfD(1) [OF map_okD [OF old]] return_run_def)
next
  case (Suc d)
  then have n: "n < slots_of old" by simp
  then have split: "drop n (cells old) = cells old ! n # drop (Suc n) (cells old)"
    by (simp add: Cons_nth_drop_Suc map_wfD(1) [OF map_okD [OF old]])
  show ?case
  proof (cases "elt_in_use (cells old ! n)")
    case False
    with Suc.prems split show ?thesis
      using Suc.hyps(1) [of "Suc n" m] Suc.hyps(2) n by (simp add: moved_Suc_free)
  next
    case True
    then obtain key where key: "elt_key (cells old ! n) = Some key"
      using map_okD [OF old] n map_wfD(1) [OF map_okD [OF old]]
      by (auto simp: map_wf_def dest!: bspec [OF _ nth_mem])
    with True have held: "holds old key n" by (simp add: holds_def)
    from Suc.prems(4) True split key obtain st m1
      where put: "dzn_map_put depth cfg m key (elt_data (cells old ! n)) = Some (Inr (st, m1))"
        and rest: "(if st \<noteq> DZN_MAP_OK then return_run (st, m1)
          else visit_all (dzn_map_copy depth cfg) (filter elt_in_use (drop (Suc n) (cells old))) m1) =
          Some (Inr (status, m'))"
      by (auto simp: dzn_map_copy_def bind_run_Inr_iff simp del: dzn_map_put.simps cong: if_cong)
    note m1 = put_never_refused [OF cfg Suc.prems(1) map_ok_holds(2) [OF old n held] put]
    show ?thesis
      using Suc.hyps(1) [of "Suc n" m1] Suc.hyps(2) n m1 rest Suc.prems(2)
        moved_Suc_held [OF old n held]
      by simp
  qed
qed

section \<open>Examples\<close>

definition roomy :: mem_config where
  "roomy = \<lparr>ndebug = False, calloc_ok = (\<lambda>n sz. True)\<rparr>"

definition locator_k :: dzn_locator where
  "locator_k = \<lparr>loc_illegal = Some (User_handler 7), loc_services = map_k\<rparr>"

lemma locator_k_simps [simp]: "loc_services locator_k = map_k"
  by (simp add: locator_k_def)

lemma set_x: "dzn_locator_set 1 roomy locator_k ''x'' 2 = Some (Inr (locator_k\<lparr>loc_services := map_kx\<rparr>))"
proof -
  have "dzn_map_put 1 roomy map_k ''x'' 2 = return_run (DZN_MAP_OK, map_kx)"
    unfolding map_kx_def One_nat_def
    by (rule put_here [OF map_okD [OF map_ok_k] _ not_full_kx(1) room_for_x]) simp
  then show ?thesis by (simp add: dzn_locator_set_def)
qed

lemma init_roomy: "dzn_map_init roomy = Inr (fresh_map 256)"
  by (simp add: roomy_def dzn_map_init_def dzn_calloc_def INITIAL_SIZE_def fresh_map_def)

lemma malloc_roomy: "dzn_malloc roomy n z = Inr (Some z)"
  by (simp add: roomy_def dzn_malloc_def dzn_calloc_def)

lemma roomy_never_NULL [simp]: "never_NULL roomy"
  by (simp add: roomy_def never_NULL_def)

lemma entries_k: "entries map_k = [\<lparr>elt_key = Some ''k'', elt_in_use = True, elt_data = 1\<rparr>]"
  by (simp add: entries_def map_k_def upd_conv_take_nth_drop blank_element_def)

lemma length_k [simp]: "dzn_map_length (Some map_k) = 1"
  by (simp add: dzn_map_length_def map_k_def)

lemma slots_k [simp]: "slots_of map_k = 256"
  by (simp add: map_k_def)

lemma clone_k: "dzn_locator_clone 1 roomy locator_k = Some (Inr (zero_locator\<lparr>loc_services := map_k\<rparr>))"
proof -
  have "dzn_map_put 1 roomy (fresh_map 256) ''k'' 1 = return_run (DZN_MAP_OK, map_k)"
    unfolding map_k_def One_nat_def
    using put_here [OF map_okD [OF map_ok_256] _ not_full_fresh room_in_fresh, of "''k''" 0 roomy 1]
    by (simp only: homes_kx short_examples simp_thms One_nat_def)
  moreover have "dzn_map_iterate map_k (dzn_map_copy 1 roomy) (fresh_map 256) =
      visit_all (dzn_map_copy 1 roomy) (entries map_k) (fresh_map 256)"
    by (rule map_iterate_is_visit [OF map_okD [OF map_ok_k]]) simp_all
  ultimately show ?thesis
    by (simp add: dzn_locator_clone_def malloc_roomy init_roomy entries_k dzn_map_copy_def
        del: dzn_map_put.simps)
qed

text \<open>After \<open>dzn_locator_set\<close> the service is found under its name, every other name finds what
  it found before, and the handler for illegal events is untouched.\<close>

theorem locator_get_after_set:
  assumes "never_NULL cfg" and "map_ok (loc_services self)" and "short_key key" and "short_key key'"
    and "dzn_locator_set depth cfg self key p = Some (Inr self')"
  shows "map_ok (loc_services self') \<and> loc_illegal self' = loc_illegal self \<and>
    dzn_locator_get self' key' = (if key' = key then return_run p else dzn_locator_get self key')"
proof -
  from assms(5) obtain st m where put: "dzn_map_put depth cfg (loc_services self) key p = Some (Inr (st, m))"
    and self': "self' = self\<lparr>loc_services := m\<rparr>"
    by (auto simp: dzn_locator_set_def bind_run_Inr_iff return_run_def)
  note m = put_never_refused [OF assms(1-3) put]
  show ?thesis
    using dzn_locator_get_abs [OF map_okD assms(4), of self'] dzn_locator_get_abs [OF map_okD assms(4), of self]
      m assms(2) by (simp add: self')
qed

theorem locator_get_after_set_witness:
  "dzn_locator_get (locator_k\<lparr>loc_services := map_kx\<rparr>) ''x'' = return_run 2 \<and>
   dzn_locator_get (locator_k\<lparr>loc_services := map_kx\<rparr>) ''log'' = dzn_locator_get locator_k ''log''"
  using locator_get_after_set [of roomy locator_k "''x''" "''x''", OF _ _ _ _ set_x]
    locator_get_after_set [of roomy locator_k "''x''" "''log''", OF _ _ _ _ set_x] map_ok_k
  by simp

lemma init_services:
  assumes "never_NULL cfg" and "dzn_map_init cfg = Inr m"
  shows "m = fresh_map 256"
  using assms
  by (auto simp: dzn_map_init_def dzn_calloc_def never_NULL_def INITIAL_SIZE_def fresh_map_def
      split: if_splits)

lemma clone_steps:
  assumes "never_NULL cfg" and "dzn_locator_clone depth cfg self = Some (Inr clone)"
  obtains status m where
    "dzn_map_iterate (loc_services self) (dzn_map_copy depth cfg) (fresh_map 256) = Some (Inr (status, m))"
    and "clone = zero_locator\<lparr>loc_services := m\<rparr>"
proof -
  from assms(2) obtain p where p: "dzn_malloc cfg LOCATOR_SIZE zero_locator = Inr p"
    and rest: "(case p of None \<Rightarrow> fail_run NullDeref
     | Some clone \<Rightarrow>
         bind_run (lift_run (dzn_map_init cfg)) (\<lambda>services.
         bind_run (dzn_map_iterate (loc_services self) (dzn_map_copy depth cfg) services) (\<lambda>r.
           return_run (clone\<lparr>loc_services := snd r\<rparr>)))) = Some (Inr clone)"
    unfolding dzn_locator_clone_def bind_run_Inr_iff by auto
  from p rest have "p = Some zero_locator"
    by (auto simp: dzn_malloc_def dzn_calloc_def fail_run_def split: option.splits if_splits)
  with rest obtain services r where "dzn_map_init cfg = Inr services"
    and r: "dzn_map_iterate (loc_services self) (dzn_map_copy depth cfg) services = Some (Inr r)"
      "clone = zero_locator\<lparr>loc_services := snd r\<rparr>"
    by (auto simp: bind_run_Inr_iff lift_run_def return_run_def)
  with init_services [OF assms(1)] that [of "fst r" "snd r"] show ?thesis by simp
qed

lemma map_abs_256: "map_abs (fresh_map 256) = Map.empty"
  by (rule fresh_map_abs) simp_all

text \<open>A clone provides the same services as the original, provided the original's length is not
  a multiple of 256 and its table is below 65536 slots; its handler for illegal events is NULL,
  whatever the original's is.\<close>

theorem locator_clone_copies:
  assumes "never_NULL cfg" and "map_ok (loc_services self)" and "slots_of (loc_services self) < 65536"
    and "dzn_map_length (Some (loc_services self)) \<noteq> 0"
    and "dzn_locator_clone depth cfg self = Some (Inr clone)"
  shows "services_of clone = services_of self \<and> map_ok (loc_services clone) \<and> loc_illegal clone = None"
proof -
  obtain status m where
    run: "dzn_map_iterate (loc_services self) (dzn_map_copy depth cfg) (fresh_map 256) = Some (Inr (status, m))"
    and clone: "clone = zero_locator\<lparr>loc_services := m\<rparr>"
    using clone_steps [OF assms(1,5)] .
  from run have "visit_all (dzn_map_copy depth cfg) (filter elt_in_use (drop 0 (cells (loc_services self))))
      (fresh_map 256) = Some (Inr (status, m))"
    by (simp add: map_iterate_is_visit [OF map_okD [OF assms(2)] assms(3,4)] entries_def)
  from visit_copies [OF assms(1,2) map_ok_256 _ _ this] map_abs_256 show ?thesis
    by (simp add: clone zero_locator_def)
qed

theorem locator_clone_copies_witness:
  "services_of (zero_locator\<lparr>loc_services := map_k\<rparr>) = services_of locator_k \<and>
   loc_illegal locator_k = Some (User_handler 7) \<and>
   loc_illegal (zero_locator\<lparr>loc_services := map_k\<rparr>) = None"
  using locator_clone_copies [of roomy locator_k, OF _ _ _ _ clone_k] map_ok_k
  by (simp add: locator_k_def)

text \<open>A locator with 256 services, or any positive multiple of 256, is cloned to one with none.\<close>

lemma locator_clone_drops_256:
  assumes "never_NULL cfg" and "unat (map_size (loc_services self)) mod 256 = 0"
    and "dzn_locator_clone depth cfg self = Some (Inr clone)" and "short_key key"
  shows "dzn_locator_get clone key = return_run NULL"
proof -
  obtain status m where
    run: "dzn_map_iterate (loc_services self) (dzn_map_copy depth cfg) (fresh_map 256) = Some (Inr (status, m))"
    and clone: "clone = zero_locator\<lparr>loc_services := m\<rparr>"
    using clone_steps [OF assms(1,3)] .
  from run have "m = fresh_map 256"
    using iterate_length_0(2) [OF assms(2), of "dzn_map_copy depth cfg" "fresh_map 256"] by simp
  then show ?thesis
    using dzn_locator_get_abs [of clone key] map_okD [OF map_ok_256] assms(4)
    by (simp add: clone map_abs_256)
qed

lemma locator_clone_drops_256_witness:
  "dzn_locator_get (zero_locator\<lparr>loc_services := fresh_map 256\<rparr>) ''log'' = return_run NULL"
proof -
  let ?self = "\<lparr>loc_illegal = None,
      loc_services = \<lparr>table_size = 512, map_size = 256, map_data = Some (replicate 512 blank_element)\<rparr>\<rparr>"
  have "dzn_locator_clone 1 roomy ?self = Some (Inr (zero_locator\<lparr>loc_services := fresh_map 256\<rparr>))"
    using iterate_length_0(2) [of "loc_services ?self" "dzn_map_copy 1 roomy" "fresh_map 256"]
    by (simp add: dzn_locator_clone_def malloc_roomy init_roomy)
  then show ?thesis
    using locator_clone_drops_256 [of roomy ?self 1 _ "''log''"] by simp
qed

end
