(* ===== verification/Trace_Text.thy ===== *)
theory Trace_Text
  imports Prelude
begin

text \<open>
  The text the runtime writes and reads, \<open>runtime/c/runtime.c\<close> lines 181 to 290: qualified instance
  names in 1024-byte buffers, the trace lines, and the conversions of the values events carry.

  A C string is its characters before the NUL; copying one into a buffer of \<open>n\<close> bytes overflows
  when it has \<open>n\<close> characters or more.  A trace function returns the line it prints on \<open>stderr\<close>.
  \<open>strtol0\<close> is \<open>strtol (s, &endptr, 0)\<close> of the C library on a host where \<open>long\<close> has 64 bits; it
  returns the value and whether any digit was read (\<open>endptr != s\<close>).
\<close>

section \<open>Qualified names\<close>

datatype dzn_meta = Dzn_meta (meta_name: string) (meta_parent: "dzn_meta option")

definition PATH_BUFFER :: nat where "PATH_BUFFER = 1024"

definition strcpy_path :: "string \<Rightarrow> string result" where
  "strcpy_path s = (if length s < PATH_BUFFER then Inr s else Inl BufferOverflow)"

definition qualify :: "string \<Rightarrow> string \<Rightarrow> string" where
  "qualify p name = (if p \<noteq> [] then name @ ''.'' @ p else name)"

fun dzn_runtime_path :: "dzn_meta option \<Rightarrow> string \<Rightarrow> string result" where
  "dzn_runtime_path None p =
     seq (strcpy_path ''<external>'') (\<lambda>buf. strcpy_path (qualify p buf))"
| "dzn_runtime_path (Some (Dzn_meta name parent)) p =
     seq (strcpy_path name) (\<lambda>buf.
     seq (strcpy_path (qualify p buf)) (\<lambda>p.
       case parent of None \<Rightarrow> Inr p | Some m \<Rightarrow> dzn_runtime_path (Some m) p))"

text \<open>The reference: an instance's names from the instance up to the root.\<close>

fun names_up :: "dzn_meta \<Rightarrow> string list" where
  "names_up (Dzn_meta name parent) =
     name # (case parent of None \<Rightarrow> [] | Some m \<Rightarrow> names_up m)"

definition full_name :: "dzn_meta \<Rightarrow> string \<Rightarrow> string" where
  "full_name m p = foldl qualify p (names_up m)"

section \<open>Trace lines\<close>

record dzn_port_meta =
  provides_name :: string
  provides_meta :: "dzn_meta option"
  requires_name :: string
  requires_meta :: "dzn_meta option"

definition trace_line :: "dzn_port_meta \<Rightarrow> string \<Rightarrow> string \<Rightarrow> string \<Rightarrow> string result" where
  "trace_line meta e_requires arrow e_provides =
     seq (strcpy_path (provides_name meta)) (\<lambda>pbuf.
     seq (strcpy_path (requires_name meta)) (\<lambda>rbuf.
     seq (dzn_runtime_path (requires_meta meta) rbuf) (\<lambda>requires.
     seq (dzn_runtime_path (provides_meta meta) pbuf) (\<lambda>provides.
       Inr (requires @ ''.'' @ e_requires @ arrow @ provides @ ''.'' @ e_provides @ [CHR 0x0A])))))"

definition dzn_runtime_trace :: "dzn_port_meta \<Rightarrow> string \<Rightarrow> string result" where
  "dzn_runtime_trace meta e = trace_line meta e '' -> '' e"

definition dzn_runtime_trace_out :: "dzn_port_meta \<Rightarrow> string \<Rightarrow> string result" where
  "dzn_runtime_trace_out meta e = trace_line meta e '' <- '' e"

definition dzn_runtime_trace_qin :: "dzn_port_meta \<Rightarrow> string \<Rightarrow> string result" where
  "dzn_runtime_trace_qin meta e =
     (if requires_meta meta = None then dzn_runtime_trace_out meta e
      else trace_line meta ''<q>'' '' <- '' e)"

definition dzn_runtime_trace_qout :: "dzn_port_meta \<Rightarrow> string \<Rightarrow> string result" where
  "dzn_runtime_trace_qout meta e =
     (if requires_meta meta = None then Inr []
      else trace_line meta e '' <- '' ''<q>'')"

section \<open>Booleans and integers as text\<close>

definition dzn_bool_to_string :: "bool \<Rightarrow> string" where
  "dzn_bool_to_string b = (if b then ''true'' else ''false'')"

text \<open>\<open>strncmp (s, "false", 5)\<close> is zero when the first five characters agree.\<close>

definition dzn_string_to_bool :: "string \<Rightarrow> bool" where
  "dzn_string_to_bool s \<longleftrightarrow> take 5 s \<noteq> ''false''"

definition digit :: "nat \<Rightarrow> char" where
  "digit d = char_of (48 + d)"

fun decimal :: "nat \<Rightarrow> string" where
  "decimal n = (if n < 10 then [digit n] else decimal (n div 10) @ [digit (n mod 10)])"

declare decimal.simps [simp del]

text \<open>\<open>sprintf ("%d", i)\<close>.\<close>

definition print_int :: "int \<Rightarrow> string" where
  "print_int i = (if i < 0 then ''-'' @ decimal (nat (- i)) else decimal (nat i))"

text \<open>\<open>buffy\<close> has \<open>sizeof (i) * 2 + 1\<close> bytes.\<close>

definition BUFFY :: nat where "BUFFY = 9"

definition dzn_int_to_string :: "32 word \<Rightarrow> string result" where
  "dzn_int_to_string i =
     (let s = print_int (sint i) in if length s < BUFFY then Inr s else Inl BufferOverflow)"

definition is_space :: "char \<Rightarrow> bool" where
  "is_space c \<longleftrightarrow> c \<in> {CHR '' '', CHR 0x09, CHR 0x0A, CHR 0x0B, CHR 0x0C, CHR 0x0D}"

definition digit_value :: "char \<Rightarrow> nat option" where
  "digit_value c =
     (let n = of_char c :: nat in
      if 48 \<le> n \<and> n \<le> 57 then Some (n - 48)
      else if 97 \<le> n \<and> n \<le> 122 then Some (n - 87)
      else if 65 \<le> n \<and> n \<le> 90 then Some (n - 55)
      else None)"

fun read_digits :: "nat \<Rightarrow> string \<Rightarrow> nat \<Rightarrow> nat" where
  "read_digits base [] acc = acc"
| "read_digits base (c # cs) acc =
     (case digit_value c of
        None \<Rightarrow> acc
      | Some d \<Rightarrow> if d < base then read_digits base cs (acc * base + d) else acc)"

definition is_digit :: "nat \<Rightarrow> char \<Rightarrow> bool" where
  "is_digit base c \<longleftrightarrow> (case digit_value c of None \<Rightarrow> False | Some d \<Rightarrow> d < base)"

definition starts_digit :: "nat \<Rightarrow> string \<Rightarrow> bool" where
  "starts_digit base s = (case s of [] \<Rightarrow> False | c # _ \<Rightarrow> is_digit base c)"

definition clamp_long :: "int \<Rightarrow> int" where
  "clamp_long i = max (- (2 ^ 63)) (min (2 ^ 63 - 1) i)"

text \<open>The subject sequence after white space and sign: base 16 after \<open>0x\<close>, 8 after \<open>0\<close>, 10
  otherwise.\<close>

definition read_magnitude :: "string \<Rightarrow> nat option" where
  "read_magnitude s =
     (if take 1 s = ''0'' then
        (if take 1 (drop 1 s) \<in> {''x'', ''X''} \<and> starts_digit 16 (drop 2 s)
         then Some (read_digits 16 (drop 2 s) 0)
         else Some (read_digits 8 s 0))
      else if starts_digit 10 s then Some (read_digits 10 s 0)
      else None)"

definition strtol0 :: "string \<Rightarrow> int \<times> bool" where
  "strtol0 s =
     (let s = dropWhile is_space s;
          negative = (take 1 s = ''-'');
          s = (if take 1 s \<in> {''-'', ''+''} then drop 1 s else s)
      in case read_magnitude s of
           None \<Rightarrow> (0, False)
         | Some n \<Rightarrow> (clamp_long (if negative then - int n else int n), True))"

definition dzn_string_to_int :: "string \<Rightarrow> 32 word" where
  "dzn_string_to_int s =
     (case strtol0 s of (val, some_digit) \<Rightarrow> if some_digit then word_of_int val else 0x7fffffff)"


section \<open>Lemmas on names\<close>

lemma length_qualify: "length p \<le> length (qualify p name)" "length name \<le> length (qualify p name)"
  by (simp_all add: qualify_def)

lemma length_foldl_qualify: "length p \<le> length (foldl qualify p names)"
proof (induction names arbitrary: p)
  case (Cons name names)
  have "length p \<le> length (qualify p name)" by (rule length_qualify)
  also have "\<dots> \<le> length (foldl qualify (qualify p name) names)" by (rule Cons.IH)
  finally show ?case by simp
qed simp

lemma qualify_non_empty: "p \<noteq> [] \<Longrightarrow> qualify p name \<noteq> []"
  by (simp add: qualify_def)

lemma foldl_qualify_dots:
  "p \<noteq> [] \<Longrightarrow> foldl qualify p names = concat (map (\<lambda>n. n @ ''.'') (rev names)) @ p"
  by (induction names arbitrary: p) (simp_all add: qualify_def)

lemma dzn_runtime_path_full:
  "dzn_runtime_path (Some m) p =
     (if length (full_name m p) < PATH_BUFFER then Inr (full_name m p) else Inl BufferOverflow)"
proof (induction m arbitrary: p)
  case (Dzn_meta name parent)
  let ?q = "qualify p name"
  have full: "full_name (Dzn_meta name parent) p =
      (case parent of None \<Rightarrow> ?q | Some m \<Rightarrow> full_name m ?q)"
    by (simp add: full_name_def split: option.split)
  have "length ?q \<le> length (full_name (Dzn_meta name parent) p)"
    unfolding full by (simp add: full_name_def length_foldl_qualify split: option.split)
  moreover have "length name \<le> length ?q" by (rule length_qualify)
  moreover have "dzn_runtime_path (Some m) ?q =
      (if length (full_name m ?q) < PATH_BUFFER then Inr (full_name m ?q) else Inl BufferOverflow)"
    if "parent = Some m" for m
    using Dzn_meta.IH [of m] that by simp
  ultimately show ?case
    unfolding full
    by (cases parent) (auto simp: strcpy_path_def)
qed

section \<open>Lemmas on numerals\<close>

lemma digit_cases: "d < 10 \<Longrightarrow> d \<in> {0, 1, 2, 3, 4, 5, 6, 7, 8, 9 :: nat}"
  by auto

lemma of_char_digit: "d < 10 \<Longrightarrow> (of_char (digit d) :: nat) = 48 + d"
  by (simp add: digit_def)

lemma digit_value_digit: "d < 10 \<Longrightarrow> digit_value (digit d) = Some d"
  by (simp add: digit_value_def of_char_digit)

lemma decimal_unfold: "\<not> n < 10 \<Longrightarrow> decimal n = decimal (n div 10) @ [digit (n mod 10)]"
  by (subst decimal.simps) simp

lemma decimal_digit: "n < 10 \<Longrightarrow> decimal n = [digit n]"
  by (subst decimal.simps) simp

lemma decimal_digits: "\<forall>c \<in> set (decimal n). is_digit 10 c"
proof (induction n rule: decimal.induct)
  case (1 n)
  show ?case
    by (cases "n < 10") (use 1 in \<open>auto simp: decimal_digit decimal_unfold is_digit_def digit_value_digit\<close>)
qed

lemma read_digits_append:
  "\<forall>c \<in> set xs. is_digit base c \<Longrightarrow>
     read_digits base (xs @ ys) acc = read_digits base ys (read_digits base xs acc)"
  by (induction xs arbitrary: acc) (auto simp: is_digit_def split: option.splits)

lemma read_decimal: "read_digits 10 (decimal n) 0 = n"
proof (induction n rule: decimal.induct)
  case (1 n)
  show ?case
    by (cases "n < 10")
      (use 1 in \<open>simp_all add: decimal_digit decimal_unfold digit_value_digit
        read_digits_append [OF decimal_digits]\<close>)
qed

lemma decimal_non_empty: "decimal n \<noteq> []"
  by (cases "n < 10") (simp_all add: decimal_digit decimal_unfold)

lemma length_decimal: "0 < k \<Longrightarrow> length (decimal n) \<le> k \<longleftrightarrow> n < 10 ^ k"
proof (induction n arbitrary: k rule: decimal.induct)
  case (1 n)
  show ?case
  proof (cases "n < 10")
    case True
    then show ?thesis
      using \<open>0 < k\<close> power_increasing [of 1 k "10 :: nat"] by (simp add: decimal_digit)
  next
    case False
    show ?thesis
    proof (cases "k = 1")
      case True
      with False show ?thesis by (simp add: decimal_unfold decimal_non_empty)
    next
      case k: False
      then obtain j where j: "k = Suc j" "0 < j" using \<open>0 < k\<close> by (cases k) auto
      have "n div 10 < 10 ^ j \<longleftrightarrow> n < 10 ^ j * 10" by (rule div_less_iff_less_mult) simp
      with False j 1(1) [OF False j(2)] show ?thesis by (simp add: decimal_unfold mult.commute)
    qed
  qed
qed

lemma first_digit: "0 < n \<Longrightarrow> \<exists>d ds. decimal n = digit d # ds \<and> 0 < d \<and> d < 10"
proof (induction n rule: decimal.induct)
  case (1 n)
  show ?case
  proof (cases "n < 10")
    case True
    with 1 show ?thesis by (auto simp: decimal_digit)
  next
    case False
    then have "0 < n div 10" by simp
    with 1(1) [OF False] False show ?thesis by (auto simp: decimal_unfold)
  qed
qed

lemma print_int_length:
  "length (print_int i) < BUFFY \<longleftrightarrow> - (10 ^ 7) < i \<and> i < 10 ^ 8"
proof -
  have short: "length (decimal n) < BUFFY \<longleftrightarrow> n < 10 ^ 8" "Suc (length (decimal n)) < BUFFY \<longleftrightarrow> n < 10 ^ 7" for n
    using length_decimal [of 8 n] length_decimal [of 7 n] unfolding BUFFY_def by presburger+
  show ?thesis
  proof (cases "i < 0")
    case True
    then have "nat (- i) < 10 ^ 7 \<longleftrightarrow> - (10 ^ 7) < i" by (subst nat_less_iff) auto
    with True show ?thesis by (simp add: print_int_def short(2))
  next
    case False
    then have "nat i < 10 ^ 8 \<longleftrightarrow> i < 10 ^ 8" by (subst nat_less_iff) auto
    with False show ?thesis by (simp add: print_int_def short(1))
  qed
qed

lemma digit_not:
  assumes "d < 10"
  shows "digit d \<noteq> CHR ''-''" "digit d \<noteq> CHR ''+''" "\<not> is_space (digit d)"
    "0 < d \<Longrightarrow> digit d \<noteq> CHR ''0''"
proof -
  have "digit d = c \<longleftrightarrow> 48 + d = (of_char c :: nat)" for c
    using of_char_digit [OF assms] of_char_eq_iff [of "digit d" c, where 'a = nat] by metis
  with assms show "digit d \<noteq> CHR ''-''" "digit d \<noteq> CHR ''+''" "\<not> is_space (digit d)"
    "0 < d \<Longrightarrow> digit d \<noteq> CHR ''0''"
    by (simp_all add: is_space_def)
qed

lemma digit_0: "digit 0 = CHR ''0''"
  by code_simp

lemma read_magnitude_decimal: "read_magnitude (decimal n) = Some n"
proof (cases "n = 0")
  case True
  then show ?thesis
    using read_decimal [of 0] digit_value_digit [of 0]
    by (simp add: read_magnitude_def decimal_digit digit_0)
next
  case False
  then obtain d ds where d: "decimal n = digit d # ds" "0 < d" "d < 10" using first_digit by blast
  then have "starts_digit 10 (decimal n)"
    by (simp add: starts_digit_def is_digit_def digit_value_digit)
  moreover have "take 1 (decimal n) \<noteq> ''0''" using d digit_not(4) by simp
  ultimately show ?thesis using read_decimal [of n] by (simp add: read_magnitude_def)
qed

lemma decimal_head: "\<exists>d ds. decimal n = digit d # ds \<and> d < 10"
  using first_digit [of n] by (cases "n = 0") (auto simp: decimal_digit)

lemma strtol0_decimal: "int n < 2 ^ 63 \<Longrightarrow> strtol0 (decimal n) = (int n, True)"
  using decimal_head [of n] read_magnitude_decimal [of n]
  by (auto simp: strtol0_def digit_not clamp_long_def Let_def)

lemma strtol0_negative: "int n < 2 ^ 63 \<Longrightarrow> strtol0 (CHR ''-'' # decimal n) = (- int n, True)"
  using read_magnitude_decimal [of n]
  by (simp add: strtol0_def is_space_def clamp_long_def Let_def)

lemma strtol0_print_int: "- (2 ^ 63) < i \<Longrightarrow> i < 2 ^ 63 \<Longrightarrow> strtol0 (print_int i) = (i, True)"
  using strtol0_decimal [of "nat i"] strtol0_negative [of "nat (- i)"] by (simp add: print_int_def)

section \<open>Properties\<close>

text \<open>The name of an instance in a trace is the port name qualified by the names of the instance
  and all its parents, outermost first, separated by dots; it is produced whenever it fits the
  1024-byte buffer, and when it does not fit the buffer overflows.\<close>

theorem path_is_full_name:
  "dzn_runtime_path (Some m) p =
     (if length (full_name m p) < 1024 then Inr (full_name m p) else Inl BufferOverflow) \<and>
   full_name m (c # cs) = concat (map (\<lambda>n. n @ ''.'') (rev (names_up m))) @ c # cs"
  using dzn_runtime_path_full [of m p]
  by (simp add: PATH_BUFFER_def full_name_def foldl_qualify_dots)

text \<open>The trace functions print the requires side first and the provides side second, with an
  arrow to the right for a call and to the left for an answer; \<open>qin\<close> and \<open>qout\<close> replace the event
  on the queue's side, and on a port whose requirer is external \<open>qin\<close> prints what \<open>trace_out\<close> prints
  and \<open>qout\<close> prints nothing.\<close>

theorem trace_lines:
  assumes "requires_meta meta = Some r" and "provides_meta meta = Some p"
    and "length (full_name r (requires_name meta)) < 1024"
    and "length (full_name p (provides_name meta)) < 1024"
  shows "dzn_runtime_trace meta e = Inr (full_name r (requires_name meta) @ ''.'' @ e @ '' -> '' @
           full_name p (provides_name meta) @ ''.'' @ e @ [CHR 0x0A]) \<and>
    dzn_runtime_trace_qin meta e = Inr (full_name r (requires_name meta) @ ''.<q> <- '' @
           full_name p (provides_name meta) @ ''.'' @ e @ [CHR 0x0A]) \<and>
    dzn_runtime_trace_qout meta e = Inr (full_name r (requires_name meta) @ ''.'' @ e @ '' <- '' @
           full_name p (provides_name meta) @ ''.<q>'' @ [CHR 0x0A]) \<and>
    dzn_runtime_trace_qin (meta\<lparr>requires_meta := None\<rparr>) e =
      dzn_runtime_trace_out (meta\<lparr>requires_meta := None\<rparr>) e \<and>
    dzn_runtime_trace_qout (meta\<lparr>requires_meta := None\<rparr>) e = Inr []"
proof -
  have "length (requires_name meta) < 1024" "length (provides_name meta) < 1024"
    using assms(3,4) length_foldl_qualify [of "requires_name meta" "names_up r"]
      length_foldl_qualify [of "provides_name meta" "names_up p"]
    by (simp_all add: full_name_def)
  then have copy: "strcpy_path (requires_name meta) = Inr (requires_name meta)"
    "strcpy_path (provides_name meta) = Inr (provides_name meta)"
    by (simp_all add: strcpy_path_def PATH_BUFFER_def)
  then have "trace_line meta a arrow b = Inr (full_name r (requires_name meta) @ ''.'' @ a @ arrow @
      full_name p (provides_name meta) @ ''.'' @ b @ [CHR 0x0A])" for a b arrow
    using assms by (simp add: trace_line_def dzn_runtime_path_full PATH_BUFFER_def)
  then show ?thesis
    using assms(1)
    by (simp add: dzn_runtime_trace_def dzn_runtime_trace_qin_def dzn_runtime_trace_qout_def)
qed

theorem trace_lines_witness:
  "dzn_runtime_trace_qin \<lparr>provides_name = ''p'', provides_meta = Some (Dzn_meta ''led'' (Some (Dzn_meta ''sut'' None))),
     requires_name = ''r'', requires_meta = Some (Dzn_meta ''console'' (Some (Dzn_meta ''sut'' None)))\<rparr> ''on'' =
   Inr (''sut.console.r.<q> <- sut.led.p.on'' @ [CHR 0x0A])"
  using trace_lines [of "\<lparr>provides_name = ''p'', provides_meta = Some (Dzn_meta ''led'' (Some (Dzn_meta ''sut'' None))),
     requires_name = ''r'', requires_meta = Some (Dzn_meta ''console'' (Some (Dzn_meta ''sut'' None)))\<rparr>"
     "Dzn_meta ''console'' (Some (Dzn_meta ''sut'' None))" "Dzn_meta ''led'' (Some (Dzn_meta ''sut'' None))" "''on''"]
  by (simp add: full_name_def qualify_def)

lemma int_text_back: "dzn_int_to_string i = Inr s \<Longrightarrow> dzn_string_to_int s = i"
  using print_int_length [of "sint i"] strtol0_print_int [of "sint i"]
  by (auto simp: dzn_int_to_string_def dzn_string_to_int_def Let_def split: if_splits)

text \<open>C39: an integer printed by \<open>dzn_int_to_string\<close> is read back by \<open>dzn_string_to_int\<close>; the 9 bytes of
  the static buffer hold exactly the integers between -9999999 and 99999999, every other one
  overflows it.\<close>

theorem int_text_roundtrip:
  "if - (10 ^ 7) < sint i \<and> sint i < 10 ^ 8
   then \<exists>s. dzn_int_to_string i = Inr s \<and> dzn_string_to_int s = i
   else dzn_int_to_string i = Inl BufferOverflow"
proof -
  have "strtol0 (print_int (sint i)) = (sint i, True)"
    if "- (10 ^ 7) < sint i" "sint i < 10 ^ 8"
    using that by (intro strtol0_print_int) simp_all
  then show ?thesis
    using print_int_length [of "sint i"]
    by (auto simp: dzn_int_to_string_def dzn_string_to_int_def Let_def)
qed

text \<open>A boolean survives the round trip, and any text starting with \<open>false\<close> reads as false,
  everything else as true.\<close>

lemma bool_text_roundtrip:
  "dzn_string_to_bool (dzn_bool_to_string b) = b \<and>
   \<not> dzn_string_to_bool (dzn_bool_to_string False @ s)"
  by (simp add: dzn_string_to_bool_def dzn_bool_to_string_def)

end
