(* ===== verification/Runtime.thy ===== *)
theory Runtime
  imports Locator Event_Queue
begin

text \<open>
  The event dispatcher, \<open>runtime/c/runtime.c\<close> lines 40 to 179: starting and finishing an event on a
  component, enqueueing an event for another component, and flushing the queues.

  Event handlers are generated code.  A handler is a \<open>prog\<close>: it updates the components' own state and
  calls the runtime; \<open>body\<close>, an argument of the machine, gives the handler of each closure.  The
  C call stack is an explicit list of frames, so that a handler that calls the runtime, which runs a
  handler, and so on, is one step relation and nothing has to be said about termination to state an
  invariant.

  \<open>rt_queue\<close> is the list of the nodes of a queue.  \<open>dzn_queue_empty\<close> looks at its size, which has 8 bits: a dynamic queue of 256 elements counts as empty (\<open>rt_queue_empty\<close>; \<open>Event_Queue\<close> proves that the queues
  implement lists as long as they have at most 255 or 7 elements).  The build is the one with dynamic queues: the
  other one does not compile, since it names a member of \<open>dzn_closure\<close> that does not exist.  Allocating the closure
  and the node of an event is taken to succeed; \<open>dzn_malloc\<close> asserts it.
  \<open>rt_log\<close> is not in the code: it records what the dispatcher did.
\<close>

section \<open>State\<close>

record 'c rt_info =
  rt_locator :: addr
  rt_handling :: int
  rt_performs_flush :: bool
  rt_deferred :: addr
  rt_queue :: "'c list"

datatype 'c rt_event = Started addr | Finished addr | Queued addr 'c | Dequeued addr 'c

record ('c, 'u) sys =
  rt_infos :: "'c rt_info store"
  rt_locators :: "dzn_locator store"
  rt_user :: 'u
  rt_log :: "'c rt_event list"

text \<open>What the runtime is built and run with: what \<open>dzn_coroutine_id\<close> returns in a build with coroutines.\<close>

record rt_config =
  coroutine_id :: "int option"

datatype 'c rt_call =
    Enqueue addr addr 'c
  | Event addr 'c
  | Start addr
  | Finish addr
  | Illegal addr

datatype ('c, 'u) prog =
    Return
  | Local "'u \<Rightarrow> 'u" "'u \<Rightarrow> ('c, 'u) prog"
  | Call "'c rt_call" "('c, 'u) prog"

datatype 'p frame = In_handler 'p | In_finish addr | In_flush addr

type_synonym ('c, 'u) machine = "('c, 'u) sys \<times> ('c, 'u) prog frame list"

definition log_event :: "'c rt_event \<Rightarrow> ('c, 'u) sys \<Rightarrow> ('c, 'u) sys" where
  "log_event e s = s\<lparr>rt_log := rt_log s @ [e]\<rparr>"

definition get_info :: "('c, 'u) sys \<Rightarrow> addr \<Rightarrow> 'c rt_info result" where
  "get_info s i = load (rt_infos s) i"

definition put_info :: "addr \<Rightarrow> 'c rt_info \<Rightarrow> ('c, 'u) sys \<Rightarrow> ('c, 'u) sys" where
  "put_info i info s = s\<lparr>rt_infos := set_obj i (Some info) (rt_infos s)\<rparr>"

section \<open>Operations\<close>

definition dzn_runtime_info_init :: "'c rt_info \<Rightarrow> addr \<Rightarrow> 'c rt_info" where
  "dzn_runtime_info_init info locator =
     info\<lparr>rt_locator := locator, rt_handling := 0, rt_performs_flush := False, rt_deferred := NULL,
       rt_queue := []\<rparr>"

text \<open>\<open>dzn_coroutine_id () || -1\<close> is a logical or: its value is one, whatever the coroutine.\<close>

definition c_or :: "int \<Rightarrow> int \<Rightarrow> int" where
  "c_or a b = (if a \<noteq> 0 \<or> b \<noteq> 0 then 1 else 0)"

definition dzn_runtime_start :: "rt_config \<Rightarrow> addr \<Rightarrow> ('c, 'u) sys \<Rightarrow> ('c, 'u) sys result" where
  "dzn_runtime_start cfg i s =
     seq (get_info s i) (\<lambda>info.
       if rt_handling info = 0 then
         Inr (log_event (Started i) (put_info i (info\<lparr>rt_handling :=
           (case coroutine_id cfg of None \<Rightarrow> -1 | Some cid \<Rightarrow> c_or cid (-1))\<rparr>) s))
       else Inl (AssertFailed ''component already handling an event''))"

definition dzn_runtime_finish ::
    "addr \<Rightarrow> ('c, 'u) sys \<Rightarrow> (('c, 'u) sys \<times> 'p frame list) result" where
  "dzn_runtime_finish i s =
     seq (get_info s i) (\<lambda>info.
       Inr (log_event (Finished i) (put_info i (info\<lparr>rt_handling := 0\<rparr>) s), [In_flush i]))"

definition dzn_runtime_handle_event ::
    "rt_config \<Rightarrow> ('c \<Rightarrow> 'p) \<Rightarrow> addr \<Rightarrow> 'c \<Rightarrow> ('c, 'u) sys \<Rightarrow>
       (('c, 'u) sys \<times> 'p frame list) result" where
  "dzn_runtime_handle_event cfg body i event s =
     seq (dzn_runtime_start cfg i s) (\<lambda>s. Inr (s, [In_handler (body event), In_finish i]))"

text \<open>\<open>dzn_runtime_event\<close> takes the component from the arguments of the event.\<close>

definition dzn_runtime_event ::
    "rt_config \<Rightarrow> ('c \<Rightarrow> 'p) \<Rightarrow> addr \<Rightarrow> 'c \<Rightarrow> ('c, 'u) sys \<Rightarrow>
       (('c, 'u) sys \<times> 'p frame list) result" where
  "dzn_runtime_event cfg body self event s = dzn_runtime_handle_event cfg body self event s"

definition push_event :: "addr \<Rightarrow> 'c \<Rightarrow> ('c, 'u) sys \<Rightarrow> ('c, 'u) sys result" where
  "push_event tgt event s =
     seq (get_info s tgt) (\<lambda>info.
       Inr (log_event (Queued tgt event) (put_info tgt (info\<lparr>rt_queue := rt_queue info @ [event]\<rparr>) s)))"

definition dzn_runtime_enqueue ::
    "rt_config \<Rightarrow> ('c \<Rightarrow> 'p) \<Rightarrow> addr \<Rightarrow> addr \<Rightarrow> 'c \<Rightarrow> ('c, 'u) sys \<Rightarrow>
       (('c, 'u) sys \<times> 'p frame list) result" where
  "dzn_runtime_enqueue cfg body src tgt event s =
     seq (if src = NULL then Inr False
          else seq (get_info s src) (\<lambda>info. Inr (rt_performs_flush info))) (\<lambda>flushes.
     seq (if flushes then Inr False
          else seq (get_info s tgt) (\<lambda>info. Inr (rt_handling info = 0))) (\<lambda>at_once.
       if at_once then dzn_runtime_handle_event cfg body tgt event s
       else
         seq (push_event tgt event s) (\<lambda>s.
           if src = NULL then Inr (s, [])
           else seq (get_info s src) (\<lambda>info. Inr (put_info src (info\<lparr>rt_deferred := tgt\<rparr>) s, [])))))"

text \<open>\<open>dzn_queue_empty\<close>: the size, in its 8 bits, is zero.\<close>

definition rt_queue_empty :: "'c list \<Rightarrow> bool" where
  "rt_queue_empty q \<longleftrightarrow> (of_nat (length q) :: 8 word) = 0"

text \<open>One turn of the loops of \<open>dzn_runtime_flush\<close>.\<close>

definition dzn_runtime_flush ::
    "rt_config \<Rightarrow> ('c \<Rightarrow> 'p) \<Rightarrow> addr \<Rightarrow> ('c, 'u) sys \<Rightarrow>
       (('c, 'u) sys \<times> 'p frame list) result" where
  "dzn_runtime_flush cfg body i s =
     (if i = NULL then Inr (s, [])
      else seq (get_info s i) (\<lambda>info.
        case (if rt_queue_empty (rt_queue info) then [] else rt_queue info) of
          event # rest \<Rightarrow>
            seq (dzn_runtime_handle_event cfg body i event
                   (log_event (Dequeued i event) (put_info i (info\<lparr>rt_queue := rest\<rparr>) s)))
              (\<lambda>(s, frames). Inr (s, frames @ [In_flush i]))
        | [] \<Rightarrow>
            if rt_deferred info \<noteq> NULL then
              (let s = put_info i (info\<lparr>rt_deferred := NULL\<rparr>) s in
               seq (get_info s (rt_deferred info)) (\<lambda>tgt.
                 Inr (s, [In_flush (if rt_handling tgt = 0 then rt_deferred info else i)])))
            else Inr (s, [])))"

text \<open>\<open>dzn_illegal\<close> calls the locator's handler; \<open>user_illegal\<close> is what a user's handler does.\<close>

definition dzn_illegal ::
    "(nat \<Rightarrow> 'p) \<Rightarrow> addr \<Rightarrow> ('c, 'u) sys \<Rightarrow> (('c, 'u) sys \<times> 'p frame list) result" where
  "dzn_illegal user_illegal i s =
     seq (get_info s i) (\<lambda>info.
     seq (load (rt_locators s) (rt_locator info)) (\<lambda>locator.
       case loc_illegal locator of
         None \<Rightarrow> Inl NullCall
       | Some Runtime_illegal_handler \<Rightarrow> Inl (AssertFailed ''illegal'')
       | Some (User_handler h) \<Rightarrow> Inr (s, [In_handler (user_illegal h)])))"

fun runtime_call ::
    "rt_config \<Rightarrow> ('c \<Rightarrow> 'p) \<Rightarrow> (nat \<Rightarrow> 'p) \<Rightarrow> 'c rt_call \<Rightarrow> ('c, 'u) sys \<Rightarrow>
       (('c, 'u) sys \<times> 'p frame list) result" where
  "runtime_call cfg body user_illegal (Enqueue src tgt event) s =
     dzn_runtime_enqueue cfg body src tgt event s"
| "runtime_call cfg body user_illegal (Event self event) s =
     dzn_runtime_event cfg body self event s"
| "runtime_call cfg body user_illegal (Start i) s = seq (dzn_runtime_start cfg i s) (\<lambda>s. Inr (s, []))"
| "runtime_call cfg body user_illegal (Finish i) s = dzn_runtime_finish i s"
| "runtime_call cfg body user_illegal (Illegal i) s = dzn_illegal user_illegal i s"

fun machine_step ::
    "rt_config \<Rightarrow> ('c \<Rightarrow> ('c, 'u) prog) \<Rightarrow> (nat \<Rightarrow> ('c, 'u) prog) \<Rightarrow> ('c, 'u) machine \<Rightarrow>
       ('c, 'u) machine result" where
  "machine_step cfg body ui (s, []) = Inr (s, [])"
| "machine_step cfg body ui (s, In_handler Return # st) = Inr (s, st)"
| "machine_step cfg body ui (s, In_handler (Local f k) # st) =
     Inr (s\<lparr>rt_user := f (rt_user s)\<rparr>, In_handler (k (f (rt_user s))) # st)"
| "machine_step cfg body ui (s, In_handler (Call c p) # st) =
     seq (runtime_call cfg body ui c s) (\<lambda>(s, frames). Inr (s, frames @ In_handler p # st))"
| "machine_step cfg body ui (s, In_finish i # st) =
     seq (dzn_runtime_finish i s) (\<lambda>(s, frames). Inr (s, frames @ st))"
| "machine_step cfg body ui (s, In_flush i # st) =
     seq (dzn_runtime_flush cfg body i s) (\<lambda>(s, frames). Inr (s, frames @ st))"

text \<open>The configurations an execution passes through.\<close>

inductive reaches ::
    "rt_config \<Rightarrow> ('c \<Rightarrow> ('c, 'u) prog) \<Rightarrow> (nat \<Rightarrow> ('c, 'u) prog) \<Rightarrow> ('c, 'u) machine \<Rightarrow>
       ('c, 'u) machine \<Rightarrow> bool"
  for cfg body ui start where
  reaches_start: "reaches cfg body ui start start"
| reaches_step: "reaches cfg body ui start m \<Longrightarrow> snd m \<noteq> [] \<Longrightarrow> machine_step cfg body ui m = Inr m' \<Longrightarrow>
     reaches cfg body ui start m'"

text \<open>Running the machine until the stack is empty, with \<open>fuel\<close> steps.\<close>

fun machine_run ::
    "nat \<Rightarrow> rt_config \<Rightarrow> ('c \<Rightarrow> ('c, 'u) prog) \<Rightarrow> (nat \<Rightarrow> ('c, 'u) prog) \<Rightarrow> ('c, 'u) machine \<Rightarrow>
       ('c, 'u) sys run" where
  "machine_run fuel cfg body ui (s, []) = return_run s"
| "machine_run 0 cfg body ui (s, f # st) = None"
| "machine_run (Suc fuel) cfg body ui (s, f # st) =
     bind_run (lift_run (machine_step cfg body ui (s, f # st))) (machine_run fuel cfg body ui)"


section \<open>Reading a state after a write\<close>

lemma rt_queue_empty_simps [simp]:
  "rt_queue_empty []" "length q < 256 \<Longrightarrow> rt_queue_empty q \<longleftrightarrow> q = []" "length q = 256 \<Longrightarrow> rt_queue_empty q"
  by (auto simp: rt_queue_empty_def word_of_nat_eq_0_iff dest: dvd_imp_le)

definition queue_of :: "('c, 'u) sys \<Rightarrow> addr \<Rightarrow> 'c list" where
  "queue_of s t = (case objs (rt_infos s) t of None \<Rightarrow> [] | Some info \<Rightarrow> rt_queue info)"

definition busy :: "('c, 'u) sys \<Rightarrow> addr \<Rightarrow> bool" where
  "busy s t \<longleftrightarrow> (case objs (rt_infos s) t of None \<Rightarrow> False | Some info \<Rightarrow> rt_handling info \<noteq> 0)"

lemma put_info_simps [simp]:
  "objs (rt_infos (put_info i info s)) t = (if t = i then Some info else objs (rt_infos s) t)"
  "rt_locators (put_info i info s) = rt_locators s"
  "rt_user (put_info i info s) = rt_user s"
  "rt_log (put_info i info s) = rt_log s"
  by (simp_all add: put_info_def)

lemma log_event_simps [simp]:
  "rt_infos (log_event e s) = rt_infos s"
  "rt_locators (log_event e s) = rt_locators s"
  "rt_user (log_event e s) = rt_user s"
  "rt_log (log_event e s) = rt_log s @ [e]"
  by (simp_all add: log_event_def)

lemma get_info_Inr_iff [simp]: "get_info s i = Inr info \<longleftrightarrow> i \<noteq> NULL \<and> objs (rt_infos s) i = Some info"
  by (simp add: get_info_def)

lemma get_info_put_info [simp]:
  "i \<noteq> NULL \<Longrightarrow> get_info (put_info i info s) j = (if j = i then Inr info else get_info s j)"
  by (simp add: get_info_def load_def)

lemma get_info_log_event [simp]: "get_info (log_event e s) i = get_info s i"
  by (simp add: get_info_def)

lemma get_info_user [simp]: "get_info (s\<lparr>rt_user := u\<rparr>) i = get_info s i"
  by (simp add: get_info_def)

lemma views_put_info [simp]:
  "queue_of (put_info i info s) t = (if t = i then rt_queue info else queue_of s t)"
  "busy (put_info i info s) t = (if t = i then rt_handling info \<noteq> 0 else busy s t)"
  by (simp_all add: queue_of_def busy_def)

lemma views_other [simp]:
  "queue_of (log_event e s) t = queue_of s t" "busy (log_event e s) t = busy s t"
  "queue_of (s\<lparr>rt_user := u\<rparr>) t = queue_of s t" "busy (s\<lparr>rt_user := u\<rparr>) t = busy s t"
  by (simp_all add: queue_of_def busy_def)

lemma handling_value: "(case coroutine_id cfg of None \<Rightarrow> -1 | Some cid \<Rightarrow> c_or cid (-1)) \<noteq> (0 :: int)"
  by (simp add: c_or_def split: option.split)

section \<open>What the log shows\<close>

fun queued :: "addr \<Rightarrow> 'c rt_event list \<Rightarrow> 'c list" where
  "queued t [] = []"
| "queued t (Queued t' c # es) = (if t' = t then c # queued t es else queued t es)"
| "queued t (_ # es) = queued t es"

fun dequeued :: "addr \<Rightarrow> 'c rt_event list \<Rightarrow> 'c list" where
  "dequeued t [] = []"
| "dequeued t (Dequeued t' c # es) = (if t' = t then c # dequeued t es else dequeued t es)"
| "dequeued t (_ # es) = dequeued t es"

text \<open>Whether a component is handling an event after the log, \<open>None\<close> when it started one while it
  was handling another.\<close>

fun occupied_step :: "addr \<Rightarrow> bool option \<Rightarrow> 'c rt_event \<Rightarrow> bool option" where
  "occupied_step t b (Started t') = (if t' = t then (if b = Some False then Some True else None) else b)"
| "occupied_step t b (Finished t') = (if t' = t then map_option (\<lambda>_. False) b else b)"
| "occupied_step t b _ = b"

definition occupied_after :: "addr \<Rightarrow> 'c rt_event list \<Rightarrow> bool option" where
  "occupied_after t es = foldl (occupied_step t) (Some False) es"

lemma log_append [simp]:
  "queued t (es @ fs) = queued t es @ queued t fs"
  "dequeued t (es @ fs) = dequeued t es @ dequeued t fs"
  "occupied_after t (es @ [e]) = occupied_step t (occupied_after t es) e"
  subgoal by (induction t es rule: queued.induct) auto
  subgoal by (induction t es rule: dequeued.induct) auto
  subgoal by (simp add: occupied_after_def)
  done

text \<open>Every queue holds what was queued for its component and not yet dequeued, in order, and no
  component started an event while it was handling one.\<close>

definition dispatch_inv :: "('c, 'u) sys \<Rightarrow> bool" where
  "dispatch_inv s \<longleftrightarrow>
     (\<forall>t. queued t (rt_log s) = dequeued t (rt_log s) @ queue_of s t) \<and>
     (\<forall>t. occupied_after t (rt_log s) = Some (busy s t))"

named_theorems dispatch_intros \<open>what preserves the dispatch invariant\<close>

lemma dispatch_inv_same [dispatch_intros]:
  assumes "dispatch_inv s" and "get_info s i = Inr info" and "rt_queue info' = rt_queue info"
    and "rt_handling info' = rt_handling info"
  shows "dispatch_inv (put_info i info' s)"
  using assms by (auto simp: dispatch_inv_def queue_of_def busy_def)

lemma dispatch_inv_user [dispatch_intros]: "dispatch_inv s \<Longrightarrow> dispatch_inv (s\<lparr>rt_user := u\<rparr>)"
  by (simp add: dispatch_inv_def)

lemma dispatch_inv_start [dispatch_intros]:
  "dispatch_inv s \<Longrightarrow> dzn_runtime_start cfg i s = Inr s' \<Longrightarrow> dispatch_inv s'"
  using handling_value [of cfg]
  by (auto simp: dispatch_inv_def dzn_runtime_start_def queue_of_def busy_def split: if_splits)

lemma dispatch_inv_finish [dispatch_intros]:
  "dispatch_inv s \<Longrightarrow> dzn_runtime_finish i s = Inr (s', fs) \<Longrightarrow> dispatch_inv s'"
  by (auto simp: dispatch_inv_def dzn_runtime_finish_def queue_of_def busy_def)

lemma dispatch_inv_push [dispatch_intros]:
  "dispatch_inv s \<Longrightarrow> push_event tgt c s = Inr s' \<Longrightarrow> dispatch_inv s'"
  by (auto simp: dispatch_inv_def push_event_def queue_of_def busy_def split: if_splits)

lemma dispatch_inv_pop [dispatch_intros]:
  assumes "dispatch_inv s" and "get_info s i = Inr info" and "rt_queue info = c # rest"
  shows "dispatch_inv (log_event (Dequeued i c) (put_info i (info\<lparr>rt_queue := rest\<rparr>) s))"
  using assms by (auto simp: dispatch_inv_def queue_of_def busy_def)

lemma dispatch_inv_handle [dispatch_intros]:
  "dispatch_inv s \<Longrightarrow> dzn_runtime_handle_event cfg body i c s = Inr (s', fs) \<Longrightarrow> dispatch_inv s'"
  by (auto simp: dzn_runtime_handle_event_def intro: dispatch_intros)


lemma enqueue_cases:
  assumes "dzn_runtime_enqueue cfg body src tgt c s = Inr (s', fs)"
  obtains (at_once) "\<not> (src \<noteq> NULL \<and> (\<forall>info. get_info s src = Inr info \<longrightarrow> rt_performs_flush info))"
      and "\<not> busy s tgt" and "dzn_runtime_handle_event cfg body tgt c s = Inr (s', fs)"
  | (queued) s1 where "push_event tgt c s = Inr s1" and "fs = []"
      and "src = NULL \<and> s' = s1 \<or>
        (\<exists>info. src \<noteq> NULL \<and> get_info s1 src = Inr info \<and> s' = put_info src (info\<lparr>rt_deferred := tgt\<rparr>) s1)"
  using assms unfolding dzn_runtime_enqueue_def busy_def
  by (auto split: if_splits)

lemma flush_cases:
  assumes "dzn_runtime_flush cfg body i s = Inr (s', fs)"
  obtains (null) "i = NULL" and "s' = s" and "fs = []"
  | (event) info c rest where "get_info s i = Inr info" and "rt_queue info = c # rest"
      and "dzn_runtime_start cfg i
        (log_event (Dequeued i c) (put_info i (info\<lparr>rt_queue := rest\<rparr>) s)) = Inr s'"
      and "fs = [In_handler (body c), In_finish i, In_flush i]"
  | (deferred) info tgt where "get_info s i = Inr info" and "rt_queue_empty (rt_queue info)"
      and "rt_deferred info \<noteq> NULL" and "s' = put_info i (info\<lparr>rt_deferred := NULL\<rparr>) s"
      and "get_info s' (rt_deferred info) = Inr tgt"
      and "fs = [In_flush (if rt_handling tgt = 0 then rt_deferred info else i)]"
  | (finished) info where "get_info s i = Inr info" and "rt_queue_empty (rt_queue info)"
      and "rt_deferred info = NULL" and "s' = s" and "fs = []"
proof (cases "i = NULL")
  case True
  with assms null show ?thesis by (simp add: dzn_runtime_flush_def)
next
  case False
  with assms obtain info where info: "get_info s i = Inr info"
    by (auto simp: dzn_runtime_flush_def)
  show ?thesis
  proof (cases "rt_queue_empty (rt_queue info)")
    case no: False
    then obtain c rest where Cons: "rt_queue info = c # rest" by (cases "rt_queue info") auto
    with assms False info no show ?thesis
      by (intro event [of info c rest])
        (auto simp: dzn_runtime_flush_def dzn_runtime_handle_event_def)
  next
    case Nil: True
    show ?thesis
    proof (cases "rt_deferred info = NULL")
      case True
      with assms False info Nil show ?thesis
        by (intro finished [of info]) (auto simp: dzn_runtime_flush_def)
    next
      case deferring: False
      with assms False info Nil obtain tgt where
        "get_info (put_info i (info\<lparr>rt_deferred := NULL\<rparr>) s) (rt_deferred info) = Inr tgt"
        and "s' = put_info i (info\<lparr>rt_deferred := NULL\<rparr>) s"
        and "fs = [In_flush (if rt_handling tgt = 0 then rt_deferred info else i)]"
        unfolding dzn_runtime_flush_def Let_def by (auto simp del: get_info_put_info)
      with info Nil deferring show ?thesis by (intro deferred [of info tgt]) simp_all
    qed
  qed
qed

lemma illegal_Inr:
  assumes "dzn_illegal ui i s = Inr (s', fs)"
  shows "s' = s \<and> (\<exists>h. fs = [In_handler (ui h)])"
proof -
  from assms obtain info locator where "get_info s i = Inr info"
    and "load (rt_locators s) (rt_locator info) = Inr locator"
    by (auto simp: dzn_illegal_def)
  with assms show ?thesis
    unfolding dzn_illegal_def by (cases "loc_illegal locator" rule: option.exhaust
        [case_product illegal_handler.exhaust [of "the (loc_illegal locator)"]]) auto
qed

lemma dispatch_inv_enqueue [dispatch_intros]:
  assumes "dispatch_inv s" and "dzn_runtime_enqueue cfg body src tgt c s = Inr (s', fs)"
  shows "dispatch_inv s'"
  using assms(2)
proof (cases rule: enqueue_cases)
  case at_once
  with assms(1) show ?thesis by (auto intro: dispatch_intros)
next
  case (queued s1)
  then have "dispatch_inv s1" using assms(1) by (auto intro: dispatch_intros)
  with queued(3) show ?thesis by (auto intro: dispatch_inv_same)
qed

lemma dispatch_inv_flush [dispatch_intros]:
  assumes "dispatch_inv s" and "dzn_runtime_flush cfg body i s = Inr (s', fs)"
  shows "dispatch_inv s'"
  using assms(2)
proof (cases rule: flush_cases)
  case (event info c rest)
  from dispatch_inv_start [OF dispatch_inv_pop [OF assms(1) event(1,2)] event(3)] show ?thesis .
next
  case (deferred info tgt)
  with assms(1) show ?thesis by (auto intro: dispatch_inv_same)
qed (use assms(1) in simp_all)

lemma dispatch_inv_call [dispatch_intros]:
  "dispatch_inv s \<Longrightarrow> runtime_call cfg body ui c s = Inr (s', fs) \<Longrightarrow> dispatch_inv s'"
  by (cases c) (auto simp: dzn_runtime_event_def dest: illegal_Inr intro: dispatch_intros)

lemma dispatch_inv_step:
  assumes "dispatch_inv s" and "machine_step cfg body ui (s, st) = Inr (s', st')"
  shows "dispatch_inv s'"
  using assms(2,1)
  by (cases "(cfg, body, ui, (s, st))" rule: machine_step.cases) (auto intro: dispatch_intros)

lemma dispatch_inv_reaches:
  assumes "reaches cfg body ui start m" and "dispatch_inv (fst start)"
  shows "dispatch_inv (fst m)"
  using assms
proof (induction rule: reaches.induct)
  case (reaches_step m m')
  then show ?case using dispatch_inv_step [of "fst m" cfg body ui "snd m"] by (cases m') auto
qed

text \<open>A system at rest, before the first event.\<close>

definition at_rest :: "('c, 'u) sys \<Rightarrow> bool" where
  "at_rest s \<longleftrightarrow> rt_log s = [] \<and> (\<forall>t. queue_of s t = []) \<and> (\<forall>t. \<not> busy s t)"

lemma dispatch_inv_at_rest: "at_rest s \<Longrightarrow> dispatch_inv s"
  by (simp add: at_rest_def dispatch_inv_def occupied_after_def)

section \<open>The call stack\<close>

text \<open>Handlers that only update state and enqueue events.\<close>

primrec enqueues_only :: "('c, 'u) prog \<Rightarrow> bool" where
  "enqueues_only Return \<longleftrightarrow> True"
| "enqueues_only (Local f k) \<longleftrightarrow> (\<forall>u. enqueues_only (k u))"
| "enqueues_only (Call c p) \<longleftrightarrow> (\<exists>src tgt e. c = Enqueue src tgt e) \<and> enqueues_only p"

fun finishing :: "('c, 'u) prog frame list \<Rightarrow> addr list" where
  "finishing [] = []"
| "finishing (In_finish t # st) = t # finishing st"
| "finishing (_ # st) = finishing st"

fun frames_ok :: "('c, 'u) prog frame list \<Rightarrow> bool" where
  "frames_ok [] \<longleftrightarrow> True"
| "frames_ok (In_handler p # st) \<longleftrightarrow> enqueues_only p \<and> frames_ok st"
| "frames_ok (In_finish t # st) \<longleftrightarrow> t \<notin> set (finishing st) \<and> frames_ok st"
| "frames_ok (In_flush t # st) \<longleftrightarrow> t \<notin> set (finishing st) \<and> frames_ok st"

text \<open>A component is busy exactly while its finish is on the stack, and a flush of a component never
  sits above its finish.\<close>

definition stack_inv :: "('c, 'u) machine \<Rightarrow> bool" where
  "stack_inv m \<longleftrightarrow> frames_ok (snd m) \<and> (\<forall>t. busy (fst m) t \<longleftrightarrow> t \<in> set (finishing (snd m)))"

lemma finishing_append [simp]: "finishing (xs @ ys) = finishing xs @ finishing ys"
  by (induction xs rule: finishing.induct) auto

lemma busy_start:
  "dzn_runtime_start cfg i s = Inr s' \<Longrightarrow> \<not> busy s i \<and> (\<forall>t. busy s' t \<longleftrightarrow> t = i \<or> busy s t)"
  using handling_value [of cfg] by (auto simp: dzn_runtime_start_def busy_def split: if_splits)

lemma busy_push: "push_event tgt c s = Inr s' \<Longrightarrow> busy s' t \<longleftrightarrow> busy s t"
  by (auto simp: push_event_def busy_def split: if_splits)

lemma stack_inv_handle:
  assumes "stack_inv (s, st)" and "enqueues_only (body c)"
    and "dzn_runtime_handle_event cfg body i c s = Inr (s', fs)"
  shows "stack_inv (s', fs @ st)"
  using assms busy_start [of cfg i s s']
  by (auto simp: dzn_runtime_handle_event_def stack_inv_def)

lemma busy_deferred: "get_info s i = Inr info \<Longrightarrow> busy (put_info i (info\<lparr>rt_deferred := d\<rparr>) s) t \<longleftrightarrow> busy s t"
  by (auto simp: busy_def)

lemma stack_inv_enqueue:
  assumes inv: "stack_inv (s, st)" and "enqueues_only (body c)"
    and "dzn_runtime_enqueue cfg body src tgt c s = Inr (s', fs)"
  shows "stack_inv (s', fs @ st)"
  using assms(3)
proof (cases rule: enqueue_cases)
  case at_once
  from stack_inv_handle [OF inv assms(2) at_once(3)] show ?thesis .
next
  case (queued s1)
  then have "busy s' t \<longleftrightarrow> busy s t" for t
    using busy_push [OF queued(1)] busy_deferred [of s1 src] by auto
  with inv queued(2) show ?thesis by (simp add: stack_inv_def)
qed

lemma stack_inv_flush:
  assumes inv: "stack_inv (s, In_flush i # st)" and body: "\<And>c. enqueues_only (body c)"
    and flush: "dzn_runtime_flush cfg body i s = Inr (s', fs)"
  shows "stack_inv (s', fs @ st)"
  using flush
proof (cases rule: flush_cases)
  case (event info c rest)
  have "busy (log_event (Dequeued i c) (put_info i (info\<lparr>rt_queue := rest\<rparr>) s)) t \<longleftrightarrow> busy s t" for t
    using event(1) by (auto simp: busy_def)
  with inv body busy_start [OF event(3)] show ?thesis
    by (auto simp: stack_inv_def event(4))
next
  case (deferred info tgt)
  have same: "busy s' t \<longleftrightarrow> busy s t" for t
    using busy_deferred [OF deferred(1)] deferred(4) by simp
  moreover have "rt_handling tgt = 0 \<Longrightarrow> \<not> busy s' (rt_deferred info)"
    using deferred(5) by (simp add: busy_def)
  ultimately show ?thesis using inv deferred(6) by (auto simp: stack_inv_def)
qed (use inv in \<open>simp_all add: stack_inv_def\<close>)

lemma stack_inv_step:
  assumes inv: "stack_inv (s, st)" and body: "\<And>c. enqueues_only (body c)"
    and step: "machine_step cfg body ui (s, st) = Inr (s', st')"
  shows "stack_inv (s', st')"
proof (cases st)
  case Nil
  with step inv show ?thesis by simp
next
  case (Cons f rest)
  show ?thesis
  proof (cases f)
    case (In_handler p)
    show ?thesis
    proof (cases p)
      case (Call c q)
      with inv Cons In_handler have "stack_inv (s, In_handler q # rest)" and "\<exists>src tgt e. c = Enqueue src tgt e"
        by (auto simp: stack_inv_def)
      with step Cons In_handler Call stack_inv_enqueue [OF _ body] show ?thesis by auto
    qed (use step inv Cons In_handler in \<open>auto simp: stack_inv_def\<close>)
  next
    case (In_finish i)
    with step Cons obtain info where "get_info s i = Inr info"
      and "s' = log_event (Finished i) (put_info i (info\<lparr>rt_handling := 0\<rparr>) s)" and "st' = In_flush i # rest"
      by (auto simp: dzn_runtime_finish_def)
    with inv Cons In_finish show ?thesis by (auto simp: stack_inv_def)
  next
    case (In_flush i)
    with step Cons inv stack_inv_flush [OF _ body, of s i rest] show ?thesis by auto
  qed
qed

text \<open>Under the invariant no step fails the assertion of \<open>dzn_runtime_start\<close>.\<close>

lemma start_asserts:
  "dzn_runtime_start cfg i s = Inl (AssertFailed w) \<Longrightarrow> busy s i"
  by (auto simp: dzn_runtime_start_def busy_def get_info_def load_def split: if_splits option.splits)

lemma get_info_no_assert [simp]: "get_info s i \<noteq> Inl (AssertFailed w)"
  by (simp add: get_info_def load_def split: option.split)

lemma seq_Inl_iff: "seq m f = Inl e \<longleftrightarrow> m = Inl e \<or> (\<exists>x. m = Inr x \<and> f x = Inl e)"
  by (cases m) auto

lemma push_no_assert: "push_event tgt c s \<noteq> Inl (AssertFailed w)"
  by (auto simp: push_event_def seq_Inl_iff)

lemma handle_asserts:
  "dzn_runtime_handle_event cfg body i c s = Inl (AssertFailed w) \<Longrightarrow> busy s i"
  by (auto simp: dzn_runtime_handle_event_def seq_Inl_iff dest: start_asserts)

lemma enqueue_no_assert: "dzn_runtime_enqueue cfg body src tgt c s \<noteq> Inl (AssertFailed w)"
proof
  assume "dzn_runtime_enqueue cfg body src tgt c s = Inl (AssertFailed w)"
  then obtain info where "get_info s tgt = Inr info" "rt_handling info = 0"
    and "dzn_runtime_handle_event cfg body tgt c s = Inl (AssertFailed w)"
    unfolding dzn_runtime_enqueue_def
    by (auto simp: seq_Inl_iff push_no_assert split: if_splits)
  then show False using handle_asserts [of cfg body tgt c s w] by (simp add: busy_def)
qed

lemma flush_no_assert:
  assumes "\<not> busy s i"
  shows "dzn_runtime_flush cfg body i s \<noteq> Inl (AssertFailed w)"
proof
  assume fail: "dzn_runtime_flush cfg body i s = Inl (AssertFailed w)"
  then obtain info where info: "i \<noteq> NULL" "get_info s i = Inr info"
    by (auto simp: dzn_runtime_flush_def seq_Inl_iff split: if_splits)
  show False
  proof (cases "rt_queue_empty (rt_queue info)")
    case False
    then obtain c rest where "rt_queue info = c # rest" by (cases "rt_queue info") auto
    with fail info False have
      "dzn_runtime_handle_event cfg body i c
        (log_event (Dequeued i c) (put_info i (info\<lparr>rt_queue := rest\<rparr>) s)) = Inl (AssertFailed w)"
      by (auto simp: dzn_runtime_flush_def seq_Inl_iff)
    from handle_asserts [OF this] assms info show False by (auto simp: busy_def)
  next
    case True
    with fail info show False
      by (auto simp: dzn_runtime_flush_def Let_def seq_Inl_iff simp del: get_info_put_info split: if_splits)
  qed
qed

lemma step_no_assert:
  assumes inv: "stack_inv (s, st)"
  shows "machine_step cfg body ui (s, st) \<noteq> Inl (AssertFailed w)"
proof (cases st)
  case (Cons f rest)
  show ?thesis
  proof (cases f)
    case (In_handler p)
    with inv Cons show ?thesis
      by (cases p) (auto simp: stack_inv_def seq_Inl_iff enqueue_no_assert)
  next
    case (In_finish i)
    with Cons show ?thesis by (auto simp: seq_Inl_iff dzn_runtime_finish_def)
  next
    case (In_flush i)
    with inv Cons have "\<not> busy s i" by (auto simp: stack_inv_def)
    from flush_no_assert [OF this] In_flush Cons show ?thesis by (auto simp: seq_Inl_iff)
  qed
qed simp

lemma stack_inv_reaches:
  assumes "reaches cfg body ui start m" and "stack_inv start" and "\<And>c. enqueues_only (body c)"
  shows "stack_inv m"
  using assms(1,2)
proof (induction rule: reaches.induct)
  case (reaches_step m m')
  then show ?case
    using stack_inv_step [where body = body and cfg = cfg and ui = ui, OF _ assms(3),
        of "fst m" "snd m" "fst m'" "snd m'"] by simp
qed

lemma reaches_first_step:
  "reaches cfg body ui start m \<Longrightarrow> m = start \<or> (\<exists>m1. machine_step cfg body ui start = Inr m1 \<and>
     reaches cfg body ui m1 m)"
  by (induction rule: reaches.induct) (auto intro: reaches.intros)

lemma first_event_inv:
  assumes "at_rest s" and "\<And>c. enqueues_only (body c)"
    and "machine_step cfg body ui (s, [In_handler (Call (Event i e) Return)]) = Inr m"
  shows "stack_inv m"
proof -
  have rest: "stack_inv (s, [In_handler Return])"
    using assms(1) by (simp add: stack_inv_def at_rest_def)
  from assms(3) obtain s' fs where "dzn_runtime_handle_event cfg body i e s = Inr (s', fs)"
    and "m = (s', fs @ [In_handler Return])"
    by (auto simp: dzn_runtime_event_def)
  with stack_inv_handle [OF rest assms(2)] show ?thesis by simp
qed

section \<open>Properties of the dispatcher\<close>

text \<open>C21: in every state the runtime passes through, whatever the handlers do, each queue holds exactly
  the events queued for its component and not yet taken, in the order they were queued, and no
  component ever starts an event while it is handling another one.\<close>

theorem dispatch_order_and_exclusion:
  assumes "at_rest s" and "reaches cfg body ui (s, st) (s', st')"
  shows "queued t (rt_log s') = dequeued t (rt_log s') @ queue_of s' t \<and>
    occupied_after t (rt_log s') = Some (busy s' t)"
  using dispatch_inv_reaches [OF assms(2)] dispatch_inv_at_rest [OF assms(1)]
  by (simp add: dispatch_inv_def)

text \<open>C22: when the handlers only update state and enqueue events, an event delivered from outside to a
  system at rest never runs into the assertion that a component is already handling an event, and
  when the call returns every component is idle.\<close>

theorem run_to_completion:
  assumes "at_rest s" and "\<And>c. enqueues_only (body c)"
    and "reaches cfg body ui (s, [In_handler (Call (Event i e) Return)]) (s', st')"
  shows "machine_step cfg body ui (s', st') \<noteq> Inl (AssertFailed w) \<and> (st' = [] \<longrightarrow> \<not> busy s' t)"
proof -
  let ?start = "(s, [In_handler (Call (Event i e) Return)])"
  from reaches_first_step [OF assms(3)] show ?thesis
  proof
    assume "(s', st') = ?start"
    moreover have "dzn_runtime_handle_event cfg body i e s \<noteq> Inl (AssertFailed w)"
      using handle_asserts [of cfg body i e s w] assms(1) by (auto simp: at_rest_def)
    ultimately show ?thesis by (auto simp: dzn_runtime_event_def seq_Inl_iff)
  next
    assume "\<exists>m1. machine_step cfg body ui ?start = Inr m1 \<and> reaches cfg body ui m1 (s', st')"
    then obtain m1 where step: "machine_step cfg body ui ?start = Inr m1"
      and reach: "reaches cfg body ui m1 (s', st')" by blast
    have "stack_inv m1" by (rule first_event_inv [OF assms(1,2) step])
    from stack_inv_reaches [OF reach this assms(2)] have "stack_inv (s', st')" .
    from step_no_assert [OF this] this show ?thesis by (auto simp: stack_inv_def)
  qed
qed


text \<open>Handlers that call nothing: what they do to the components' own state.\<close>

primrec local_only :: "('c, 'u) prog \<Rightarrow> bool" where
  "local_only Return \<longleftrightarrow> True"
| "local_only (Local f k) \<longleftrightarrow> (\<forall>u. local_only (k u))"
| "local_only (Call c p) \<longleftrightarrow> False"

primrec local_effect :: "('c, 'u) prog \<Rightarrow> 'u \<Rightarrow> 'u" where
  "local_effect Return = (\<lambda>u. u)"
| "local_effect (Local f k) = (\<lambda>u. local_effect (k (f u)) (f u))"
| "local_effect (Call c p) = local_effect p"

text \<open>The state after a component has handled a list of queued events one by one.\<close>

definition handled :: "addr \<Rightarrow> 'c \<Rightarrow> 'c rt_event list" where
  "handled i c = [Dequeued i c, Started i, Finished i]"

lemma reaches_trans:
  "reaches cfg body ui m1 m2 \<Longrightarrow> reaches cfg body ui m2 m3 \<Longrightarrow> reaches cfg body ui m1 m3"
  by (rotate_tac, induction rule: reaches.induct) (auto intro: reaches.intros)

lemma reaches_one:
  "st \<noteq> [] \<Longrightarrow> machine_step cfg body ui (s, st) = Inr m \<Longrightarrow> reaches cfg body ui m m' \<Longrightarrow>
     reaches cfg body ui (s, st) m'"
  by (rule reaches_trans [of _ _ _ _ m]) (auto intro: reaches.intros)

lemma local_run:
  "local_only p \<Longrightarrow> reaches cfg body ui (s, In_handler p # st)
     (s\<lparr>rt_user := local_effect p (rt_user s)\<rparr>, st)"
proof (induction p arbitrary: s)
  case Return
  show ?case by (rule reaches_one [OF _ _ reaches_start]) simp_all
next
  case (Local f k)
  let ?s = "s\<lparr>rt_user := f (rt_user s)\<rparr>"
  have "reaches cfg body ui (?s, In_handler (k (f (rt_user s))) # st)
      (?s\<lparr>rt_user := local_effect (k (f (rt_user s))) (rt_user ?s)\<rparr>, st)"
    by (rule Local.IH) (use Local.prems in simp_all)
  from reaches_one [OF _ _ this] show ?case by simp
qed simp

text \<open>A handler that calls nothing runs to its end and leaves its component idle again.\<close>

lemma put_info_twice [simp]: "put_info i x (put_info i y s) = put_info i x s"
  by (simp add: put_info_def set_obj_def fun_upd_def cong: if_cong)

definition after_event :: "('c \<Rightarrow> ('c, 'u) prog) \<Rightarrow> addr \<Rightarrow> 'c \<Rightarrow> ('c, 'u) sys \<Rightarrow> ('c, 'u) sys" where
  "after_event body i c s = s\<lparr>rt_user := local_effect (body c) (rt_user s),
     rt_log := rt_log s @ [Started i, Finished i]\<rparr>"

lemma put_info_same: "get_info s i = Inr info \<Longrightarrow> put_info i info s = s"
proof -
  assume "get_info s i = Inr info"
  then have "(objs (rt_infos s))(i \<mapsto> info) = objs (rt_infos s)" by (intro fun_upd_idem) simp
  then show ?thesis by (simp add: put_info_def set_obj_def)
qed

lemma put_info_commute:
  "put_info i x (log_event e s) = log_event e (put_info i x s)"
  "put_info i x (s\<lparr>rt_user := u\<rparr>) = (put_info i x s)\<lparr>rt_user := u\<rparr>"
  "log_event e (s\<lparr>rt_user := u\<rparr>) = (log_event e s)\<lparr>rt_user := u\<rparr>"
  by (simp_all add: put_info_def log_event_def)

lemma handle_run:
  assumes "local_only (body c)" and "get_info s i = Inr info" and "rt_handling info = 0"
  shows "\<exists>s' fs. dzn_runtime_handle_event cfg body i c s = Inr (s', fs) \<and>
    reaches cfg body ui (s', fs @ st) (after_event body i c s, In_flush i # st)"
proof -
  define h where "h = (case coroutine_id cfg of None \<Rightarrow> -1 | Some cid \<Rightarrow> c_or cid (-1))"
  define s1 where "s1 = log_event (Started i) (put_info i (info\<lparr>rt_handling := h\<rparr>) s)"
  let ?u = "local_effect (body c) (rt_user s)"
  have "i \<noteq> NULL" using assms(2) by simp
  have start: "dzn_runtime_handle_event cfg body i c s = Inr (s1, [In_handler (body c), In_finish i])"
    using assms(2,3) by (simp add: dzn_runtime_handle_event_def dzn_runtime_start_def s1_def h_def)
  have "info\<lparr>rt_handling := 0\<rparr> = info" using assms(3) by simp
  then have "put_info i (info\<lparr>rt_handling := h, rt_handling := 0\<rparr>) s = s"
    using put_info_same [OF assms(2)] by simp
  then have finish: "dzn_runtime_finish i (s1\<lparr>rt_user := ?u\<rparr>) = Inr (after_event body i c s, [In_flush i])"
    using \<open>i \<noteq> NULL\<close>
    by (simp add: dzn_runtime_finish_def s1_def put_info_commute)
      (simp add: after_event_def log_event_def)
  have "rt_user s1 = rt_user s" by (simp add: s1_def)
  with local_run [OF assms(1), of cfg body ui s1 "In_finish i # st"]
  have "reaches cfg body ui (s1, In_handler (body c) # In_finish i # st) (s1\<lparr>rt_user := ?u\<rparr>, In_finish i # st)"
    by simp
  also have "reaches cfg body ui (s1\<lparr>rt_user := ?u\<rparr>, In_finish i # st) (after_event body i c s, In_flush i # st)"
    by (rule reaches_one [OF _ _ reaches_start]) (simp_all add: finish)
  finally (reaches_trans) show ?thesis using start by simp
qed

text \<open>Flushing a component whose queued events call nothing.\<close>

fun run_events :: "('c \<Rightarrow> ('c, 'u) prog) \<Rightarrow> addr \<Rightarrow> 'c list \<Rightarrow> 'u \<Rightarrow> 'u" where
  "run_events body i [] u = u"
| "run_events body i (c # cs) u = run_events body i cs (local_effect (body c) u)"

definition flushed :: "('c \<Rightarrow> ('c, 'u) prog) \<Rightarrow> addr \<Rightarrow> 'c rt_info \<Rightarrow> ('c, 'u) sys \<Rightarrow> ('c, 'u) sys" where
  "flushed body i info s = (put_info i (info\<lparr>rt_queue := []\<rparr>) s)
     \<lparr>rt_user := run_events body i (rt_queue info) (rt_user s),
      rt_log := rt_log s @ concat (map (handled i) (rt_queue info))\<rparr>"

lemma flush_empty:
  assumes "get_info s i = Inr info" and "rt_queue_empty (rt_queue info)" and "rt_deferred info = NULL"
  shows "reaches cfg body ui (s, In_flush i # st) (s, st)"
  by (rule reaches_one [OF _ _ reaches_start]) (use assms in \<open>simp_all add: dzn_runtime_flush_def\<close>)

lemma flush_run:
  assumes "\<And>c. c \<in> set (rt_queue info) \<Longrightarrow> local_only (body c)"
    and "get_info s i = Inr info" and "rt_handling info = 0" and "rt_deferred info = NULL"
    and "length (rt_queue info) < 256"
  shows "reaches cfg body ui (s, In_flush i # st) (flushed body i info s, st)"
  using assms
proof (induction "rt_queue info" arbitrary: s info st)
  case Nil
  then have same: "info\<lparr>rt_queue := []\<rparr> = info" by simp
  have "flushed body i info s = s"
    unfolding flushed_def same put_info_same [OF Nil.prems(2)] by (simp add: Nil.hyps [symmetric])
  with flush_empty [OF Nil.prems(2) _ Nil.prems(4)] show ?case by (simp add: Nil.hyps [symmetric])
next
  case (Cons c cs)
  let ?info = "info\<lparr>rt_queue := cs\<rparr>"
  define s1 where "s1 = log_event (Dequeued i c) (put_info i ?info s)"
  have i: "i \<noteq> NULL" using Cons.prems(2) by simp
  have queue: "rt_queue info = c # cs" using Cons.hyps(2) by simp
  have info1: "get_info s1 i = Inr ?info" using i by (simp add: s1_def)
  obtain s2 fs where handle: "dzn_runtime_handle_event cfg body i c s1 = Inr (s2, fs)"
    and run: "reaches cfg body ui (s2, fs @ In_flush i # st) (after_event body i c s1, In_flush i # In_flush i # st)"
    using handle_run [of body c s1 i ?info cfg ui "In_flush i # st"] Cons.prems(1,3) queue info1 by auto
  have "\<not> rt_queue_empty (rt_queue info)" using Cons.prems(5) queue by simp
  then have "machine_step cfg body ui (s, In_flush i # st) = Inr (s2, fs @ In_flush i # st)"
    using Cons.prems(2) queue handle i by (simp add: dzn_runtime_flush_def s1_def)
  from reaches_one [OF _ this run]
  have first: "reaches cfg body ui (s, In_flush i # st) (after_event body i c s1, In_flush i # In_flush i # st)"
    by simp
  have info2: "get_info (after_event body i c s1) i = Inr ?info"
    using info1 by (simp add: after_event_def get_info_def)
  have rest: "reaches cfg body ui (after_event body i c s1, In_flush i # In_flush i # st)
      (flushed body i ?info (after_event body i c s1), In_flush i # st)"
    by (rule Cons.hyps(1) [of ?info]) (use Cons.prems queue info2 in simp_all)
  have same: "flushed body i ?info (after_event body i c s1) = flushed body i info s"
    using i by (simp add: flushed_def after_event_def s1_def handled_def queue put_info_def log_event_def
        set_obj_def)
  have "get_info (flushed body i info s) i = Inr (info\<lparr>rt_queue := []\<rparr>)"
    using i by (simp add: flushed_def get_info_def put_info_def load_def)
  from flush_empty [OF this] Cons.prems(4)
  have "reaches cfg body ui (flushed body i info s, In_flush i # st) (flushed body i info s, st)"
    by simp
  with first rest show ?case unfolding same by (blast intro: reaches_trans)
qed

text \<open>C30: flushing an idle component that has fewer than 256 queued events, whose handlers call nothing, and no
  deferred target, delivers all of these events, oldest first, each one started and finished before the next, and
  leaves the queue empty and the other components as they were; the flush returns.  With 256 events it delivers none
  (\<open>flush_misses_256\<close>).\<close>

theorem flush_delivers_in_order:
  assumes "\<And>c. c \<in> set (rt_queue info) \<Longrightarrow> local_only (body c)"
    and "get_info s i = Inr info" and "rt_handling info = 0" and "rt_deferred info = NULL"
    and "length (rt_queue info) < 256"
  shows "\<exists>s'. reaches cfg body ui (s, [In_flush i]) (s', []) \<and> queue_of s' i = [] \<and>
    rt_log s' = rt_log s @ concat (map (handled i) (rt_queue info)) \<and>
    rt_user s' = run_events body i (rt_queue info) (rt_user s) \<and>
    (\<forall>t. t \<noteq> i \<longrightarrow> get_info s' t = get_info s t)"
  using flush_run [OF assms] assms(2)
  by (intro exI [of _ "flushed body i info s"])
    (simp add: flushed_def queue_of_def put_info_def get_info_def load_def)

text \<open>A dynamic queue of 256 events: its size has wrapped to zero, and a flush passes it over.\<close>

theorem flush_misses_256:
  assumes "get_info s i = Inr info" and "length (rt_queue info) = 256" and "rt_deferred info = NULL"
  shows "reaches cfg body ui (s, [In_flush i]) (s, [])"
  by (rule flush_empty [OF assms(1) _ assms(3)]) (simp add: assms(2))

text \<open>The states two components go through when one defers to the other.\<close>

lemma finish_defers:
  assumes "get_info s i = Inr info" and "rt_queue info = []" and "rt_deferred info = t"
    and "t \<noteq> i" and "get_info s t = Inr tinfo" and "rt_handling tinfo = 0"
  shows "reaches cfg body ui (s, In_finish i # st)
    (put_info i (info\<lparr>rt_handling := 0, rt_deferred := NULL\<rparr>) (log_event (Finished i) s), In_flush t # st)"
proof -
  define s1 where "s1 = log_event (Finished i) (put_info i (info\<lparr>rt_handling := 0\<rparr>) s)"
  have i: "i \<noteq> NULL" "t \<noteq> NULL" using assms(1,5) by auto
  have "machine_step cfg body ui (s, In_finish i # st) = Inr (s1, In_flush i # st)"
    using assms(1) by (simp add: dzn_runtime_finish_def s1_def)
  moreover have "machine_step cfg body ui (s1, In_flush i # st) =
      Inr (put_info i (info\<lparr>rt_handling := 0, rt_deferred := NULL\<rparr>) (log_event (Finished i) s), In_flush t # st)"
    using assms i by (simp add: dzn_runtime_flush_def s1_def Let_def put_info_commute)
  ultimately show ?thesis
    by (blast intro: reaches_one reaches_start)
qed

lemma enqueue_defers:
  assumes "get_info s a = Inr ainfo" and "rt_performs_flush ainfo" and "a \<noteq> b"
    and "get_info s b = Inr binfo"
  shows "reaches cfg body ui (s, In_handler (Call (Enqueue a b e) p) # st)
    (put_info a (ainfo\<lparr>rt_deferred := b\<rparr>) (log_event (Queued b e)
       (put_info b (binfo\<lparr>rt_queue := rt_queue binfo @ [e]\<rparr>) s)), In_handler p # st)"
proof (rule reaches_one [OF _ _ reaches_start])
  have "a \<noteq> NULL" "b \<noteq> NULL" using assms(1,4) by auto
  with assms show "machine_step cfg body ui (s, In_handler (Call (Enqueue a b e) p) # st) =
      Inr (put_info a (ainfo\<lparr>rt_deferred := b\<rparr>) (log_event (Queued b e)
       (put_info b (binfo\<lparr>rt_queue := rt_queue binfo @ [e]\<rparr>) s)), In_handler p # st)"
    by (auto simp: dzn_runtime_enqueue_def push_event_def)
qed simp

lemma return_run_step: "reaches cfg body ui (s, In_handler Return # st) (s, st)"
  by (rule reaches_one [OF _ _ reaches_start]) simp_all

lemma reaches_both:
  "reaches cfg body ui m1 m2 \<Longrightarrow> reaches cfg body ui m2 m3 \<Longrightarrow> reaches cfg body ui m3 m4 \<Longrightarrow>
     reaches cfg body ui m1 m4"
  by (blast intro: reaches_trans)

text \<open>Handlers that update the components' own state and send events to one component, and the events they send.\<close>

primrec sends_only :: "addr \<Rightarrow> addr \<Rightarrow> ('c, 'u) prog \<Rightarrow> bool" where
  "sends_only a b Return \<longleftrightarrow> True"
| "sends_only a b (Local f k) \<longleftrightarrow> (\<forall>u. sends_only a b (k u))"
| "sends_only a b (Call c p) \<longleftrightarrow> (\<exists>e. c = Enqueue a b e) \<and> sends_only a b p"

primrec sent :: "('c, 'u) prog \<Rightarrow> 'u \<Rightarrow> 'c list" where
  "sent Return = (\<lambda>u. [])"
| "sent (Local f k) = (\<lambda>u. sent (k (f u)) (f u))"
| "sent (Call c p) = (\<lambda>u. case c of Enqueue src tgt e \<Rightarrow> e # sent p u | _ \<Rightarrow> sent p u)"

lemma sends_run:
  assumes "sends_only a b p" and "a \<noteq> b" and "get_info s a = Inr ainfo" and "rt_performs_flush ainfo"
    and "get_info s b = Inr binfo"
  shows "\<exists>s'. reaches cfg body ui (s, In_handler p # st) (s', st) \<and>
    get_info s' a = Inr (if sent p (rt_user s) = [] then ainfo else ainfo\<lparr>rt_deferred := b\<rparr>) \<and>
    get_info s' b = Inr (binfo\<lparr>rt_queue := rt_queue binfo @ sent p (rt_user s)\<rparr>) \<and>
    rt_user s' = local_effect p (rt_user s) \<and> rt_log s' = rt_log s @ map (Queued b) (sent p (rt_user s)) \<and>
    (\<forall>t. t \<notin> {a, b} \<longrightarrow> get_info s' t = get_info s t)"
  using assms
proof (induction p arbitrary: s ainfo binfo)
  case Return
  then show ?case using return_run_step [of cfg body ui s st] by (intro exI [of _ s]) simp
next
  case (Local f k)
  let ?u = "f (rt_user s)" and ?s = "s\<lparr>rt_user := f (rt_user s)\<rparr>"
  from Local.IH [of "k ?u" ?s ainfo binfo] Local.prems obtain s' where s':
    "reaches cfg body ui (?s, In_handler (k ?u) # st) (s', st)"
    "get_info s' a = Inr (if sent (k ?u) ?u = [] then ainfo else ainfo\<lparr>rt_deferred := b\<rparr>)"
    "get_info s' b = Inr (binfo\<lparr>rt_queue := rt_queue binfo @ sent (k ?u) ?u\<rparr>)"
    "rt_user s' = local_effect (k ?u) ?u" "rt_log s' = rt_log s @ map (Queued b) (sent (k ?u) ?u)"
    "\<forall>t. t \<notin> {a, b} \<longrightarrow> get_info s' t = get_info s t" by auto
  from reaches_one [OF _ _ s'(1), of "In_handler (Local f k) # st" s] s'(2-) show ?case
    by (intro exI [of _ s']) simp
next
  case (Call c p)
  then obtain e where e: "c = Enqueue a b e" by auto
  have nn: "a \<noteq> NULL" "b \<noteq> NULL" using Call.prems(3,5) by auto
  let ?a = "ainfo\<lparr>rt_deferred := b\<rparr>" and ?b = "binfo\<lparr>rt_queue := rt_queue binfo @ [e]\<rparr>"
  define s1 where "s1 = put_info a ?a (log_event (Queued b e) (put_info b ?b s))"
  from enqueue_defers [OF Call.prems(3,4,2,5)]
  have first: "reaches cfg body ui (s, In_handler (Call c p) # st) (s1, In_handler p # st)"
    unfolding e s1_def .
  have s1: "get_info s1 a = Inr ?a" "get_info s1 b = Inr ?b" "rt_user s1 = rt_user s" "rt_log s1 = rt_log s @ [Queued b e]"
    "\<And>t. t \<notin> {a, b} \<Longrightarrow> get_info s1 t = get_info s t"
    using Call.prems(2) nn by (simp_all add: s1_def)
  from Call.IH [OF _ Call.prems(2) s1(1) _ s1(2)] Call.prems e s1(3) obtain s' where s':
    "reaches cfg body ui (s1, In_handler p # st) (s', st)"
    "get_info s' a = Inr (if sent p (rt_user s) = [] then ?a else ?a\<lparr>rt_deferred := b\<rparr>)"
    "get_info s' b = Inr (?b\<lparr>rt_queue := rt_queue ?b @ sent p (rt_user s)\<rparr>)"
    "rt_user s' = local_effect p (rt_user s)" "rt_log s' = rt_log s1 @ map (Queued b) (sent p (rt_user s))"
    "\<forall>t. t \<notin> {a, b} \<longrightarrow> get_info s' t = get_info s1 t"
    by (auto simp del: get_info_Inr_iff)
  from reaches_trans [OF first s'(1)] s'(2-) s1(4,5) e show ?case
    by (intro exI [of _ s']) (simp split: if_splits)
qed

text \<open>C31: a flushing component whose handler sends one or more events to an idle component, and nothing to any other,
  has them wait until its own event is finished; they are then delivered, behind what the idle component had queued
  already and in the order in which they were sent, before the sender's call returns.  The handlers of the events call
  nothing, fewer than 256 are in the queue, and no target is deferred by the idle component.  A handler that sends
  to two idle components loses the first one's delivery (\<open>deferred_target_lost\<close>).\<close>

theorem deferred_event_delivered:
  assumes "get_info s a = Inr ainfo" and "rt_performs_flush ainfo" and "rt_queue ainfo = []"
    and "a \<noteq> b" and "get_info s b = Inr binfo" and "rt_handling binfo = 0" and "rt_deferred binfo = NULL"
    and "sends_only a b p" and "sent p (rt_user s) \<noteq> []"
    and "length (rt_queue binfo) + length (sent p (rt_user s)) < 256"
    and "\<And>e. e \<in> set (rt_queue binfo @ sent p (rt_user s)) \<Longrightarrow> local_only (body e)"
  shows "\<exists>s'. reaches cfg body ui (s, [In_handler p, In_finish a]) (s', []) \<and>
    rt_log s' = rt_log s @ map (Queued b) (sent p (rt_user s)) @ [Finished a] @
      concat (map (handled b) (rt_queue binfo @ sent p (rt_user s))) \<and>
    rt_user s' = run_events body b (rt_queue binfo @ sent p (rt_user s)) (local_effect p (rt_user s)) \<and>
    queue_of s' a = [] \<and> queue_of s' b = [] \<and> \<not> busy s' a \<and> \<not> busy s' b"
proof -
  let ?es = "sent p (rt_user s)"
  let ?a = "ainfo\<lparr>rt_deferred := b\<rparr>" and ?b = "binfo\<lparr>rt_queue := rt_queue binfo @ ?es\<rparr>"
  have nn: "a \<noteq> NULL" "b \<noteq> NULL" using assms(1,5) by auto
  obtain s1 where s1: "reaches cfg body ui (s, [In_handler p, In_finish a]) (s1, [In_finish a])"
      "get_info s1 a = Inr ?a" "get_info s1 b = Inr ?b" "rt_user s1 = local_effect p (rt_user s)"
      "rt_log s1 = rt_log s @ map (Queued b) ?es"
    using sends_run [OF assms(8,4,1,2,5), of cfg body ui "[In_finish a]"] assms(9)
    by (auto simp del: get_info_Inr_iff)
  define s2 where "s2 = put_info a (?a\<lparr>rt_handling := 0, rt_deferred := NULL\<rparr>) (log_event (Finished a) s1)"
  have s2: "get_info s2 b = Inr ?b" using s1(3) assms(4) nn by (simp add: s2_def)
  have "reaches cfg body ui (s1, [In_finish a]) (s2, [In_flush b])"
    using finish_defers [OF s1(2) _ _ _ s1(3), of cfg body ui "[]"] assms(3,4,6) by (simp add: s2_def)
  moreover have "length (rt_queue ?b) < 256" using assms(10) by simp
  then have "reaches cfg body ui (s2, [In_flush b]) (flushed body b ?b s2, [])"
    by (intro flush_run) (use assms(6,7,11) s2 in simp_all)
  ultimately have "reaches cfg body ui (s, [In_handler p, In_finish a]) (flushed body b ?b s2, [])"
    using s1(1) by (blast intro: reaches_trans)
  moreover have "rt_log (flushed body b ?b s2) = rt_log s @ map (Queued b) ?es @ [Finished a] @
      concat (map (handled b) (rt_queue binfo @ ?es))"
    "rt_user (flushed body b ?b s2) = run_events body b (rt_queue binfo @ ?es) (local_effect p (rt_user s))"
    by (simp_all add: flushed_def s2_def s1(4,5))
  moreover have "queue_of (flushed body b ?b s2) a = [] \<and> queue_of (flushed body b ?b s2) b = [] \<and>
      \<not> busy (flushed body b ?b s2) a \<and> \<not> busy (flushed body b ?b s2) b"
    using assms(3,4,6) by (simp add: queue_of_def busy_def flushed_def s2_def put_info_def log_event_def)
  ultimately show ?thesis by blast
qed

text \<open>A component has one \<open>deferred\<close> target: when its handler sends events to two idle components,
  the second target replaces the first, and the call returns with the first one's event still in its
  queue although it is idle.\<close>

theorem deferred_target_lost:
  assumes "get_info s a = Inr ainfo" and "rt_performs_flush ainfo" and "rt_queue ainfo = []"
    and "distinct [a, b, c]"
    and "get_info s b = Inr binfo" and "rt_handling binfo = 0" and "rt_queue binfo = []"
    and "get_info s c = Inr cinfo" and "rt_handling cinfo = 0" and "rt_queue cinfo = []"
    and "rt_deferred cinfo = NULL" and "local_only (body f)"
  shows "\<exists>s'. reaches cfg body ui
      (s, [In_handler (Call (Enqueue a b e) (Call (Enqueue a c f) Return)), In_finish a]) (s', []) \<and>
    queue_of s' b = [e] \<and> \<not> busy s' b \<and>
    rt_log s' = rt_log s @ [Queued b e, Queued c f, Finished a, Dequeued c f, Started c, Finished c]"
proof -
  have nn: "a \<noteq> NULL" "b \<noteq> NULL" "c \<noteq> NULL" and dist: "a \<noteq> b" "a \<noteq> c" "b \<noteq> c"
    using assms(1,4,5,8) by auto
  let ?a = "ainfo\<lparr>rt_deferred := b\<rparr>" and ?a' = "ainfo\<lparr>rt_deferred := c\<rparr>"
    and ?b = "binfo\<lparr>rt_queue := [e]\<rparr>" and ?c = "cinfo\<lparr>rt_queue := [f]\<rparr>"
  define s1 where "s1 = put_info a ?a (log_event (Queued b e) (put_info b ?b s))"
  define s2 where "s2 = put_info a ?a' (log_event (Queued c f) (put_info c ?c s1))"
  define s3 where "s3 = put_info a (?a'\<lparr>rt_handling := 0, rt_deferred := NULL\<rparr>) (log_event (Finished a) s2)"
  have s1: "get_info s1 a = Inr ?a" "get_info s1 c = Inr cinfo"
    using dist nn assms(8) by (simp_all add: s1_def)
  have s2: "get_info s2 a = Inr ?a'" "get_info s2 c = Inr ?c"
    using dist nn by (simp_all add: s2_def)
  have s3: "get_info s3 c = Inr ?c" using s2(2) dist nn by (simp add: s3_def)
  let ?start = "(s, [In_handler (Call (Enqueue a b e) (Call (Enqueue a c f) Return)), In_finish a])"
  have "reaches cfg body ui ?start (s1, [In_handler (Call (Enqueue a c f) Return), In_finish a])"
    using enqueue_defers [OF assms(1,2) dist(1) assms(5), of cfg body ui e "Call (Enqueue a c f) Return"
        "[In_finish a]"] assms(7)
    by (simp add: s1_def)
  also have "reaches cfg body ui (s1, [In_handler (Call (Enqueue a c f) Return), In_finish a])
      (s2, [In_handler Return, In_finish a])"
    using enqueue_defers [OF s1(1) _ dist(2) s1(2), of cfg body ui f Return "[In_finish a]"] assms(2,10)
    by (simp add: s2_def)
  finally (reaches_trans) have "reaches cfg body ui ?start (s2, [In_handler Return, In_finish a])" .
  from reaches_both [OF this return_run_step finish_defers [OF s2(1) _ _ _ s2(2)]]
  have "reaches cfg body ui ?start (s3, [In_flush c])"
    using assms(3,9) dist by (simp add: s3_def)
  moreover have "reaches cfg body ui (s3, [In_flush c]) (flushed body c ?c s3, [])"
    by (rule flush_run) (use assms s3 in simp_all)
  ultimately have "reaches cfg body ui ?start (flushed body c ?c s3, [])"
    by (rule reaches_trans)
  moreover have "rt_log (flushed body c ?c s3) =
      rt_log s @ [Queued b e, Queued c f, Finished a, Dequeued c f, Started c, Finished c]"
    by (simp add: flushed_def handled_def s3_def s2_def s1_def)
  moreover have "queue_of (flushed body c ?c s3) b = [e] \<and> \<not> busy (flushed body c ?c s3) b"
    using dist assms(6)
    by (simp add: queue_of_def busy_def flushed_def s3_def s2_def s1_def put_info_def log_event_def)
  ultimately show ?thesis by blast
qed

text \<open>With coroutines, \<open>dzn_coroutine_id () || -1\<close> is a truth value: the identity of the coroutine
  that handles an event is never stored, \<open>handling\<close> is one for all of them.\<close>

lemma handling_loses_coroutine:
  assumes "dzn_runtime_start (cfg\<lparr>coroutine_id := Some cid\<rparr>) i s = Inr s'"
  shows "\<exists>info. get_info s' i = Inr info \<and> rt_handling info = 1"
  using assms by (auto simp: dzn_runtime_start_def c_or_def split: if_splits)

text \<open>An illegal event reaches the handler of the component's locator; when the locator was made by
  \<open>dzn_locator_clone\<close>, that handler is NULL and the program jumps to it.\<close>

theorem illegal_on_clone:
  assumes "never_NULL mcfg" and "dzn_locator_clone depth mcfg original = Some (Inr clone)"
    and "get_info s i = Inr info" and "load (rt_locators s) (rt_locator info) = Inr clone"
  shows "machine_step cfg body ui (s, In_handler (Call (Illegal i) p) # st) = Inl NullCall"
proof -
  obtain m where "clone = zero_locator\<lparr>loc_services := m\<rparr>"
    using clone_steps [OF assms(1,2)] by metis
  then have "loc_illegal clone = None" by (simp add: zero_locator_def)
  then show ?thesis
    by (simp add: dzn_illegal_def assms(3,4) del: get_info_Inr_iff load_Inr_iff)
qed


section \<open>Examples\<close>

text \<open>Three components: 1 flushes; 2 and 3 do not.  A closure is a number, its handler adds it to the
  state.\<close>

definition idle_info :: "bool \<Rightarrow> nat rt_info" where
  "idle_info flushes = \<lparr>rt_locator = 1, rt_handling = 0, rt_performs_flush = flushes, rt_deferred = NULL,
     rt_queue = []\<rparr>"

definition three_components :: "(nat, nat) sys" where
  "three_components =
     \<lparr>rt_infos = \<lparr>objs = [1 \<mapsto> idle_info True, 2 \<mapsto> idle_info False, 3 \<mapsto> idle_info False], fresh = 4\<rparr>,
      rt_locators = \<lparr>objs = [1 \<mapsto> zero_locator\<lparr>loc_services := map_k\<rparr>], fresh = 2\<rparr>,
      rt_user = 0, rt_log = []\<rparr>"

definition adding :: "nat \<Rightarrow> (nat, nat) prog" where
  "adding n = Local (\<lambda>u. u + n) (\<lambda>_. Return)"

definition no_coroutines :: rt_config where
  "no_coroutines = \<lparr>coroutine_id = None\<rparr>"

lemma adding_simple [simp]: "enqueues_only (adding n)" "local_only (adding n)"
  by (simp_all add: adding_def)

lemma three_infos [simp]:
  "get_info three_components 1 = Inr (idle_info True)"
  "get_info three_components (Suc 0) = Inr (idle_info True)"
  "get_info three_components 2 = Inr (idle_info False)"
  "get_info three_components 3 = Inr (idle_info False)"
  by (simp_all add: three_components_def get_info_def)

lemma idle_simps [simp]:
  "rt_handling (idle_info f) = 0" "rt_deferred (idle_info f) = NULL" "rt_queue (idle_info f) = []"
  "rt_performs_flush (idle_info f) = f" "rt_locator (idle_info f) = 1"
  by (simp_all add: idle_info_def)

lemma three_at_rest: "at_rest three_components"
  by (auto simp: at_rest_def three_components_def queue_of_def busy_def split: if_splits option.splits)

definition two_started :: "(nat, nat) sys" where
  "two_started = log_event (Started 2) (put_info 2 (idle_info False\<lparr>rt_handling := -1\<rparr>) three_components)"

lemma two_reached:
  "reaches no_coroutines adding adding (three_components, [In_handler (Call (Event 2 5) Return)])
     (two_started, [In_handler (adding 5), In_finish 2, In_handler Return])"
  by (rule reaches_one [OF _ _ reaches_start])
    (simp_all add: dzn_runtime_event_def dzn_runtime_handle_event_def dzn_runtime_start_def
      two_started_def no_coroutines_def)

theorem dispatch_order_and_exclusion_witness:
  "occupied_after 2 (rt_log two_started) = Some (busy two_started 2)"
  using dispatch_order_and_exclusion [OF three_at_rest two_reached] by blast

theorem run_to_completion_witness:
  "machine_step no_coroutines adding adding
     (two_started, [In_handler (adding 5), In_finish 2, In_handler Return])
       \<noteq> Inl (AssertFailed ''component already handling an event'')"
  using run_to_completion [OF three_at_rest _ two_reached] by simp

theorem flush_delivers_in_order_witness:
  "\<exists>s'. reaches no_coroutines adding adding
      (put_info 2 (idle_info False\<lparr>rt_queue := [3, 4]\<rparr>) three_components, [In_flush 2]) (s', []) \<and>
    rt_user s' = 7 \<and> rt_log s' = [Dequeued 2 3, Started 2, Finished 2, Dequeued 2 4, Started 2, Finished 2]"
  using flush_delivers_in_order [of "idle_info False\<lparr>rt_queue := [3, 4]\<rparr>" adding
      "put_info 2 (idle_info False\<lparr>rt_queue := [3, 4]\<rparr>) three_components" 2 no_coroutines adding]
  by (auto simp: handled_def adding_def three_components_def)

text \<open>The handler of component 1 sends two events to component 2 and adds 1 between them.\<close>

theorem deferred_event_delivered_witness:
  "\<exists>s'. reaches no_coroutines adding adding (three_components,
      [In_handler (Call (Enqueue 1 2 5) (Local Suc (\<lambda>u. Call (Enqueue 1 2 (u + 5)) Return))), In_finish 1]) (s', []) \<and>
    rt_log s' = [Queued 2 5, Queued 2 6, Finished 1, Dequeued 2 5, Started 2, Finished 2, Dequeued 2 6, Started 2, Finished 2] \<and>
    rt_user s' = 12"
  using deferred_event_delivered [of three_components 1 "idle_info True" 2 "idle_info False"
      "Call (Enqueue 1 2 5) (Local Suc (\<lambda>u. Call (Enqueue 1 2 (u + 5)) Return))" adding no_coroutines adding]
  by (auto simp: no_coroutines_def three_components_def handled_def adding_def)

text \<open>A queue that looks empty.\<close>

theorem flush_misses_256_witness:
  "reaches no_coroutines adding adding
     (put_info 2 (idle_info False\<lparr>rt_queue := replicate 256 3\<rparr>) three_components, [In_flush 2])
     (put_info 2 (idle_info False\<lparr>rt_queue := replicate 256 3\<rparr>) three_components, [])"
  by (rule flush_misses_256 [where info = "idle_info False\<lparr>rt_queue := replicate 256 3\<rparr>"]) simp_all

theorem deferred_target_lost_witness:
  "\<exists>s'. reaches no_coroutines adding adding
      (three_components, [In_handler (Call (Enqueue 1 2 5) (Call (Enqueue 1 3 6) Return)), In_finish 1]) (s', []) \<and>
    queue_of s' 2 = [5] \<and> \<not> busy s' 2"
  using deferred_target_lost [of three_components 1 "idle_info True" 2 3 "idle_info False" "idle_info False"
      adding 6 no_coroutines adding 5]
  by (auto simp: no_coroutines_def)

lemma handling_loses_coroutine_witness:
  "\<exists>s' info. dzn_runtime_start (no_coroutines\<lparr>coroutine_id := Some 42\<rparr>) 2 three_components = Inr s' \<and>
     get_info s' 2 = Inr info \<and> rt_handling info = 1"
proof -
  obtain s' where s': "dzn_runtime_start (no_coroutines\<lparr>coroutine_id := Some 42\<rparr>) 2 three_components = Inr s'"
    by (simp add: dzn_runtime_start_def)
  with handling_loses_coroutine [OF s'] show ?thesis by blast
qed

theorem illegal_on_clone_witness:
  "machine_step no_coroutines adding adding
     (three_components, [In_handler (Call (Illegal 1) Return)]) = Inl NullCall"
  by (rule illegal_on_clone [OF _ clone_k three_infos(1)]) (simp_all add: three_components_def)

end
