(* ===== verification/Coroutine.thy ===== *)
theory Coroutine
  imports Prelude
begin

text \<open>
  Coroutines of the C runtime, \<open>runtime/c/coroutine.c\<close>: a thin layer over GNU Pth.

  Pth is not part of the repository.  Its functions are a parameter, a \<open>pth_lib\<close> over a state
  \<open>'w\<close>; \<open>pth_documented\<close> states what pth(3) promises of them and what the runtime relies on: a
  spawned thread is new and has no key values, a yield to another live thread runs it next, a yield to
  the caller or to a thread that is gone fails and returns at once, and a key has one value per thread.
  \<open>tiny_pth\<close> is a table of threads that keeps these promises.

  The identity of a coroutine and its data are the values of two keys.
\<close>

type_synonym tid = nat

record 'w pth_lib =
  pth_init :: "'w \<Rightarrow> bool \<times> 'w"
  pth_key_create :: "'w \<Rightarrow> nat option \<times> 'w"
  pth_self :: "'w \<Rightarrow> tid"
  pth_spawn :: "'w \<Rightarrow> tid \<times> 'w"
  pth_yield :: "tid \<Rightarrow> 'w \<Rightarrow> bool \<times> 'w"
  pth_exit :: "'w \<Rightarrow> 'w"
  pth_key_getdata :: "nat \<Rightarrow> 'w \<Rightarrow> int"
  pth_key_setdata :: "nat \<Rightarrow> int \<Rightarrow> 'w \<Rightarrow> bool \<times> 'w"

text \<open>The static variables of \<open>coroutine.c\<close> and the state of the library.\<close>

record 'w coroutines =
  co_world :: 'w
  id_key :: nat
  data_key :: nat

section \<open>Operations\<close>

definition dzn_coroutine_self :: "'w pth_lib \<Rightarrow> 'w coroutines \<Rightarrow> tid" where
  "dzn_coroutine_self lib co = pth_self lib (co_world co)"

definition dzn_coroutine_create :: "'w pth_lib \<Rightarrow> 'w coroutines \<Rightarrow> tid \<times> 'w coroutines" where
  "dzn_coroutine_create lib co =
     (let (t, w) = pth_spawn lib (co_world co) in (t, co\<lparr>co_world := w\<rparr>))"

definition dzn_coroutine_yield_to :: "'w pth_lib \<Rightarrow> tid \<Rightarrow> 'w coroutines \<Rightarrow> bool \<times> 'w coroutines" where
  "dzn_coroutine_yield_to lib coroutine co =
     (let (ok, w) = pth_yield lib coroutine (co_world co) in (ok, co\<lparr>co_world := w\<rparr>))"

definition dzn_coroutine_id :: "'w pth_lib \<Rightarrow> 'w coroutines \<Rightarrow> int" where
  "dzn_coroutine_id lib co = pth_key_getdata lib (id_key co) (co_world co)"

definition dzn_coroutine_set_id :: "'w pth_lib \<Rightarrow> int \<Rightarrow> 'w coroutines \<Rightarrow> bool \<times> 'w coroutines" where
  "dzn_coroutine_set_id lib i co =
     (let (ok, w) = pth_key_setdata lib (id_key co) i (co_world co) in (ok, co\<lparr>co_world := w\<rparr>))"

definition dzn_coroutine_data :: "'w pth_lib \<Rightarrow> 'w coroutines \<Rightarrow> int" where
  "dzn_coroutine_data lib co = pth_key_getdata lib (data_key co) (co_world co)"

definition dzn_coroutine_set_data :: "'w pth_lib \<Rightarrow> int \<Rightarrow> 'w coroutines \<Rightarrow> bool \<times> 'w coroutines" where
  "dzn_coroutine_set_data lib data co =
     (let (ok, w) = pth_key_setdata lib (data_key co) data (co_world co) in (ok, co\<lparr>co_world := w\<rparr>))"

definition dzn_coroutine_init :: "'w pth_lib \<Rightarrow> 'w coroutines \<Rightarrow> int \<times> 'w coroutines" where
  "dzn_coroutine_init lib co =
     (let (ok, w) = pth_init lib (co_world co); co = co\<lparr>co_world := w\<rparr> in
      if \<not> ok then (-1, co)
      else case pth_key_create lib (co_world co) of
        (None, w) \<Rightarrow> (-1, co\<lparr>co_world := w\<rparr>)
      | (Some k, w) \<Rightarrow>
          (let co = co\<lparr>co_world := w, id_key := k\<rparr> in
           case pth_key_create lib (co_world co) of
             (None, w) \<Rightarrow> (-1, co\<lparr>co_world := w\<rparr>)
           | (Some k, w) \<Rightarrow>
               (let co = co\<lparr>co_world := w, data_key := k\<rparr>;
                    (ok, co) = dzn_coroutine_set_id lib (-1) co
                in (if \<not> ok then -1 else 0, co))))"

section \<open>What the library documents\<close>

definition pth_documented ::
    "'w pth_lib \<Rightarrow> ('w \<Rightarrow> tid set) \<Rightarrow> ('w \<Rightarrow> tid \<Rightarrow> nat \<Rightarrow> int) \<Rightarrow> bool" where
  "pth_documented lib alive key_of \<longleftrightarrow>
     (\<forall>w. pth_self lib w \<in> alive w \<longrightarrow>
       (\<forall>k. pth_key_getdata lib k w = key_of w (pth_self lib w) k) \<and>
       (\<forall>k v. \<exists>w'. pth_key_setdata lib k v w = (True, w') \<and> alive w' = alive w \<and>
          pth_self lib w' = pth_self lib w \<and>
          key_of w' = (key_of w)(pth_self lib w := (key_of w (pth_self lib w))(k := v))) \<and>
       (\<exists>t w'. pth_spawn lib w = (t, w') \<and> t \<noteq> NULL \<and> t \<notin> alive w \<and> alive w' = insert t (alive w) \<and>
          pth_self lib w' = pth_self lib w \<and> key_of w' = (key_of w)(t := (\<lambda>_. 0))) \<and>
       (\<forall>t. t \<in> alive w \<longrightarrow> t \<noteq> pth_self lib w \<longrightarrow>
          (\<exists>w'. pth_yield lib t w = (True, w') \<and> alive w' = alive w \<and> pth_self lib w' = t \<and>
             key_of w' = key_of w)) \<and>
       (\<forall>t. t \<notin> alive w \<or> t = pth_self lib w \<longrightarrow>
          pth_yield lib t w = (False, w)))"

text \<open>The same promises for the runtime's own layer.\<close>

definition co_ok :: "'w pth_lib \<Rightarrow> ('w \<Rightarrow> tid set) \<Rightarrow> 'w coroutines \<Rightarrow> bool" where
  "co_ok lib alive co \<longleftrightarrow>
     pth_self lib (co_world co) \<in> alive (co_world co) \<and> id_key co \<noteq> data_key co"

lemma pth_documentedD:
  assumes "pth_documented lib alive key_of" and "pth_self lib w \<in> alive w"
  shows "pth_key_getdata lib k w = key_of w (pth_self lib w) k"
    and "\<exists>w'. pth_key_setdata lib k v w = (True, w') \<and> alive w' = alive w \<and>
      pth_self lib w' = pth_self lib w \<and>
      key_of w' = (key_of w)(pth_self lib w := (key_of w (pth_self lib w))(k := v))"
    and "\<exists>t w'. pth_spawn lib w = (t, w') \<and> t \<noteq> NULL \<and> t \<notin> alive w \<and> alive w' = insert t (alive w) \<and>
      pth_self lib w' = pth_self lib w \<and> key_of w' = (key_of w)(t := (\<lambda>_. 0))"
    and "t \<in> alive w \<Longrightarrow> t \<noteq> pth_self lib w \<Longrightarrow>
      \<exists>w'. pth_yield lib t w = (True, w') \<and> alive w' = alive w \<and> pth_self lib w' = t \<and> key_of w' = key_of w"
    and "t \<notin> alive w \<or> t = pth_self lib w \<Longrightarrow> pth_yield lib t w = (False, w)"
  using assms unfolding pth_documented_def by auto


section \<open>A library that keeps the promises\<close>

text \<open>Threads are numbered from one; key values are a table.  A thread that ends hands over to the oldest
  one that is left.\<close>

record tiny =
  tiny_self :: tid
  tiny_next :: tid
  tiny_gone :: "tid list"
  tiny_keys :: nat
  tiny_values :: "tid \<Rightarrow> nat \<Rightarrow> int"

definition tiny_alive :: "tiny \<Rightarrow> tid set" where
  "tiny_alive w = {t. 0 < t \<and> t < tiny_next w \<and> t \<notin> set (tiny_gone w)}"

definition tiny_exit :: "tiny \<Rightarrow> tiny" where
  "tiny_exit w = w\<lparr>tiny_gone := tiny_self w # tiny_gone w,
     tiny_self := hd (filter (\<lambda>t. t \<notin> set (tiny_self w # tiny_gone w)) [1..<tiny_next w])\<rparr>"

definition tiny_pth :: "tiny pth_lib" where
  "tiny_pth = \<lparr>
     pth_init = (\<lambda>w. (tiny_next w = 0, if tiny_next w = 0 then w\<lparr>tiny_self := 1, tiny_next := 2\<rparr> else w)),
     pth_key_create = (\<lambda>w. (Some (tiny_keys w), w\<lparr>tiny_keys := Suc (tiny_keys w)\<rparr>)),
     pth_self = tiny_self,
     pth_spawn = (\<lambda>w. (tiny_next w, w\<lparr>tiny_next := Suc (tiny_next w),
       tiny_gone := removeAll (tiny_next w) (tiny_gone w), tiny_values := (tiny_values w)(tiny_next w := (\<lambda>_. 0))\<rparr>)),
     pth_yield = (\<lambda>t w. if 0 < t \<and> t < tiny_next w \<and> t \<notin> set (tiny_gone w) \<and> t \<noteq> tiny_self w
       then (True, w\<lparr>tiny_self := t\<rparr>) else (False, w)),
     pth_exit = tiny_exit,
     pth_key_getdata = (\<lambda>k w. tiny_values w (tiny_self w) k),
     pth_key_setdata = (\<lambda>k v w. (True, w\<lparr>tiny_values := (tiny_values w)(tiny_self w :=
       (tiny_values w (tiny_self w))(k := v))\<rparr>))\<rparr>"

definition no_threads :: tiny where
  "no_threads = \<lparr>tiny_self = 0, tiny_next = 0, tiny_gone = [], tiny_keys = 0, tiny_values = (\<lambda>_ _. 0)\<rparr>"

lemma tiny_pth_simps [simp]:
  "pth_self tiny_pth w = tiny_self w"
  "pth_spawn tiny_pth w = (tiny_next w, w\<lparr>tiny_next := Suc (tiny_next w),
     tiny_gone := removeAll (tiny_next w) (tiny_gone w), tiny_values := (tiny_values w)(tiny_next w := (\<lambda>_. 0))\<rparr>)"
  "pth_key_getdata tiny_pth k w = tiny_values w (tiny_self w) k"
  "pth_key_setdata tiny_pth k v w = (True, w\<lparr>tiny_values := (tiny_values w)(tiny_self w :=
     (tiny_values w (tiny_self w))(k := v))\<rparr>)"
  "pth_key_create tiny_pth w = (Some (tiny_keys w), w\<lparr>tiny_keys := Suc (tiny_keys w)\<rparr>)"
  "pth_yield tiny_pth t w = (if 0 < t \<and> t < tiny_next w \<and> t \<notin> set (tiny_gone w) \<and> t \<noteq> tiny_self w
     then (True, w\<lparr>tiny_self := t\<rparr>) else (False, w))"
  "pth_init tiny_pth w = (tiny_next w = 0, if tiny_next w = 0 then w\<lparr>tiny_self := 1, tiny_next := 2\<rparr> else w)"
  by (simp_all add: tiny_pth_def)

lemma tiny_documented: "pth_documented tiny_pth tiny_alive tiny_values"
  unfolding pth_documented_def by (auto simp: tiny_alive_def fun_eq_iff)

text \<open>The first initialisation makes the calling thread the coroutine with identity \<open>-1\<close>; a second one
  fails, because Pth is initialised once, and changes nothing.\<close>

definition one_thread :: "tiny coroutines" where
  "one_thread = snd (dzn_coroutine_init tiny_pth \<lparr>co_world = no_threads, id_key = 0, data_key = 0\<rparr>)"

lemma one_thread_id: "dzn_coroutine_id tiny_pth one_thread = -1"
  by (simp add: one_thread_def dzn_coroutine_init_def dzn_coroutine_set_id_def dzn_coroutine_id_def
      no_threads_def Let_def)

lemma init_again: "dzn_coroutine_init tiny_pth one_thread = (-1, one_thread)"
  by (simp add: one_thread_def dzn_coroutine_init_def dzn_coroutine_set_id_def no_threads_def Let_def)

lemma one_thread_ok: "co_ok tiny_pth tiny_alive one_thread"
  by (simp add: one_thread_def dzn_coroutine_init_def dzn_coroutine_set_id_def no_threads_def Let_def
      co_ok_def tiny_alive_def)

end
