(* ===== verification/Pump.thy ===== *)
theory Pump
  imports Coroutine Linked_List Runtime
begin

text \<open>
  The C pump, \<open>runtime/c/pump.c\<close> and \<open>dzn/pump.h\<close>: events run on coroutines, a coroutine that blocks on
  a port is parked until the port is released, and deferred statements run when the pump is idle.

  The five lists of a pump are chains of cells (theory \<open>Linked_List\<close>); the structs they point to live in
  stores of their own, so that a pointer to a freed struct stays visible.  Handlers are generated code:
  a \<open>pprog\<close> updates the components' own state, allocates closures and calls the pump or the runtime.

  Every coroutine has a stack of frames.  A C function that yields is cut at the yield: what is left to
  do when it is resumed is the frame it leaves under \<open>Yield_to\<close>.  \<open>pump_step\<close> runs the top frame of the
  current coroutine.  The frames of the dispatcher (theory \<open>Runtime\<close>) run inside the same machine.
\<close>

section \<open>Programs, frames and the state\<close>

datatype 'c pump_call =
    Rt_call "'c rt_call"
  | Pump_run addr addr
  | Pump_block addr addr
  | Pump_release addr addr
  | Pump_collateral_block addr addr int
  | Pump_defer addr addr addr addr
  | Pump_run_defer addr
  | Pump_prune_deferred addr
  | Pump_finalize addr
  | Port_block addr addr
  | Port_release addr addr
  | Collateral_block addr addr
  | Defer addr addr addr
  | Prune_deferred addr
  | Call_in addr addr

datatype ('c, 'u) pprog =
    PReturn
  | PLocal "'u \<Rightarrow> 'u" "'u \<Rightarrow> ('c, 'u) pprog"
  | PNew 'c "addr \<Rightarrow> ('c, 'u) pprog"
  | PBlocked_p addr addr "bool \<Rightarrow> ('c, 'u) pprog"
  | PCall "'c pump_call" "('c, 'u) pprog"

datatype ('c, 'u) pframe =
    Rt "('c, 'u) pprog frame"
  | Flush_defer addr
  | Defer_ran addr addr
  | Defer_flushed addr addr
  | Handler addr
  | Process_released addr
  | Worker addr
  | Yield_to tid
  | Block_resumed addr addr
  | Port_flushed addr addr

record port_coroutine =
  pc_port :: addr
  pc_coroutine :: tid
  pc_id :: int

record deferred =
  df_component :: addr
  df_predicate :: addr
  df_defer :: addr

record dzn_pump =
  pump_id :: int
  pump_blocked :: addr
  pump_collateral :: addr
  pump_deferred :: addr
  pump_q :: addr
  pump_released :: addr
  pump_invoking :: tid
  pump_invoking_id :: int

record ('c, 'u, 'w) psys =
  ps_rt :: "('c, 'u) sys"
  ps_cells :: cells
  ps_ports :: "port_coroutine store"
  ps_deferreds :: "deferred store"
  ps_closures :: "'c store"
  ps_pumps :: "dzn_pump store"
  ps_co :: "'w coroutines"
  ps_stacks :: "tid \<Rightarrow> ('c, 'u) pframe list"

text \<open>What the pump is built and run with: the dispatcher's configuration, the meaning of closures as
  handlers, illegal handlers and predicates, and the thread library.\<close>

record ('c, 'u, 'w) penv =
  pe_cfg :: rt_config
  pe_body :: "'c \<Rightarrow> ('c, 'u) pprog"
  pe_illegal :: "nat \<Rightarrow> ('c, 'u) pprog"
  pe_predicate :: "'c \<Rightarrow> 'u \<Rightarrow> bool"
  pe_lib :: "'w pth_lib"

type_synonym ('c, 'u, 'w) pstep = "(('c, 'u, 'w) psys \<times> ('c, 'u) pframe list) run"

datatype pump_list = Blocked | Collateral | Deferred | Q | Released

fun list_of :: "pump_list \<Rightarrow> dzn_pump \<Rightarrow> addr" where
  "list_of Blocked p = pump_blocked p"
| "list_of Collateral p = pump_collateral p"
| "list_of Deferred p = pump_deferred p"
| "list_of Q p = pump_q p"
| "list_of Released p = pump_released p"

fun set_list :: "pump_list \<Rightarrow> addr \<Rightarrow> dzn_pump \<Rightarrow> dzn_pump" where
  "set_list Blocked a p = p\<lparr>pump_blocked := a\<rparr>"
| "set_list Collateral a p = p\<lparr>pump_collateral := a\<rparr>"
| "set_list Deferred a p = p\<lparr>pump_deferred := a\<rparr>"
| "set_list Q a p = p\<lparr>pump_q := a\<rparr>"
| "set_list Released a p = p\<lparr>pump_released := a\<rparr>"

definition get_pump :: "('c, 'u, 'w) psys \<Rightarrow> addr \<Rightarrow> dzn_pump run" where
  "get_pump s self = lift_run (load (ps_pumps s) self)"

definition put_pump :: "addr \<Rightarrow> dzn_pump \<Rightarrow> ('c, 'u, 'w) psys \<Rightarrow> ('c, 'u, 'w) psys" where
  "put_pump self p s = s\<lparr>ps_pumps := set_obj self (Some p) (ps_pumps s)\<rparr>"

definition current :: "('c, 'u, 'w) penv \<Rightarrow> ('c, 'u, 'w) psys \<Rightarrow> tid" where
  "current env s = dzn_coroutine_self (pe_lib env) (ps_co s)"

definition current_id :: "('c, 'u, 'w) penv \<Rightarrow> ('c, 'u, 'w) psys \<Rightarrow> int" where
  "current_id env s = dzn_coroutine_id (pe_lib env) (ps_co s)"

definition set_data :: "('c, 'u, 'w) penv \<Rightarrow> int \<Rightarrow> ('c, 'u, 'w) psys \<Rightarrow> ('c, 'u, 'w) psys" where
  "set_data env d s = s\<lparr>ps_co := snd (dzn_coroutine_set_data (pe_lib env) d (ps_co s))\<rparr>"

definition set_id :: "('c, 'u, 'w) penv \<Rightarrow> int \<Rightarrow> ('c, 'u, 'w) psys \<Rightarrow> ('c, 'u, 'w) psys" where
  "set_id env i s = s\<lparr>ps_co := snd (dzn_coroutine_set_id (pe_lib env) i (ps_co s))\<rparr>"

section \<open>Structs on the heap\<close>

definition port_coroutine_create ::
    "('c, 'u, 'w) penv \<Rightarrow> addr \<Rightarrow> tid \<Rightarrow> ('c, 'u, 'w) psys \<Rightarrow> addr \<times> ('c, 'u, 'w) psys" where
  "port_coroutine_create env port coroutine s =
     (let (p, ports) = malloc \<lparr>pc_port = port, pc_coroutine = coroutine, pc_id = current_id env s\<rparr> (ps_ports s)
      in (p, s\<lparr>ps_ports := ports\<rparr>))"

definition deferred_create ::
    "addr \<Rightarrow> addr \<Rightarrow> addr \<Rightarrow> ('c, 'u, 'w) psys \<Rightarrow> addr \<times> ('c, 'u, 'w) psys" where
  "deferred_create component predicate defer s =
     (let (d, ds) = malloc \<lparr>df_component = component, df_predicate = predicate, df_defer = defer\<rparr> (ps_deferreds s)
      in (d, s\<lparr>ps_deferreds := ds\<rparr>))"

definition port_predicate :: "('c, 'u, 'w) penv \<Rightarrow> ('c, 'u, 'w) psys \<Rightarrow> dzn_predicate" where
  "port_predicate env s data =
     seq (load (ps_ports s) data) (\<lambda>p.
       Inr (int (pc_port p) = dzn_coroutine_data (pe_lib env) (ps_co s)))"

definition id_predicate :: "('c, 'u, 'w) penv \<Rightarrow> ('c, 'u, 'w) psys \<Rightarrow> dzn_predicate" where
  "id_predicate env s data =
     seq (load (ps_ports s) data) (\<lambda>p.
       Inr (pc_id p = dzn_coroutine_data (pe_lib env) (ps_co s)))"

definition free_port :: "addr \<Rightarrow> ('c, 'u, 'w) psys \<Rightarrow> ('c, 'u, 'w) psys run" where
  "free_port p s = lift_run (seq (c_free p (ps_ports s)) (\<lambda>x. Inr (s\<lparr>ps_ports := x\<rparr>)))"

definition free_cell :: "addr \<Rightarrow> ('c, 'u, 'w) psys \<Rightarrow> ('c, 'u, 'w) psys run" where
  "free_cell p s = lift_run (seq (c_free p (ps_cells s)) (\<lambda>x. Inr (s\<lparr>ps_cells := x\<rparr>)))"

definition free_closure :: "addr \<Rightarrow> ('c, 'u, 'w) psys \<Rightarrow> ('c, 'u, 'w) psys run" where
  "free_closure p s = lift_run (seq (c_free p (ps_closures s)) (\<lambda>x. Inr (s\<lparr>ps_closures := x\<rparr>)))"

definition free_deferred :: "addr \<Rightarrow> ('c, 'u, 'w) psys \<Rightarrow> ('c, 'u, 'w) psys run" where
  "free_deferred p s = lift_run (seq (c_free p (ps_deferreds s)) (\<lambda>x. Inr (s\<lparr>ps_deferreds := x\<rparr>)))"

text \<open>\<open>port->meta.provides.name\<close> is read for the debug output whatever the build.\<close>

definition port_name :: "addr \<Rightarrow> unit run" where
  "port_name port = (if port = NULL then fail_run NullDeref else return_run ())"

section \<open>Operations on the lists\<close>

definition dzn_pump_init :: "('c, 'u, 'w) penv \<Rightarrow> addr \<Rightarrow> ('c, 'u, 'w) psys \<Rightarrow> ('c, 'u, 'w) psys" where
  "dzn_pump_init env self s =
     (let s = put_pump self \<lparr>pump_id = 0, pump_blocked = NULL, pump_collateral = NULL,
        pump_deferred = NULL, pump_q = NULL, pump_released = NULL, pump_invoking = NULL,
        pump_invoking_id = 0\<rparr> s
      in s\<lparr>ps_co := snd (dzn_coroutine_init (pe_lib env) (ps_co s))\<rparr>)"

definition pump_create_coroutine ::
    "('c, 'u, 'w) penv \<Rightarrow> addr \<Rightarrow> ('c, 'u) pframe \<Rightarrow> ('c, 'u, 'w) psys \<Rightarrow> (tid \<times> ('c, 'u, 'w) psys) run" where
  "pump_create_coroutine env self start s =
     (let (t, co) = dzn_coroutine_create (pe_lib env) (ps_co s);
          s = s\<lparr>ps_co := co, ps_stacks := (ps_stacks s)(t := [start])\<rparr>
      in bind_run (get_pump s self) (\<lambda>p.
         if pump_id p = INT_MAX then fail_run SignedOverflow
         else return_run (t, put_pump self (p\<lparr>pump_id := pump_id p + 1\<rparr>) s)))"

definition pump_enqueue ::
    "addr \<Rightarrow> pump_list \<Rightarrow> addr \<Rightarrow> ('c, 'u, 'w) psys \<Rightarrow> ('c, 'u, 'w) psys run" where
  "pump_enqueue self l data s =
     bind_run (get_pump s self) (\<lambda>p.
     bind_run (let (cell, cells) = dzn_list_data data (ps_cells s)
               in dzn_list_append (list_of l p) cell cells) (\<lambda>(lst, cells).
       return_run (put_pump self (set_list l lst p) (s\<lparr>ps_cells := cells\<rparr>))))"

definition pump_delete ::
    "addr \<Rightarrow> pump_list \<Rightarrow> addr \<Rightarrow> ('c, 'u, 'w) psys \<Rightarrow> ('c, 'u, 'w) psys run" where
  "pump_delete self l data s =
     bind_run (get_pump s self) (\<lambda>p.
     bind_run (dzn_list_delete (list_of l p) data (ps_cells s)) (\<lambda>(lst, cells).
       return_run (put_pump self (set_list l lst p) (s\<lparr>ps_cells := cells\<rparr>))))"

definition pump_find ::
    "('c, 'u, 'w) penv \<Rightarrow> addr \<Rightarrow> pump_list \<Rightarrow> (('c, 'u, 'w) penv \<Rightarrow> ('c, 'u, 'w) psys \<Rightarrow> dzn_predicate) \<Rightarrow>
       ('c, 'u, 'w) psys \<Rightarrow> addr run" where
  "pump_find env self l predicate s =
     bind_run (get_pump s self) (\<lambda>p.
       dzn_list_find_predicate (list_of l p) (predicate env s) (ps_cells s))"

definition dzn_pump_defer ::
    "addr \<Rightarrow> addr \<Rightarrow> addr \<Rightarrow> addr \<Rightarrow> ('c, 'u, 'w) psys \<Rightarrow> ('c, 'u, 'w) psys run" where
  "dzn_pump_defer self component predicate defer s =
     (let (d, s) = deferred_create component predicate defer s in pump_enqueue self Deferred d s)"

definition dzn_pump_port_blocked_p ::
    "('c, 'u, 'w) penv \<Rightarrow> addr \<Rightarrow> addr \<Rightarrow> ('c, 'u, 'w) psys \<Rightarrow> (bool \<times> ('c, 'u, 'w) psys) run" where
  "dzn_pump_port_blocked_p env self port s =
     (let s = set_data env (int port) s in
      bind_run (pump_find env self Blocked port_predicate s) (\<lambda>p. return_run (p \<noteq> NULL, s)))"

definition dzn_pump_release ::
    "('c, 'u, 'w) penv \<Rightarrow> addr \<Rightarrow> addr \<Rightarrow> ('c, 'u, 'w) psys \<Rightarrow> ('c, 'u, 'w) psys run" where
  "dzn_pump_release env self port s =
     bind_run (port_name port) (\<lambda>_.
     (let s = set_data env (int port) s in
      bind_run (pump_find env self Blocked port_predicate s) (\<lambda>p.
      (let (p, s) = (if p = NULL then port_coroutine_create env port (current env s) s else (p, s)) in
       pump_enqueue self Released p s))))"

section \<open>Functions that yield\<close>

definition handler :: "('c, 'u, 'w) penv \<Rightarrow> addr \<Rightarrow> ('c, 'u, 'w) psys \<Rightarrow> ('c, 'u, 'w) pstep" where
  "handler env self s =
     bind_run (get_pump s self) (\<lambda>p.
       return_run (if current_id env s = 0 then set_id env (pump_id p) s else s,
         [Yield_to (pump_invoking p)]))"

text \<open>The inner loop of \<open>pump_process_released\<close>: collateral coroutines of a released port are released
  after it.\<close>

partial_function (option) release_collateral ::
    "('c, 'u, 'w) penv \<Rightarrow> addr \<Rightarrow> ('c, 'u, 'w) psys \<Rightarrow> ('c, 'u, 'w) psys run" where
  "release_collateral env self s =
     bind_run (pump_find env self Collateral port_predicate s) (\<lambda>p.
       if p = NULL then return_run s
       else
         bind_run (lift_run (load (ps_ports s) p)) (\<lambda>_.
         bind_run (pump_enqueue self Released p s) (\<lambda>s.
         bind_run (pump_delete self Collateral p s) (\<lambda>s.
           release_collateral env self s))))"

text \<open>One turn of the outer loop; the loop goes on when the coroutine is resumed.\<close>

definition pump_process_released ::
    "('c, 'u, 'w) penv \<Rightarrow> addr \<Rightarrow> ('c, 'u, 'w) psys \<Rightarrow> ('c, 'u, 'w) pstep" where
  "pump_process_released env self s =
     bind_run (get_pump s self) (\<lambda>pump.
       if pump_released pump = NULL then return_run (s, [Handler self])
       else
         bind_run (lift_run (load (ps_cells s) (pump_released pump))) (\<lambda>cell.
         bind_run (lift_run (load (ps_ports s) (cell_data cell))) (\<lambda>p.
         bind_run (port_name (pc_port p)) (\<lambda>_.
         bind_run (free_cell (pump_released pump) s) (\<lambda>s.
         bind_run (return_run (put_pump self (pump\<lparr>pump_released := cell_next cell\<rparr>) s)) (\<lambda>s.
         bind_run (return_run (set_data env (int (pc_port p)) s)) (\<lambda>s.
         bind_run (free_port (cell_data cell) s) (\<lambda>s.
         bind_run (release_collateral env self s) (\<lambda>s.
           return_run (s, [Yield_to (pc_coroutine p), Process_released self]))))))))))"

definition worker :: "('c, 'u, 'w) penv \<Rightarrow> addr \<Rightarrow> ('c, 'u, 'w) psys \<Rightarrow> ('c, 'u, 'w) pstep" where
  "worker env self s =
     bind_run (get_pump s self) (\<lambda>pump.
     (let s = set_id env (c_or (pump_id pump) (-1)) s in
      if pump_q pump = NULL then return_run (s, [Process_released self])
      else
        bind_run (lift_run (load (ps_cells s) (pump_q pump))) (\<lambda>cell.
        bind_run (pump_delete self Q (cell_data cell) s) (\<lambda>s.
        bind_run (lift_run (load (ps_closures s) (cell_data cell))) (\<lambda>event.
          return_run (s, [Rt (In_handler (pe_body env event)), Process_released self]))))))"

definition dzn_pump_run ::
    "('c, 'u, 'w) penv \<Rightarrow> addr \<Rightarrow> addr \<Rightarrow> ('c, 'u, 'w) psys \<Rightarrow> ('c, 'u, 'w) pstep" where
  "dzn_pump_run env self event s =
     bind_run (pump_enqueue self Q event s) (\<lambda>s.
     bind_run (get_pump s self) (\<lambda>p.
     bind_run (return_run (put_pump self
       (p\<lparr>pump_invoking := current env s, pump_invoking_id := current_id env s\<rparr>) s)) (\<lambda>s.
     bind_run (pump_create_coroutine env self (Worker self) s) (\<lambda>(coroutine, s).
       return_run (s, [Yield_to coroutine, Process_released self])))))"

definition dzn_pump_block ::
    "('c, 'u, 'w) penv \<Rightarrow> addr \<Rightarrow> addr \<Rightarrow> ('c, 'u, 'w) psys \<Rightarrow> ('c, 'u, 'w) pstep" where
  "dzn_pump_block env self port s =
     bind_run (port_name port) (\<lambda>_.
     (let s = set_data env (int port) s in
      bind_run (pump_find env self Released port_predicate s) (\<lambda>p.
        if p \<noteq> NULL then
          bind_run (pump_delete self Released p s) (\<lambda>s.
          bind_run (free_port p s) (\<lambda>s. return_run (s, [])))
        else
          (let (p, s) = port_coroutine_create env port (current env s) s in
           bind_run (pump_enqueue self Blocked p s) (\<lambda>s.
           bind_run (pump_create_coroutine env self (Handler self) s) (\<lambda>(coroutine, s).
             return_run (s, [Yield_to coroutine, Block_resumed self port])))))))"

text \<open>The rest of \<open>dzn_pump_block\<close>, after its yield.\<close>

definition block_resumed ::
    "('c, 'u, 'w) penv \<Rightarrow> addr \<Rightarrow> addr \<Rightarrow> ('c, 'u, 'w) psys \<Rightarrow> ('c, 'u, 'w) pstep" where
  "block_resumed env self port s =
     (let s = set_data env (int port) s in
      bind_run (pump_find env self Blocked port_predicate s) (\<lambda>p.
        if p \<noteq> NULL then
          bind_run (pump_delete self Blocked p s) (\<lambda>s.
          bind_run (free_port p s) (\<lambda>s. return_run (s, [])))
        else return_run (s, [])))"

definition dzn_pump_collateral_block ::
    "('c, 'u, 'w) penv \<Rightarrow> addr \<Rightarrow> addr \<Rightarrow> int \<Rightarrow> ('c, 'u, 'w) psys \<Rightarrow> ('c, 'u, 'w) pstep" where
  "dzn_pump_collateral_block env self port i s =
     bind_run (port_name port) (\<lambda>_.
     (let s = set_data env i s in
      bind_run (pump_find env self Blocked id_predicate s) (\<lambda>p.
      bind_run (if p = NULL then pump_find env self Collateral id_predicate s else return_run p) (\<lambda>p.
        if p = NULL then fail_run (AssertFailed ''collateral not found'')
        else
          bind_run (lift_run (load (ps_ports s) p)) (\<lambda>found.
          (let (p, s) = port_coroutine_create env (pc_port found) (current env s) s in
           bind_run (pump_enqueue self Collateral p s) (\<lambda>s.
           bind_run (pump_create_coroutine env self (Handler self) s) (\<lambda>(coroutine, s).
             return_run (s, [Yield_to coroutine])))))))))"

section \<open>Deferred statements\<close>

text \<open>The predicate of a deferred statement, evaluated: its struct, its closure, its value.\<close>

definition eval_deferred ::
    "('c, 'u, 'w) penv \<Rightarrow> addr \<Rightarrow> ('c, 'u, 'w) psys \<Rightarrow> (deferred \<times> bool) run" where
  "eval_deferred env d s =
     bind_run (lift_run (load (ps_deferreds s) d)) (\<lambda>x.
     bind_run (lift_run (load (ps_closures s) (df_predicate x))) (\<lambda>c.
       return_run (x, pe_predicate env c (rt_user (ps_rt s)))))"

text \<open>The first loop drops statements from the front of the list while their predicates do not hold.\<close>

partial_function (option) prune_front ::
    "('c, 'u, 'w) penv \<Rightarrow> addr \<Rightarrow> addr \<Rightarrow> ('c, 'u, 'w) psys \<Rightarrow> (addr \<times> ('c, 'u, 'w) psys) run" where
  "prune_front env self head s =
     (if head = NULL then return_run (head, s)
      else
        bind_run (lift_run (load (ps_cells s) head)) (\<lambda>cell.
        bind_run (eval_deferred env (cell_data cell) s) (\<lambda>(d, holds).
          if holds then return_run (head, s)
          else
            bind_run (get_pump s self) (\<lambda>p.
            bind_run (return_run (put_pump self (p\<lparr>pump_deferred := cell_next cell\<rparr>) s)) (\<lambda>s.
            bind_run (free_closure (df_predicate d) s) (\<lambda>s.
            bind_run (free_deferred (cell_data cell) s) (\<lambda>s.
            bind_run (free_cell head s) (\<lambda>s.
              prune_front env self (cell_next cell) s))))))))"

text \<open>The second loop looks one cell ahead; when the predicate there does not hold, it frees the
  statement and the cell it stands on, and goes on behind it.\<close>

partial_function (option) prune_rest ::
    "('c, 'u, 'w) penv \<Rightarrow> addr \<Rightarrow> ('c, 'u, 'w) psys \<Rightarrow> ('c, 'u, 'w) psys run" where
  "prune_rest env head s =
     (if head = NULL then return_run s
      else
        bind_run (lift_run (load (ps_cells s) head)) (\<lambda>cell.
          if cell_next cell = NULL then return_run s
          else
            bind_run (lift_run (load (ps_cells s) (cell_next cell))) (\<lambda>nxt.
            bind_run (eval_deferred env (cell_data nxt) s) (\<lambda>(d, holds).
              if holds then prune_rest env (cell_next cell) s
              else
                bind_run (free_closure (df_predicate d) s) (\<lambda>s.
                bind_run (free_deferred (cell_data nxt) s) (\<lambda>s.
                bind_run (free_cell head s) (\<lambda>s.
                  prune_rest env (cell_next cell) s)))))))"

definition dzn_pump_prune_deferred ::
    "('c, 'u, 'w) penv \<Rightarrow> addr \<Rightarrow> ('c, 'u, 'w) psys \<Rightarrow> ('c, 'u, 'w) psys run" where
  "dzn_pump_prune_deferred env self s =
     bind_run (get_pump s self) (\<lambda>p.
     bind_run (prune_front env self (pump_deferred p) s) (\<lambda>(head, s).
       prune_rest env head s))"

definition dzn_pump_run_defer ::
    "('c, 'u, 'w) penv \<Rightarrow> addr \<Rightarrow> ('c, 'u, 'w) psys \<Rightarrow> ('c, 'u, 'w) pstep" where
  "dzn_pump_run_defer env self s =
     bind_run (dzn_pump_prune_deferred env self s) (\<lambda>s.
     bind_run (get_pump s self) (\<lambda>pump.
       if pump_deferred pump = NULL then return_run (s, [])
       else
         bind_run (lift_run (load (ps_cells s) (pump_deferred pump))) (\<lambda>cell.
         bind_run (lift_run (load (ps_deferreds s) (cell_data cell))) (\<lambda>d.
         bind_run (free_cell (pump_deferred pump) s) (\<lambda>s.
         bind_run (return_run (put_pump self (pump\<lparr>pump_deferred := cell_next cell\<rparr>) s)) (\<lambda>s.
         bind_run (lift_run (get_info (ps_rt s) (df_component d))) (\<lambda>info.
         bind_run (return_run (s\<lparr>ps_rt :=
           put_info (df_component d) (info\<lparr>rt_handling := current_id env s\<rparr>) (ps_rt s)\<rparr>)) (\<lambda>s.
         bind_run (lift_run (load (ps_closures s) (df_defer d))) (\<lambda>c.
           return_run (s, [Rt (In_handler (pe_body env c)), Defer_ran (cell_data cell) (df_defer d)]))))))))))"

text \<open>The rest of \<open>dzn_pump_run_defer\<close>, after the statement and after the flush.\<close>

definition defer_ran :: "addr \<Rightarrow> addr \<Rightarrow> ('c, 'u, 'w) psys \<Rightarrow> ('c, 'u, 'w) pstep" where
  "defer_ran d defer s =
     bind_run (lift_run (load (ps_deferreds s) d)) (\<lambda>x.
     bind_run (lift_run (get_info (ps_rt s) (df_component x))) (\<lambda>info.
       return_run (s\<lparr>ps_rt := put_info (df_component x) (info\<lparr>rt_handling := 0\<rparr>) (ps_rt s)\<rparr>,
         [Rt (In_flush (df_component x)), Defer_flushed d defer])))"

definition defer_flushed :: "addr \<Rightarrow> addr \<Rightarrow> ('c, 'u, 'w) psys \<Rightarrow> ('c, 'u, 'w) pstep" where
  "defer_flushed d defer s =
     bind_run (free_closure defer s) (\<lambda>s.
     bind_run (free_deferred d s) (\<lambda>s. return_run (s, [])))"

definition pump_flush_defer ::
    "('c, 'u, 'w) penv \<Rightarrow> addr \<Rightarrow> ('c, 'u, 'w) psys \<Rightarrow> ('c, 'u, 'w) pstep" where
  "pump_flush_defer env self s =
     bind_run (get_pump s self) (\<lambda>p.
       if pump_deferred p = NULL then return_run (s, [])
       else bind_run (dzn_pump_run_defer env self s) (\<lambda>(s, fs). return_run (s, fs @ [Flush_defer self])))"

definition dzn_pump_finalize ::
    "('c, 'u, 'w) penv \<Rightarrow> addr \<Rightarrow> ('c, 'u, 'w) psys \<Rightarrow> ('c, 'u, 'w) pstep" where
  "dzn_pump_finalize env self s = pump_flush_defer env self s"

section \<open>The runtime's calls to the pump\<close>

definition pump_of :: "('c, 'u, 'w) psys \<Rightarrow> addr \<Rightarrow> addr run" where
  "pump_of s component =
     bind_run (lift_run (get_info (ps_rt s) component)) (\<lambda>info.
     bind_run (lift_run (load (rt_locators (ps_rt s)) (rt_locator info))) (\<lambda>locator.
       dzn_locator_get locator ''pump''))"

definition no_frames :: "('c, 'u, 'w) psys run \<Rightarrow> ('c, 'u, 'w) pstep" where
  "no_frames m = bind_run m (\<lambda>s. return_run (s, []))"

definition dzn_port_block ::
    "addr \<Rightarrow> addr \<Rightarrow> ('c, 'u, 'w) psys \<Rightarrow> ('c, 'u, 'w) pstep" where
  "dzn_port_block component port s =
     bind_run (lift_run (get_info (ps_rt s) component)) (\<lambda>info.
       return_run (s\<lparr>ps_rt := put_info component (info\<lparr>rt_handling := 0\<rparr>) (ps_rt s)\<rparr>,
         [Rt (In_flush component), Port_flushed component port]))"

text \<open>The rest of \<open>dzn_port_block\<close>, after the flush.\<close>

definition port_flushed ::
    "('c, 'u, 'w) penv \<Rightarrow> addr \<Rightarrow> addr \<Rightarrow> ('c, 'u, 'w) psys \<Rightarrow> ('c, 'u, 'w) pstep" where
  "port_flushed env component port s =
     bind_run (pump_of s component) (\<lambda>pump.
       if pump = NULL then return_run (s, []) else dzn_pump_block env pump port s)"

definition dzn_port_release ::
    "('c, 'u, 'w) penv \<Rightarrow> addr \<Rightarrow> addr \<Rightarrow> ('c, 'u, 'w) psys \<Rightarrow> ('c, 'u, 'w) pstep" where
  "dzn_port_release env component port s =
     bind_run (pump_of s component) (\<lambda>pump.
       if pump = NULL then return_run (s, []) else no_frames (dzn_pump_release env pump port s))"

text \<open>\<open>dzn_port_blocked_p\<close> calls the pump and has no return statement: its value is undefined.\<close>

definition dzn_port_blocked_p ::
    "('c, 'u, 'w) penv \<Rightarrow> addr \<Rightarrow> addr \<Rightarrow> ('c, 'u, 'w) psys \<Rightarrow> (bool \<times> ('c, 'u, 'w) psys) run" where
  "dzn_port_blocked_p env component port s =
     bind_run (pump_of s component) (\<lambda>pump.
       if pump = NULL then fail_run MissingReturn
       else bind_run (dzn_pump_port_blocked_p env pump port s) (\<lambda>_. fail_run MissingReturn))"

definition dzn_collateral_block ::
    "('c, 'u, 'w) penv \<Rightarrow> addr \<Rightarrow> addr \<Rightarrow> ('c, 'u, 'w) psys \<Rightarrow> ('c, 'u, 'w) pstep" where
  "dzn_collateral_block env component port s =
     bind_run (pump_of s component) (\<lambda>pump.
       if pump = NULL then return_run (s, [])
       else
         bind_run (lift_run (get_info (ps_rt s) component)) (\<lambda>info.
           dzn_pump_collateral_block env pump port (rt_handling info) s))"

definition dzn_defer ::
    "addr \<Rightarrow> addr \<Rightarrow> addr \<Rightarrow> ('c, 'u, 'w) psys \<Rightarrow> ('c, 'u, 'w) pstep" where
  "dzn_defer component predicate defer s =
     bind_run (pump_of s component) (\<lambda>pump.
       if pump = NULL then return_run (s, [])
       else no_frames (dzn_pump_defer pump component predicate defer s))"

definition dzn_prune_deferred :: "('c, 'u, 'w) penv \<Rightarrow> addr \<Rightarrow> ('c, 'u, 'w) psys \<Rightarrow> ('c, 'u, 'w) pstep" where
  "dzn_prune_deferred env component s =
     bind_run (pump_of s component) (\<lambda>pump.
       if pump = NULL then return_run (s, [])
       else no_frames (dzn_pump_prune_deferred env pump s))"

text \<open>\<open>dzn_runtime_call_in\<close> of \<open>runtime.c\<close>.\<close>

definition dzn_runtime_call_in ::
    "('c, 'u, 'w) penv \<Rightarrow> addr \<Rightarrow> addr \<Rightarrow> ('c, 'u, 'w) psys \<Rightarrow> ('c, 'u, 'w) pstep" where
  "dzn_runtime_call_in env component port s =
     bind_run (lift_run (get_info (ps_rt s) component)) (\<lambda>info.
     bind_run (if rt_handling info \<noteq> 0 then return_run (True, s)
               else dzn_port_blocked_p env component port s) (\<lambda>(collateral, s).
       if collateral then dzn_collateral_block env component port s else return_run (s, [])))"

section \<open>The machine\<close>

definition rt_cfg :: "('c, 'u, 'w) penv \<Rightarrow> ('c, 'u, 'w) psys \<Rightarrow> rt_config" where
  "rt_cfg env s = (pe_cfg env)\<lparr>coroutine_id := Some (current_id env s)\<rparr>"

definition lift_rt ::
    "(('c, 'u) sys \<Rightarrow> (('c, 'u) sys \<times> ('c, 'u) pprog frame list) result) \<Rightarrow> ('c, 'u, 'w) psys \<Rightarrow>
       ('c, 'u, 'w) pstep" where
  "lift_rt f s = lift_run (seq (f (ps_rt s)) (\<lambda>(rt, fs). Inr (s\<lparr>ps_rt := rt\<rparr>, map Rt fs)))"

fun call_pump ::
    "('c, 'u, 'w) penv \<Rightarrow> 'c pump_call \<Rightarrow> ('c, 'u, 'w) psys \<Rightarrow> ('c, 'u, 'w) pstep" where
  "call_pump env (Rt_call c) s = lift_rt (runtime_call (rt_cfg env s) (pe_body env) (pe_illegal env) c) s"
| "call_pump env (Pump_run self event) s = dzn_pump_run env self event s"
| "call_pump env (Pump_block self port) s = dzn_pump_block env self port s"
| "call_pump env (Pump_release self port) s = no_frames (dzn_pump_release env self port s)"
| "call_pump env (Pump_collateral_block self port i) s = dzn_pump_collateral_block env self port i s"
| "call_pump env (Pump_defer self cmp prd defer) s = no_frames (dzn_pump_defer self cmp prd defer s)"
| "call_pump env (Pump_run_defer self) s = dzn_pump_run_defer env self s"
| "call_pump env (Pump_prune_deferred self) s = no_frames (dzn_pump_prune_deferred env self s)"
| "call_pump env (Pump_finalize self) s = dzn_pump_finalize env self s"
| "call_pump env (Port_block cmp port) s = dzn_port_block cmp port s"
| "call_pump env (Port_release cmp port) s = dzn_port_release env cmp port s"
| "call_pump env (Collateral_block cmp port) s = dzn_collateral_block env cmp port s"
| "call_pump env (Defer cmp prd defer) s = dzn_defer cmp prd defer s"
| "call_pump env (Prune_deferred cmp) s = dzn_prune_deferred env cmp s"
| "call_pump env (Call_in cmp port) s = dzn_runtime_call_in env cmp port s"

fun pprog_step ::
    "('c, 'u, 'w) penv \<Rightarrow> ('c, 'u) pprog \<Rightarrow> ('c, 'u, 'w) psys \<Rightarrow> ('c, 'u, 'w) pstep" where
  "pprog_step env PReturn s = return_run (s, [])"
| "pprog_step env (PLocal f k) s =
     return_run (s\<lparr>ps_rt := (ps_rt s)\<lparr>rt_user := f (rt_user (ps_rt s))\<rparr>\<rparr>,
       [Rt (In_handler (k (f (rt_user (ps_rt s)))))])"
| "pprog_step env (PNew c k) s =
     (let (a, cs) = malloc c (ps_closures s) in return_run (s\<lparr>ps_closures := cs\<rparr>, [Rt (In_handler (k a))]))"
| "pprog_step env (PBlocked_p self port k) s =
     bind_run (dzn_pump_port_blocked_p env self port s) (\<lambda>(b, s). return_run (s, [Rt (In_handler (k b))]))"
| "pprog_step env (PCall c p) s =
     bind_run (call_pump env c s) (\<lambda>(s, fs). return_run (s, fs @ [Rt (In_handler p)]))"

fun frame_step ::
    "('c, 'u, 'w) penv \<Rightarrow> ('c, 'u) pframe \<Rightarrow> ('c, 'u, 'w) psys \<Rightarrow> ('c, 'u, 'w) pstep" where
  "frame_step env (Rt (In_handler p)) s = pprog_step env p s"
| "frame_step env (Rt (In_finish i)) s = lift_rt (dzn_runtime_finish i) s"
| "frame_step env (Rt (In_flush i)) s = lift_rt (dzn_runtime_flush (rt_cfg env s) (pe_body env) i) s"
| "frame_step env (Flush_defer self) s = pump_flush_defer env self s"
| "frame_step env (Defer_ran d defer) s = defer_ran d defer s"
| "frame_step env (Defer_flushed d defer) s = defer_flushed d defer s"
| "frame_step env (Handler self) s = handler env self s"
| "frame_step env (Process_released self) s = pump_process_released env self s"
| "frame_step env (Worker self) s = worker env self s"
| "frame_step env (Yield_to t) s =
     return_run (s\<lparr>ps_co := snd (dzn_coroutine_yield_to (pe_lib env) t (ps_co s))\<rparr>, [])"
| "frame_step env (Block_resumed self port) s = block_resumed env self port s"
| "frame_step env (Port_flushed cmp port) s = port_flushed env cmp port s"

definition set_stack :: "tid \<Rightarrow> ('c, 'u) pframe list \<Rightarrow> ('c, 'u, 'w) psys \<Rightarrow> ('c, 'u, 'w) psys" where
  "set_stack t fs s = s\<lparr>ps_stacks := (ps_stacks s)(t := fs)\<rparr>"

text \<open>One step of the current coroutine; a coroutine whose function has returned leaves the library to
  choose another.\<close>

definition pump_step :: "('c, 'u, 'w) penv \<Rightarrow> ('c, 'u, 'w) psys \<Rightarrow> ('c, 'u, 'w) psys run" where
  "pump_step env s =
     (let t = current env s in
      case ps_stacks s t of
        [] \<Rightarrow> return_run (s\<lparr>ps_co := (ps_co s)\<lparr>co_world := pth_exit (pe_lib env) (co_world (ps_co s))\<rparr>\<rparr>)
      | f # st \<Rightarrow>
          bind_run (frame_step env f (set_stack t st s)) (\<lambda>(s, fs).
            return_run (set_stack t (fs @ ps_stacks s t) s)))"

text \<open>What an execution passes through.\<close>

inductive pump_reaches ::
    "('c, 'u, 'w) penv \<Rightarrow> ('c, 'u, 'w) psys \<Rightarrow> ('c, 'u, 'w) psys \<Rightarrow> bool" for env start where
  pump_start: "pump_reaches env start start"
| pump_more: "pump_reaches env start s \<Longrightarrow> pump_step env s = Some (Inr s') \<Longrightarrow> pump_reaches env start s'"

text \<open>Running \<open>n\<close> steps.\<close>

fun pump_steps :: "nat \<Rightarrow> ('c, 'u, 'w) penv \<Rightarrow> ('c, 'u, 'w) psys \<Rightarrow> ('c, 'u, 'w) psys run" where
  "pump_steps 0 env s = return_run s"
| "pump_steps (Suc n) env s = bind_run (pump_step env s) (pump_steps n env)"

end
