(* ===== verification/Pump_Laws.thy ===== *)
theory Pump_Laws
  imports Pump
begin

text \<open>
  What the C pump does: its lists as lists of pointers, a release that comes before the block, a release
  that comes after it, one event from the call of \<open>dzn_pump_run\<close> to its return, deferred statements,
  and the entry points of the runtime.
\<close>

section \<open>Keys and coroutines\<close>

text \<open>The identity and the datum of a coroutine, in the view of the library that the documentation gives.\<close>

definition ident :: "('w \<Rightarrow> tid \<Rightarrow> nat \<Rightarrow> int) \<Rightarrow> 'w coroutines \<Rightarrow> tid \<Rightarrow> int" where
  "ident key_of co t = key_of (co_world co) t (id_key co)"

definition datum :: "('w \<Rightarrow> tid \<Rightarrow> nat \<Rightarrow> int) \<Rightarrow> 'w coroutines \<Rightarrow> tid \<Rightarrow> int" where
  "datum key_of co t = key_of (co_world co) t (data_key co)"

definition live :: "('w \<Rightarrow> tid set) \<Rightarrow> 'w coroutines \<Rightarrow> tid set" where
  "live alive co = alive (co_world co)"

definition co_env_ok ::
    "('w \<Rightarrow> tid set) \<Rightarrow> ('w \<Rightarrow> tid \<Rightarrow> nat \<Rightarrow> int) \<Rightarrow> ('c, 'u, 'w) penv \<Rightarrow> ('c, 'u, 'w) psys \<Rightarrow> bool" where
  "co_env_ok alive key_of env s \<longleftrightarrow>
     pth_documented (pe_lib env) alive key_of \<and> co_ok (pe_lib env) alive (ps_co s)"

lemma co_env_okD:
  assumes "co_env_ok alive key_of env s"
  shows "pth_documented (pe_lib env) alive key_of"
    and "pth_self (pe_lib env) (co_world (ps_co s)) \<in> alive (co_world (ps_co s))"
    and "id_key (ps_co s) \<noteq> data_key (ps_co s)"
  using assms by (auto simp: co_env_ok_def co_ok_def)

lemma co_env_ok_cong [simp]:
  "co_env_ok alive key_of env (s\<lparr>ps_rt := rt\<rparr>) = co_env_ok alive key_of env s"
  "co_env_ok alive key_of env (s\<lparr>ps_cells := cs\<rparr>) = co_env_ok alive key_of env s"
  "co_env_ok alive key_of env (s\<lparr>ps_ports := po\<rparr>) = co_env_ok alive key_of env s"
  "co_env_ok alive key_of env (s\<lparr>ps_deferreds := de\<rparr>) = co_env_ok alive key_of env s"
  "co_env_ok alive key_of env (s\<lparr>ps_closures := cl\<rparr>) = co_env_ok alive key_of env s"
  "co_env_ok alive key_of env (s\<lparr>ps_pumps := pu\<rparr>) = co_env_ok alive key_of env s"
  "co_env_ok alive key_of env (s\<lparr>ps_stacks := st\<rparr>) = co_env_ok alive key_of env s"
  "co_env_ok alive key_of env (put_pump self p s) = co_env_ok alive key_of env s"
  by (simp_all add: co_env_ok_def put_pump_def)

lemma current_ident:
  assumes "co_env_ok alive key_of env s"
  shows "current_id env s = ident key_of (ps_co s) (current env s)"
  using pth_documentedD(1) [OF co_env_okD(1,2) [OF assms]]
  by (simp add: current_id_def current_def dzn_coroutine_id_def dzn_coroutine_self_def ident_def)

lemma set_data_facts:
  assumes "co_env_ok alive key_of env s"
  shows "co_env_ok alive key_of env (set_data env d s)"
    and "current env (set_data env d s) = current env s"
    and "dzn_coroutine_data (pe_lib env) (ps_co (set_data env d s)) = d"
    and "ident key_of (ps_co (set_data env d s)) = ident key_of (ps_co s)"
    and "current_id env (set_data env d s) = current_id env s"
    and "live alive (ps_co (set_data env d s)) = live alive (ps_co s)"
proof -
  let ?w = "co_world (ps_co s)" and ?lib = "pe_lib env"
  note D = co_env_okD [OF assms]
  obtain w' where w': "pth_key_setdata ?lib (data_key (ps_co s)) d ?w = (True, w')" "alive w' = alive ?w"
      "pth_self ?lib w' = pth_self ?lib ?w"
      "key_of w' = (key_of ?w)(pth_self ?lib ?w := (key_of ?w (pth_self ?lib ?w))(data_key (ps_co s) := d))"
    using pth_documentedD(2) [OF D(1,2)] by blast
  have co: "ps_co (set_data env d s) = (ps_co s)\<lparr>co_world := w'\<rparr>"
    using w' by (simp add: set_data_def dzn_coroutine_set_data_def)
  have here: "pth_self ?lib w' \<in> alive w'" using w' D(2) by simp
  show ok: "co_env_ok alive key_of env (set_data env d s)"
    using D here by (simp add: co_env_ok_def co_ok_def co)
  show cur: "current env (set_data env d s) = current env s"
    using w' by (simp add: current_def dzn_coroutine_self_def co)
  show "dzn_coroutine_data ?lib (ps_co (set_data env d s)) = d"
    using pth_documentedD(1) [OF D(1) here] w' by (simp add: dzn_coroutine_data_def co)
  show "ident key_of (ps_co (set_data env d s)) = ident key_of (ps_co s)"
    using w' D(3) by (auto simp: ident_def co)
  then show "current_id env (set_data env d s) = current_id env s"
    using current_ident [OF ok] current_ident [OF assms] cur by simp
  show "live alive (ps_co (set_data env d s)) = live alive (ps_co s)"
    using w' by (simp add: live_def co)
qed

lemma set_id_facts:
  assumes "co_env_ok alive key_of env s"
  shows "co_env_ok alive key_of env (set_id env i s)"
    and "current env (set_id env i s) = current env s"
    and "ident key_of (ps_co (set_id env i s)) = (ident key_of (ps_co s))(current env s := i)"
    and "current_id env (set_id env i s) = i"
    and "live alive (ps_co (set_id env i s)) = live alive (ps_co s)"
proof -
  let ?w = "co_world (ps_co s)" and ?lib = "pe_lib env"
  note D = co_env_okD [OF assms]
  obtain w' where w': "pth_key_setdata ?lib (id_key (ps_co s)) i ?w = (True, w')" "alive w' = alive ?w"
      "pth_self ?lib w' = pth_self ?lib ?w"
      "key_of w' = (key_of ?w)(pth_self ?lib ?w := (key_of ?w (pth_self ?lib ?w))(id_key (ps_co s) := i))"
    using pth_documentedD(2) [OF D(1,2)] by blast
  have co: "ps_co (set_id env i s) = (ps_co s)\<lparr>co_world := w'\<rparr>"
    using w' by (simp add: set_id_def dzn_coroutine_set_id_def)
  have here: "pth_self ?lib w' \<in> alive w'" using w' D(2) by simp
  show ok: "co_env_ok alive key_of env (set_id env i s)"
    using D here by (simp add: co_env_ok_def co_ok_def co)
  show cur: "current env (set_id env i s) = current env s"
    using w' by (simp add: current_def dzn_coroutine_self_def co)
  show id: "ident key_of (ps_co (set_id env i s)) = (ident key_of (ps_co s))(current env s := i)"
    using w' by (auto simp: ident_def co current_def dzn_coroutine_self_def)
  show "current_id env (set_id env i s) = i"
    using current_ident [OF ok] cur id by simp
  show "live alive (ps_co (set_id env i s)) = live alive (ps_co s)"
    using w' by (simp add: live_def co)
qed

text \<open>Setting a key touches nothing but the library.\<close>

lemma set_key_simps [simp]:
  "ps_rt (set_data env d s) = ps_rt s" "ps_rt (set_id env d s) = ps_rt s"
  "ps_cells (set_data env d s) = ps_cells s" "ps_cells (set_id env d s) = ps_cells s"
  "ps_ports (set_data env d s) = ps_ports s" "ps_ports (set_id env d s) = ps_ports s"
  "ps_deferreds (set_data env d s) = ps_deferreds s" "ps_deferreds (set_id env d s) = ps_deferreds s"
  "ps_closures (set_data env d s) = ps_closures s" "ps_closures (set_id env d s) = ps_closures s"
  "ps_pumps (set_data env d s) = ps_pumps s" "ps_pumps (set_id env d s) = ps_pumps s"
  "ps_stacks (set_data env d s) = ps_stacks s" "ps_stacks (set_id env d s) = ps_stacks s"
  by (simp_all add: set_data_def set_id_def)

lemma put_pump_simps [simp]:
  "ps_rt (put_pump self p s) = ps_rt s" "ps_cells (put_pump self p s) = ps_cells s"
  "ps_ports (put_pump self p s) = ps_ports s" "ps_deferreds (put_pump self p s) = ps_deferreds s"
  "ps_closures (put_pump self p s) = ps_closures s" "ps_co (put_pump self p s) = ps_co s"
  "ps_stacks (put_pump self p s) = ps_stacks s"
  "objs (ps_pumps (put_pump self p s)) a = (if a = self then Some p else objs (ps_pumps s) a)"
  by (simp_all add: put_pump_def)

lemma current_cong: "ps_co s = ps_co s' \<Longrightarrow> current env s = current env s' \<and> current_id env s = current_id env s'"
  by (simp add: current_def current_id_def)

section \<open>The lists of a pump\<close>

text \<open>\<open>pump_rep s self ds\<close>: the pump at \<open>self\<close> has five separate chains, with the data \<open>ds\<close>.\<close>

definition pump_rep :: "('c, 'u, 'w) psys \<Rightarrow> addr \<Rightarrow> (pump_list \<Rightarrow> addr list) \<Rightarrow> bool" where
  "pump_rep s self ds \<longleftrightarrow> self \<noteq> NULL \<and> store_ok (ps_cells s) \<and>
     (\<exists>p cs. objs (ps_pumps s) self = Some p \<and>
       (\<forall>l. chain (ps_cells s) (list_of l p) (cs l) \<and> data_of (cs l) = ds l) \<and>
       (\<forall>l l'. l \<noteq> l' \<longrightarrow> set (cells_of (cs l)) \<inter> set (cells_of (cs l')) = {}))"

text \<open>A change of the lists alone.\<close>

definition lists_only :: "addr \<Rightarrow> ('c, 'u, 'w) psys \<Rightarrow> ('c, 'u, 'w) psys \<Rightarrow> bool" where
  "lists_only self s s' \<longleftrightarrow>
     (\<exists>p q cells. objs (ps_pumps s) self = Some p \<and>
        s' = put_pump self q (s\<lparr>ps_cells := cells\<rparr>) \<and> pump_id q = pump_id p \<and>
        pump_invoking q = pump_invoking p \<and> pump_invoking_id q = pump_invoking_id p)"

lemma lists_onlyD:
  assumes "lists_only self s s'"
  shows "ps_rt s' = ps_rt s" "ps_ports s' = ps_ports s" "ps_deferreds s' = ps_deferreds s"
    "ps_closures s' = ps_closures s" "ps_co s' = ps_co s" "ps_stacks s' = ps_stacks s"
  using assms by (auto simp: lists_only_def)

lemma lists_only_trans: "lists_only self s s' \<Longrightarrow> lists_only self s' s'' \<Longrightarrow> lists_only self s s''"
  unfolding lists_only_def by (fastforce simp: put_pump_def set_obj_def)

lemma list_of_set_list [simp]: "list_of l (set_list l' a p) = (if l = l' then a else list_of l p)"
  by (cases l; cases l') auto

lemma list_of_fields [simp]:
  "list_of l (p\<lparr>pump_id := i\<rparr>) = list_of l p" "list_of l (p\<lparr>pump_invoking := t\<rparr>) = list_of l p"
  "list_of l (p\<lparr>pump_invoking_id := i\<rparr>) = list_of l p"
  by (cases l; simp)+

lemma no_data [simp]: "(\<lambda>_. [])(l := []) = (\<lambda>_. [])"
  by (simp add: fun_eq_iff)

lemma set_list_fields [simp]:
  "pump_id (set_list l a p) = pump_id p" "pump_invoking (set_list l a p) = pump_invoking p"
  "pump_invoking_id (set_list l a p) = pump_invoking_id p"
  by (cases l; simp)+

lemma get_pump_live: "self \<noteq> NULL \<Longrightarrow> objs (ps_pumps s) self = Some p \<Longrightarrow> get_pump s self = return_run p"
  by (simp add: get_pump_def store_simps)

lemma pump_repE:
  assumes "pump_rep s self ds"
  obtains p cs where "self \<noteq> NULL" and "store_ok (ps_cells s)" and "objs (ps_pumps s) self = Some p"
    and "get_pump s self = return_run p" and "\<And>l. chain (ps_cells s) (list_of l p) (cs l)"
    and "\<And>l. data_of (cs l) = ds l"
    and "\<And>l l'. l \<noteq> l' \<Longrightarrow> set (cells_of (cs l)) \<inter> set (cells_of (cs l')) = {}"
  using assms get_pump_live unfolding pump_rep_def by blast

lemma pump_rep_list:
  assumes "pump_rep s self ds" and "objs (ps_pumps s) self = Some p"
  obtains cs where "chain (ps_cells s) (list_of l p) cs" and "data_of cs = ds l" and "self \<noteq> NULL"
proof -
  obtain q cs where "objs (ps_pumps s) self = Some q" "\<And>l. chain (ps_cells s) (list_of l q) (cs l)"
    "\<And>l. data_of (cs l) = ds l" "self \<noteq> NULL"
    using pump_repE [OF assms(1)] by metis
  with assms(2) that [of "cs l"] show thesis by simp
qed

text \<open>One list of the pump is replaced by another chain, and the cells of the others are as before.\<close>

lemma pump_rep_change:
  assumes rep: "objs (ps_pumps s) self = Some p" "self \<noteq> NULL"
    "\<And>l. chain (ps_cells s) (list_of l p) (cs l)" "\<And>l. data_of (cs l) = ds l"
    "\<And>l l'. l \<noteq> l' \<Longrightarrow> set (cells_of (cs l)) \<inter> set (cells_of (cs l')) = {}"
    and new: "store_ok hp" "chain hp a new" "data_of new = d"
      "\<And>x l'. l' \<noteq> l \<Longrightarrow> x \<in> set (cells_of (cs l')) \<Longrightarrow> objs hp x = objs (ps_cells s) x"
      "\<And>l'. l' \<noteq> l \<Longrightarrow> set (cells_of new) \<inter> set (cells_of (cs l')) = {}"
  shows "pump_rep (put_pump self (set_list l a p) (s\<lparr>ps_cells := hp\<rparr>)) self (ds(l := d)) \<and>
    lists_only self s (put_pump self (set_list l a p) (s\<lparr>ps_cells := hp\<rparr>))"
proof -
  have "chain hp q cs' = chain (ps_cells s) q cs'"
    if "\<And>x. x \<in> set (cells_of cs') \<Longrightarrow> objs hp x = objs (ps_cells s) x" for q cs'
    using that by (induction cs' arbitrary: q) auto
  then have others: "chain hp (list_of l' p) (cs l')" if "l' \<noteq> l" for l'
    using rep(3) new(4) that by blast
  let ?s = "put_pump self (set_list l a p) (s\<lparr>ps_cells := hp\<rparr>)" and ?cs = "cs(l := new)"
  have "chain (ps_cells ?s) (list_of l' (set_list l a p)) (?cs l') \<and> data_of (?cs l') = (ds(l := d)) l'" for l'
    using others new(2,3) rep(4) by auto
  moreover have "l1 \<noteq> l2 \<longrightarrow> set (cells_of (?cs l1)) \<inter> set (cells_of (?cs l2)) = {}" for l1 l2
    using rep(5) [of l1 l2] new(5) [of l1] new(5) [of l2] by (auto simp: Int_commute)
  ultimately have "pump_rep ?s self (ds(l := d))"
    unfolding pump_rep_def using rep(2) new(1)
    by (intro conjI exI [of _ "set_list l a p"] exI [of _ ?cs]) auto
  moreover have "lists_only self s ?s"
    unfolding lists_only_def using rep(1)
    by (intro exI [of _ p] exI [of _ "set_list l a p"] exI [of _ hp]) simp
  ultimately show ?thesis by blast
qed


lemma pump_enqueue_rep:
  assumes "pump_rep s self ds"
  obtains s' where "pump_enqueue self l d s = return_run s'" and "pump_rep s' self (ds(l := ds l @ [d]))"
    and "lists_only self s s'"
proof -
  obtain p cs where p: "self \<noteq> NULL" "store_ok (ps_cells s)" "objs (ps_pumps s) self = Some p"
      "get_pump s self = return_run p" "\<And>l. chain (ps_cells s) (list_of l p) (cs l)"
      "\<And>l. data_of (cs l) = ds l"
      "\<And>l l'. l \<noteq> l' \<Longrightarrow> set (cells_of (cs l)) \<inter> set (cells_of (cs l')) = {}"
    using pump_repE [OF assms] by metis
  let ?q = "fresh (ps_cells s)"
  obtain hp1 where new: "dzn_list_data d (ps_cells s) = (?q, hp1)"
    by (simp add: dzn_list_data_def dzn_list_create_def malloc_def)
  then have created: "dzn_list_create NULL d (ps_cells s) = (?q, hp1)" by (simp add: dzn_list_data_def)
  have "chain (ps_cells s) NULL []" by simp
  note made = dzn_list_create_chain [OF p(2) this created]
  have fresh: "?q \<notin> set (cells_of (cs l'))" for l' by (rule path_fresh_notin [OF p(2,5)])
  have same: "chain hp1 (list_of l' p) (cs l')" for l'
    using p(5) created fresh by (auto simp: dzn_list_create_def malloc_def)
  have sep: "set (cells_of (cs l)) \<inter> set (cells_of [(?q, d)]) = {}" using fresh by simp
  obtain a hp2 where app: "dzn_list_append (list_of l p) ?q hp1 = return_run (a, hp2)"
      "chain hp2 a (cs l @ [(?q, d)])" "fresh hp2 = fresh hp1"
      "\<And>x. x \<notin> set (cells_of (cs l)) \<Longrightarrow> objs hp2 x = objs hp1 x"
    using dzn_list_append_chain [OF same made(1) sep] by metis
  have ok: "store_ok hp2"
    unfolding store_ok_def
  proof (intro conjI allI impI)
    show "0 < fresh hp2" using app(3) made(2) by (simp add: store_ok_def)
    have bound: "x \<notin> set (cells_of (cs l))" if "objs hp1 x = None" for x
      using path_live [OF same [of l], of x] that by (metis option.distinct(1))
    show "objs hp2 x = None" if "fresh hp2 \<le> x" for x
      using that app(3,4) bound made(2) by (simp add: store_ok_def)
    show "objs hp2 NULL = None"
      using app(4) bound made(2) by (simp add: store_ok_def)
  qed
  have kept: "objs hp2 x = objs (ps_cells s) x" if "l' \<noteq> l" "x \<in> set (cells_of (cs l'))" for l' x
  proof -
    have "x \<notin> set (cells_of (cs l))" using that p(7) [of l' l] by blast
    moreover have "x \<noteq> ?q" using that(2) fresh [of l'] by metis
    ultimately show ?thesis using app(4) made(4) by metis
  qed
  have apart: "set (cells_of (cs l @ [(?q, d)])) \<inter> set (cells_of (cs l')) = {}" if "l' \<noteq> l" for l'
    using that p(7) [of l l'] fresh [of l'] by auto
  have "data_of (cs l @ [(?q, d)]) = ds l @ [d]" using p(6) by simp
  from pump_rep_change [OF p(3,1,5,6,7) ok app(2) this kept apart]
  show ?thesis
    using that p(4) new app(1) by (simp add: pump_enqueue_def)
qed

lemma pump_delete_rep:
  assumes "pump_rep s self ds"
  obtains s' where "pump_delete self l d s = return_run s'" and "pump_rep s' self (ds(l := remove1 d (ds l)))"
    and "lists_only self s s'"
proof -
  obtain p cs where p: "self \<noteq> NULL" "store_ok (ps_cells s)" "objs (ps_pumps s) self = Some p"
      "get_pump s self = return_run p" "\<And>l. chain (ps_cells s) (list_of l p) (cs l)"
      "\<And>l. data_of (cs l) = ds l"
      "\<And>l l'. l \<noteq> l' \<Longrightarrow> set (cells_of (cs l)) \<inter> set (cells_of (cs l')) = {}"
    using pump_repE [OF assms] by metis
  obtain a hp where del: "dzn_list_delete (list_of l p) d (ps_cells s) = return_run (a, hp)"
      "chain hp a (remove_data d (cs l))" "fresh hp = fresh (ps_cells s)"
      "\<And>x. x \<notin> set (cells_of (cs l)) \<Longrightarrow> objs hp x = objs (ps_cells s) x"
    using dzn_list_delete_chain [OF p(5) [of l], of d] by metis
  have ok: "store_ok hp"
    unfolding store_ok_def
  proof (intro conjI allI impI)
    show "0 < fresh hp" using del(3) p(2) by (simp add: store_ok_def)
    have bound: "x \<notin> set (cells_of (cs l))" if "objs (ps_cells s) x = None" for x
      using path_live [OF p(5) [of l], of x] that by (metis option.distinct(1))
    show "objs hp x = None" if "fresh hp \<le> x" for x
      using that del(3,4) bound p(2) by (simp add: store_ok_def)
    show "objs hp NULL = None" using del(4) bound p(2) by (simp add: store_ok_def)
  qed
  have kept: "objs hp x = objs (ps_cells s) x" if "l' \<noteq> l" "x \<in> set (cells_of (cs l'))" for l' x
    using that p(7) [of l' l] del(4) [of x] by blast
  have apart: "set (cells_of (remove_data d (cs l))) \<inter> set (cells_of (cs l')) = {}" if "l' \<noteq> l" for l'
    using that p(7) [of l l'] set_remove_data [of d "cs l"] by auto
  have "data_of (remove_data d (cs l)) = remove1 d (ds l)" using p(6) by simp
  from pump_rep_change [OF p(3,1,5,6,7) ok del(2) this kept apart]
  show ?thesis
    using that p(4) del(1) by (simp add: pump_delete_def)
qed

text \<open>The data of a list, searched.\<close>

fun first_data :: "dzn_predicate \<Rightarrow> addr list \<Rightarrow> addr result" where
  "first_data P [] = Inr NULL"
| "first_data P (d # ds) = seq (P d) (\<lambda>b. if b then Inr d else first_data P ds)"

lemma first_match_data:
  "seq (first_match P cs) (\<lambda>m. Inr (case m of None \<Rightarrow> NULL | Some x \<Rightarrow> snd x)) = first_data P (data_of cs)"
proof (induction cs)
  case (Cons x cs)
  then show ?case by (cases "P (snd x)") auto
qed simp

lemma pump_find_rep:
  assumes "pump_rep s self ds"
  shows "pump_find env self l P s = Some (first_data (P env s) (ds l))"
proof -
  obtain p cs where p: "get_pump s self = return_run p" "chain (ps_cells s) (list_of l p) (cs l)"
      "data_of (cs l) = ds l"
    using pump_repE [OF assms] by metis
  show ?thesis
    by (simp add: pump_find_def p(1,3) dzn_list_find_predicate_chain [OF p(2)] first_match_data)
qed

text \<open>The ports of the coroutines in a list.\<close>

definition port_at :: "('c, 'u, 'w) psys \<Rightarrow> addr \<Rightarrow> addr option" where
  "port_at s d = (if d = NULL then None else map_option pc_port (objs (ps_ports s) d))"

lemma port_at_Some: "port_at s d = Some port \<longleftrightarrow> d \<noteq> NULL \<and> (\<exists>x. objs (ps_ports s) d = Some x \<and> pc_port x = port)"
  by (auto simp: port_at_def)

lemma first_port:
  assumes "dzn_coroutine_data (pe_lib env) (ps_co s) = int port"
    and "\<And>d. d \<in> set ds \<Longrightarrow> port_at s d \<noteq> None"
  shows "first_data (port_predicate env s) ds =
    Inr (case find (\<lambda>d. port_at s d = Some port) ds of None \<Rightarrow> NULL | Some d \<Rightarrow> d)"
  using assms(2)
proof (induction ds)
  case (Cons d ds)
  then obtain q where "port_at s d = Some q" by fastforce
  with Cons assms(1) show ?case by (auto simp: port_predicate_def port_at_Some store_simps)
qed simp

lemma first_port_dangling:
  assumes "dzn_coroutine_data (pe_lib env) (ps_co s) = int port"
    and "\<And>d. d \<in> set ds \<Longrightarrow> \<exists>q. port_at s d = Some q \<and> q \<noteq> port"
    and "p \<noteq> NULL" and "objs (ps_ports s) p = None"
  shows "first_data (port_predicate env s) (ds @ p # es) = Inl UseAfterFree"
  using assms(2)
proof (induction ds)
  case Nil
  then show ?case using assms(3,4) by (simp add: port_predicate_def load_dangling)
next
  case (Cons d ds)
  then obtain q where "port_at s d = Some q" "q \<noteq> port" by fastforce
  with Cons assms(1) show ?case by (auto simp: port_predicate_def port_at_Some store_simps)
qed


lemma lists_only_views:
  assumes "lists_only self s s'"
  shows "port_at s' = port_at s" and "current env s' = current env s" and "current_id env s' = current_id env s"
    and "set_data env d s' = s' \<longleftrightarrow> set_data env d s = s"
  using lists_onlyD [OF assms]
  by (auto simp: port_at_def current_def current_id_def set_data_def fun_eq_iff
      dest: arg_cong [where f = ps_co])

lemma lists_only_co_ok: "lists_only self s s' \<Longrightarrow> co_env_ok alive key_of env s' = co_env_ok alive key_of env s"
  by (simp add: co_env_ok_def lists_onlyD)

section \<open>Releasing\<close>

lemma lists_only_refl: "pump_rep s self ds \<Longrightarrow> lists_only self s s"
proof (elim pump_repE)
  fix p
  assume "objs (ps_pumps s) self = Some p"
  then show "lists_only self s s"
    unfolding lists_only_def
    by (intro exI [of _ p] exI [of _ "ps_cells s"]) (simp add: put_pump_def set_obj_def fun_upd_idem)
qed

text \<open>The collateral coroutines of the port move to the end of the released list, in order.\<close>

lemma release_collateral_rep:
  assumes "pump_rep s self ds" and "dzn_coroutine_data (pe_lib env) (ps_co s) = int port"
    and "\<And>d. d \<in> set (ds Collateral) \<Longrightarrow> port_at s d \<noteq> None"
  shows "\<exists>s'. release_collateral env self s = return_run s' \<and> lists_only self s s' \<and>
    pump_rep s' self (ds(Collateral := filter (\<lambda>d. port_at s d \<noteq> Some port) (ds Collateral),
      Released := ds Released @ filter (\<lambda>d. port_at s d = Some port) (ds Collateral)))"
  using assms
proof (induction "length (filter (\<lambda>d. port_at s d = Some port) (ds Collateral))" arbitrary: s ds)
  case 0
  then have none: "\<And>d. d \<in> set (ds Collateral) \<Longrightarrow> port_at s d \<noteq> Some port"
    by (auto simp: filter_empty_conv)
  then have keep: "filter (\<lambda>d. port_at s d \<noteq> Some port) (ds Collateral) = ds Collateral"
    "filter (\<lambda>d. port_at s d = Some port) (ds Collateral) = []" by (auto simp: filter_id_conv)
  have "find (\<lambda>d. port_at s d = Some port) (ds Collateral) = None"
    using none by (auto simp: find_None_iff)
  then have "release_collateral env self s = return_run s"
    using pump_find_rep [OF "0.prems"(1), of env Collateral port_predicate]
      first_port [OF "0.prems"(2,3)]
    by (subst release_collateral.simps) simp
  then show ?case using "0.prems"(1) lists_only_refl [OF "0.prems"(1)] by (auto simp: keep)
next
  case (Suc n)
  let ?m = "\<lambda>d. port_at s d = Some port"
  have "filter ?m (ds Collateral) \<noteq> []" using Suc.hyps(2) by (metis list.size(3) Zero_not_Suc)
  then have "\<exists>d \<in> set (ds Collateral). ?m d" by (auto simp: filter_empty_conv)
  then obtain xs d ys where split: "ds Collateral = xs @ d # ys" and d: "?m d" and xs: "\<forall>x \<in> set xs. \<not> ?m x"
    by (auto dest!: split_list_first_prop)
  have "find ?m (xs @ d # ys) = Some d" using xs d by (induction xs) auto
  then have "find ?m (ds Collateral) = Some d" by (simp add: split)
  then have found: "pump_find env self Collateral port_predicate s = return_run d"
    using pump_find_rep [OF Suc.prems(1), of env Collateral port_predicate] first_port [OF Suc.prems(2,3)]
    by (simp add: return_run_def)
  obtain x where x: "d \<noteq> NULL" "objs (ps_ports s) d = Some x" using d by (auto simp: port_at_Some)
  obtain s1 where s1: "pump_enqueue self Released d s = return_run s1"
      "pump_rep s1 self (ds(Released := ds Released @ [d]))" "lists_only self s s1"
    by (rule pump_enqueue_rep [OF Suc.prems(1)])
  obtain s2 where s2: "pump_delete self Collateral d s1 = return_run s2"
      "pump_rep s2 self (ds(Released := ds Released @ [d], Collateral := xs @ ys))" "lists_only self s1 s2"
  proof (rule pump_delete_rep [OF s1(2), of Collateral d])
    fix s2
    assume a: "pump_delete self Collateral d s1 = return_run s2" "lists_only self s1 s2"
      "pump_rep s2 self ((ds(Released := ds Released @ [d]))(Collateral :=
        remove1 d ((ds(Released := ds Released @ [d])) Collateral)))"
    have "d \<notin> set xs" using xs d by auto
    then have "remove1 d (ds Collateral) = xs @ ys" by (simp add: split remove1_append)
    with a that show thesis by simp
  qed
  note both = lists_only_trans [OF s1(3) s2(3)]
  have step: "release_collateral env self s = release_collateral env self s2"
    using s1(1) s2(1) x by (subst release_collateral.simps) (simp add: found store_simps)
  have "length (filter ?m (xs @ ys)) = n" using Suc.hyps(2) d by (simp add: split)
  moreover have "port_at s2 = port_at s" "ps_co s2 = ps_co s"
    using lists_only_views [OF both] lists_onlyD [OF both] by auto
  ultimately obtain s3 where s3: "release_collateral env self s2 = return_run s3" "lists_only self s2 s3"
    "pump_rep s3 self (ds(Released := ds Released @ [d], Collateral := xs @ ys,
      Collateral := filter (\<lambda>d. \<not> ?m d) (xs @ ys), Released := (ds Released @ [d]) @ filter ?m (xs @ ys)))"
    using Suc.hyps(1) [OF _ s2(2)] Suc.prems(2,3) by (auto simp: split)
  have "filter ?m xs = []" using xs by (simp add: filter_empty_conv)
  with s3(3) d have "pump_rep s3 self (ds(Collateral := filter (\<lambda>d. \<not> ?m d) (ds Collateral),
      Released := ds Released @ filter ?m (ds Collateral)))"
    by (simp add: split fun_upd_twist)
  with s3(1) step lists_only_trans [OF both s3(2)] show ?case by auto
qed


text \<open>Unlinking and freeing the first cell of a list.\<close>

lemma pump_pop_rep:
  assumes "pump_rep s self ds" and "ds l = d # rest"
  obtains p cell where "get_pump s self = return_run p" and "list_of l p \<noteq> NULL"
    and "load (ps_cells s) (list_of l p) = Inr cell" and "cell_data cell = d"
    and "free_cell (list_of l p) s = return_run (s\<lparr>ps_cells := set_obj (list_of l p) None (ps_cells s)\<rparr>)"
    and "pump_rep (put_pump self (set_list l (cell_next cell) p)
      (s\<lparr>ps_cells := set_obj (list_of l p) None (ps_cells s)\<rparr>)) self (ds(l := rest))"
proof -
  obtain p cs where p: "self \<noteq> NULL" "store_ok (ps_cells s)" "objs (ps_pumps s) self = Some p"
      "get_pump s self = return_run p" "\<And>l. chain (ps_cells s) (list_of l p) (cs l)"
      "\<And>l. data_of (cs l) = ds l"
      "\<And>l l'. l \<noteq> l' \<Longrightarrow> set (cells_of (cs l)) \<inter> set (cells_of (cs l')) = {}"
    using pump_repE [OF assms(1)] by metis
  obtain a new where cs: "cs l = (a, d) # new" "data_of new = rest"
    using p(6) [of l] assms(2) by (cases "cs l") auto
  with p(5) [of l] obtain cell where cell: "list_of l p = a" "a \<noteq> NULL" "objs (ps_cells s) a = Some cell"
      "cell_data cell = d" "chain (ps_cells s) (cell_next cell) new"
    by auto
  have a: "a \<notin> set (cells_of new)" using path_distinct [OF p(5) [of l]] cs(1) by simp
  let ?hp = "set_obj a None (ps_cells s)"
  have "chain ?hp (cell_next cell) new" using cell(5) a by simp
  moreover have kept: "objs ?hp x = objs (ps_cells s) x" if "l' \<noteq> l" "x \<in> set (cells_of (cs l'))" for l' x
    using that p(7) [of l' l] cs(1) by auto
  moreover have "set (cells_of new) \<inter> set (cells_of (cs l')) = {}" if "l' \<noteq> l" for l'
    using p(7) [of l l'] that cs(1) by auto
  ultimately have "pump_rep (put_pump self (set_list l (cell_next cell) p) (s\<lparr>ps_cells := ?hp\<rparr>)) self (ds(l := rest))"
    using pump_rep_change [OF p(3,1,5,6,7) store_ok_free [OF p(2)], of a "cell_next cell" new rest l] cs(2)
    by simp
  with p(4) cell show ?thesis
    by (intro that [of p cell]) (auto simp: store_simps free_cell_def)
qed

lemma pump_rep_cong:
  assumes "pump_rep s self ds" and "ps_cells s' = ps_cells s" and "ps_pumps s' = ps_pumps s"
  shows "pump_rep s' self ds"
  using assms by (simp add: pump_rep_def)

lemma process_released_rep:
  assumes "co_env_ok alive key_of env s" and "pump_rep s self ds" and "ds Released = d # rest"
    and x: "objs (ps_ports s) d = Some x" "d \<noteq> NULL" "pc_port x \<noteq> NULL"
    and "\<forall>e \<in> set (ds Collateral). e \<noteq> d \<and> port_at s e \<noteq> None"
  shows "\<exists>s'. pump_process_released env self s =
      return_run (s', [Yield_to (pc_coroutine x), Process_released self]) \<and>
    pump_rep s' self (ds(Collateral := filter (\<lambda>e. port_at s e \<noteq> Some (pc_port x)) (ds Collateral),
      Released := rest @ filter (\<lambda>e. port_at s e = Some (pc_port x)) (ds Collateral))) \<and>
    ps_ports s' = set_obj d None (ps_ports s) \<and> ps_co s' = ps_co (set_data env (int (pc_port x)) s) \<and>
    ps_rt s' = ps_rt s \<and> ps_stacks s' = ps_stacks s \<and> ps_closures s' = ps_closures s \<and>
    ps_deferreds s' = ps_deferreds s"
proof -
  obtain p cell where pop: "get_pump s self = return_run p" "list_of Released p \<noteq> NULL"
    "load (ps_cells s) (list_of Released p) = Inr cell" "cell_data cell = d"
    "free_cell (list_of Released p) s =
      return_run (s\<lparr>ps_cells := set_obj (list_of Released p) None (ps_cells s)\<rparr>)"
    "pump_rep (put_pump self (set_list Released (cell_next cell) p)
      (s\<lparr>ps_cells := set_obj (list_of Released p) None (ps_cells s)\<rparr>)) self (ds(Released := rest))"
    by (rule pump_pop_rep [OF assms(2,3)]) blast
  define s1 where "s1 = set_data env (int (pc_port x)) (put_pump self (p\<lparr>pump_released := cell_next cell\<rparr>)
      (s\<lparr>ps_cells := set_obj (list_of Released p) None (ps_cells s)\<rparr>))"
  define s2 where "s2 = s1\<lparr>ps_ports := set_obj d None (ps_ports s)\<rparr>"
  have s1_co: "ps_co s1 = ps_co (set_data env (int (pc_port x)) s)"
    by (simp add: s1_def set_data_def)
  have free: "free_port d s1 = return_run s2"
    using x by (simp add: free_port_def s1_def s2_def store_simps)
  have rep2: "pump_rep s2 self (ds(Released := rest))"
    by (rule pump_rep_cong [OF pop(6)]) (simp_all add: s2_def s1_def)
  have "dzn_coroutine_data (pe_lib env) (ps_co s2) = int (pc_port x)"
    using set_data_facts(3) [OF assms(1)] by (simp add: s2_def s1_co)
  moreover have live: "port_at s2 e = port_at s e" if "e \<in> set (ds Collateral)" for e
    using assms(7) that by (auto simp: port_at_def s2_def)
  ultimately obtain s3 where s3: "release_collateral env self s2 = return_run s3" "lists_only self s2 s3"
    "pump_rep s3 self ((ds(Released := rest))(Collateral := filter (\<lambda>d. port_at s2 d \<noteq> Some (pc_port x)) (ds Collateral),
      Released := rest @ filter (\<lambda>d. port_at s2 d = Some (pc_port x)) (ds Collateral)))"
    using release_collateral_rep [OF rep2] assms(7) by fastforce
  have "filter (\<lambda>d. port_at s2 d \<noteq> Some (pc_port x)) (ds Collateral) =
      filter (\<lambda>d. port_at s d \<noteq> Some (pc_port x)) (ds Collateral)"
    "filter (\<lambda>d. port_at s2 d = Some (pc_port x)) (ds Collateral) =
      filter (\<lambda>d. port_at s d = Some (pc_port x)) (ds Collateral)"
    by (auto intro!: filter_cong simp: live)
  with s3(3) have "pump_rep s3 self (ds(Collateral := filter (\<lambda>e. port_at s e \<noteq> Some (pc_port x)) (ds Collateral),
      Released := rest @ filter (\<lambda>e. port_at s e = Some (pc_port x)) (ds Collateral)))"
    by (simp add: fun_upd_twist)
  moreover have "pump_process_released env self s =
      return_run (s3, [Yield_to (pc_coroutine x), Process_released self])"
    using pop(1-5) x free s3(1)
    by (simp add: pump_process_released_def store_simps port_name_def s1_def)
  ultimately show ?thesis
    using lists_onlyD [OF s3(2)] s1_co by (auto simp: s2_def s1_def)
qed


lemma pump_find_port:
  assumes "pump_rep s self ds" and "dzn_coroutine_data (pe_lib env) (ps_co s) = int port"
    and "\<forall>d \<in> set (ds l). port_at s d \<noteq> None"
  shows "pump_find env self l port_predicate s =
    return_run (case find (\<lambda>d. port_at s d = Some port) (ds l) of None \<Rightarrow> NULL | Some d \<Rightarrow> d)"
  using pump_find_rep [OF assms(1), of env l port_predicate] first_port [OF assms(2), of "ds l"] assms(3)
  by (simp add: return_run_def)

lemma find_nonNULL: "find (\<lambda>d. port_at s d = Some port) ds = Some d \<Longrightarrow> d \<noteq> NULL \<and> d \<in> set ds \<and> port_at s d = Some port"
  by (auto simp: find_Some_iff port_at_Some)

lemma pump_rep_set_data [simp]: "pump_rep (set_data env d s) self ds = pump_rep s self ds"
  by (auto intro: pump_rep_cong)

lemma port_at_set_data [simp]: "port_at (set_data env d s) = port_at s"
  by (simp add: port_at_def fun_eq_iff)

lemma release_blocked:
  assumes "co_env_ok alive key_of env s" and "pump_rep s self ds" and "port \<noteq> NULL"
    and "\<forall>d \<in> set (ds Blocked). port_at s d \<noteq> None"
    and "find (\<lambda>d. port_at s d = Some port) (ds Blocked) = Some b"
  shows "\<exists>s'. dzn_pump_release env self port s = return_run s' \<and>
    pump_rep s' self (ds(Released := ds Released @ [b])) \<and>
    lists_only self (set_data env (int port) s) s'"
proof -
  let ?s = "set_data env (int port) s"
  have found: "pump_find env self Blocked port_predicate ?s = return_run b"
    using pump_find_port [of ?s self ds env port Blocked] set_data_facts(3) [OF assms(1)] assms(2,4,5)
    by simp
  have "b \<noteq> NULL" using find_nonNULL [OF assms(5)] by simp
  moreover obtain s' where s': "pump_enqueue self Released b ?s = return_run s'"
    "pump_rep s' self (ds(Released := ds Released @ [b]))" "lists_only self ?s s'"
    by (rule pump_enqueue_rep [of ?s self ds Released b]) (use assms(2) in simp_all)
  ultimately have "dzn_pump_release env self port s = return_run s'"
    using found assms(3) by (simp add: dzn_pump_release_def port_name_def Let_def)
  with s' show ?thesis by blast
qed

lemma release_unblocked:
  assumes "co_env_ok alive key_of env s" and "pump_rep s self ds" and "port \<noteq> NULL"
    and "\<forall>d \<in> set (ds Blocked). \<exists>q. port_at s d = Some q \<and> q \<noteq> port"
  shows "\<exists>s'. dzn_pump_release env self port s = return_run s' \<and>
    pump_rep s' self (ds(Released := ds Released @ [fresh (ps_ports s)])) \<and>
    lists_only self ((set_data env (int port) s)\<lparr>ps_ports := snd (malloc \<lparr>pc_port = port,
      pc_coroutine = current env s, pc_id = current_id env s\<rparr> (ps_ports s))\<rparr>) s'"
proof -
  let ?s = "set_data env (int port) s"
  let ?t = "?s\<lparr>ps_ports := snd (malloc \<lparr>pc_port = port, pc_coroutine = current env s,
    pc_id = current_id env s\<rparr> (ps_ports s))\<rparr>"
  note facts = set_data_facts [OF assms(1)]
  have "find (\<lambda>d. port_at s d = Some port) (ds Blocked) = None"
    using assms(4) by (fastforce simp: find_None_iff)
  then have found: "pump_find env self Blocked port_predicate ?s = return_run NULL"
    using pump_find_port [of ?s self ds env port Blocked] facts(3) assms(2,4) by fastforce
  have "pump_rep ?t self ds" using assms(2) by (auto intro: pump_rep_cong)
  then obtain s' where s': "pump_enqueue self Released (fresh (ps_ports s)) ?t = return_run s'"
    "pump_rep s' self (ds(Released := ds Released @ [fresh (ps_ports s)]))" "lists_only self ?t s'"
    by (rule pump_enqueue_rep)
  have "port_coroutine_create env port (current env s) ?s = (fresh (ps_ports s), ?t)"
    by (simp add: port_coroutine_create_def malloc_def facts(5))
  with found s'(1) assms(3) have "dzn_pump_release env self port s = return_run s'"
    by (simp add: dzn_pump_release_def port_name_def Let_def facts(2))
  with s' show ?thesis by blast
qed

text \<open>C25: a release that comes before the block is remembered: \<open>dzn_pump_release\<close> queues a record of the
  port, and the \<open>dzn_pump_block\<close> that follows, by whatever coroutine, takes it back, does not yield and
  leaves every list and every record as it was.\<close>

theorem release_before_block:
  assumes "co_env_ok alive key_of env s" and "pump_rep s self ds" and "port \<noteq> NULL"
    and "store_ok (ps_ports s)"
    and "\<forall>d \<in> set (ds Blocked) \<union> set (ds Released). \<exists>q. port_at s d = Some q \<and> q \<noteq> port"
  shows "\<exists>s1. dzn_pump_release env self port s = return_run s1 \<and>
    pump_rep s1 self (ds(Released := ds Released @ [fresh (ps_ports s)])) \<and>
    (\<forall>co. co_env_ok alive key_of env (s1\<lparr>ps_co := co\<rparr>) \<longrightarrow>
      (\<exists>s2. dzn_pump_block env self port (s1\<lparr>ps_co := co\<rparr>) = return_run (s2, []) \<and> pump_rep s2 self ds \<and>
        objs (ps_ports s2) = objs (ps_ports s)))"
proof -
  let ?d = "fresh (ps_ports s)"
  obtain s1 where s1: "dzn_pump_release env self port s = return_run s1"
    "pump_rep s1 self (ds(Released := ds Released @ [?d]))"
    "lists_only self ((set_data env (int port) s)\<lparr>ps_ports := snd (malloc \<lparr>pc_port = port,
      pc_coroutine = current env s, pc_id = current_id env s\<rparr> (ps_ports s))\<rparr>) s1"
    using release_unblocked [OF assms(1-3)] assms(5) by blast
  have new: "?d \<noteq> NULL" "objs (ps_ports s) ?d = None" using assms(4) by (auto simp: store_ok_def)
  have ports: "objs (ps_ports s1) = (objs (ps_ports s))(?d \<mapsto> \<lparr>pc_port = port,
      pc_coroutine = current env s, pc_id = current_id env s\<rparr>)"
    using lists_onlyD(2) [OF s1(3)] by (auto simp: malloc_def)
  have "\<exists>s2. dzn_pump_block env self port (s1\<lparr>ps_co := co\<rparr>) = return_run (s2, []) \<and> pump_rep s2 self ds \<and>
      objs (ps_ports s2) = objs (ps_ports s)"
    if co: "co_env_ok alive key_of env (s1\<lparr>ps_co := co\<rparr>)" for co
  proof -
    define t where "t = set_data env (int port) (s1\<lparr>ps_co := co\<rparr>)"
    have rep: "pump_rep t self (ds(Released := ds Released @ [?d]))"
      using s1(2) by (auto simp: t_def intro: pump_rep_cong)
    have view: "port_at t d = (if d = ?d then Some port else port_at s d)" for d
      using new(1) by (simp add: port_at_def ports t_def)
    have datum: "dzn_coroutine_data (pe_lib env) (ps_co t) = int port"
      unfolding t_def by (rule set_data_facts(3) [OF co])
    have old: "port_at s d \<noteq> None \<and> port_at s d \<noteq> Some port" if "d \<in> set (ds Released)" for d
    proof -
      from that assms(5) obtain q where "port_at s d = Some q" "q \<noteq> port" by blast
      then show ?thesis by simp
    qed
    have "port_at s ?d = None" using new by (simp add: port_at_def)
    with old [of ?d] have "?d \<notin> set (ds Released)" by auto
    then have none: "\<forall>d \<in> set (ds Released). port_at t d \<noteq> None \<and> port_at t d \<noteq> Some port"
      using old by (auto simp: view)
    have search: "find (\<lambda>d. port_at t d = Some port) (es @ [?d]) = Some ?d"
      if "\<forall>d \<in> set es. port_at t d \<noteq> None \<and> port_at t d \<noteq> Some port" for es
      using that by (induction es) (auto simp: view)
    have "\<forall>d \<in> set ((ds(Released := ds Released @ [?d])) Released). port_at t d \<noteq> None"
      using none by (auto simp: view)
    from pump_find_port [OF rep datum this] search [OF none]
    have found: "pump_find env self Released port_predicate t = return_run ?d" by simp
    have removed: "remove1 ?d (ds Released @ [?d]) = ds Released"
      using \<open>?d \<notin> set (ds Released)\<close> by (simp add: remove1_append)
    obtain s2 where s2: "pump_delete self Released ?d t = return_run s2"
      "pump_rep s2 self ds" "lists_only self t s2"
      using pump_delete_rep [OF rep, of Released ?d] removed by auto
    have kept: "ps_ports s2 = ps_ports s1" using lists_onlyD(2) [OF s2(3)] by (simp add: t_def)
    have "free_port ?d s2 = return_run (s2\<lparr>ps_ports := set_obj ?d None (ps_ports s1)\<rparr>)"
      using new by (simp add: free_port_def kept ports store_simps)
    with found s2(1) new(1) assms(3)
    have "dzn_pump_block env self port (s1\<lparr>ps_co := co\<rparr>) =
        return_run (s2\<lparr>ps_ports := set_obj ?d None (ps_ports s1)\<rparr>, [])"
      by (simp add: dzn_pump_block_def port_name_def Let_def t_def)
    moreover have "pump_rep (s2\<lparr>ps_ports := set_obj ?d None (ps_ports s1)\<rparr>) self ds"
      using s2(2) by (auto intro: pump_rep_cong)
    moreover have "objs (set_obj ?d None (ps_ports s1)) = objs (ps_ports s)"
      using new by (auto simp: ports fun_eq_iff)
    ultimately show ?thesis by auto
  qed
  with s1 show ?thesis by blast
qed

text \<open>C24: a release that comes after the block frees the record of the blocked coroutine while the list of
  blocked coroutines still points to it: when that coroutine is resumed, \<open>dzn_pump_block\<close> reads freed
  memory.\<close>

theorem release_after_block_use_after_free:
  assumes "co_env_ok alive key_of env s" and "pump_rep s self ds" and "port \<noteq> NULL"
    and "ds Released = []" and "ds Blocked = xs @ b # ys"
    and "objs (ps_ports s) b = Some x" and "b \<noteq> NULL" and "pc_port x = port"
    and "\<forall>d \<in> set xs. \<exists>q. port_at s d = Some q \<and> q \<noteq> port" and "\<forall>d \<in> set ys. port_at s d \<noteq> None"
    and "\<forall>d \<in> set (ds Collateral). d \<noteq> b \<and> port_at s d \<noteq> None"
  shows "\<exists>s1 s2. dzn_pump_release env self port s = return_run s1 \<and>
    pump_process_released env self s1 = return_run (s2, [Yield_to (pc_coroutine x), Process_released self]) \<and>
    (\<forall>s3. co_env_ok alive key_of env s3 \<and> ps_pumps s3 = ps_pumps s2 \<and> ps_cells s3 = ps_cells s2 \<and>
      ps_ports s3 = ps_ports s2 \<longrightarrow> block_resumed env self port s3 = fail_run UseAfterFree)"
proof -
  have b: "port_at s b = Some port" using assms(6-8) by (auto simp: port_at_def)
  then have "find (\<lambda>d. port_at s d = Some port) (xs @ b # ys) = Some b"
    using assms(9) by (induction xs) auto
  moreover have "\<forall>d \<in> set (ds Blocked). port_at s d \<noteq> None"
    using assms(5,9,10) b by fastforce
  ultimately obtain s1 where s1: "dzn_pump_release env self port s = return_run s1"
    "pump_rep s1 self (ds(Released := [b]))" "lists_only self (set_data env (int port) s) s1"
    using release_blocked [OF assms(1-3), of b] by (auto simp: assms(4,5))
  note same = lists_onlyD [OF s1(3)]
  have ok1: "co_env_ok alive key_of env s1"
    using lists_only_co_ok [OF s1(3)] set_data_facts(1) [OF assms(1)] by simp
  have view: "port_at s1 = port_at s" using lists_only_views(1) [OF s1(3)] by simp
  have "\<exists>s2 ds2. pump_process_released env self s1 =
      return_run (s2, [Yield_to (pc_coroutine x), Process_released self]) \<and>
    pump_rep s2 self ds2 \<and> ds2 Blocked = ds Blocked \<and> ps_ports s2 = set_obj b None (ps_ports s)"
  proof -
    have f: "objs (ps_ports s1) b = Some x" "pc_port x \<noteq> NULL" "ps_ports s1 = ps_ports s"
      using same(2) assms(3,6,8) by simp_all
    have rel: "(ds(Released := [b])) Released = [b]" by simp
    have "\<forall>e \<in> set ((ds(Released := [b])) Collateral). e \<noteq> b \<and> port_at s1 e \<noteq> None"
      using assms(11) by (simp add: view)
    from process_released_rep [OF ok1 s1(2) rel f(1) assms(7) f(2) this] show ?thesis
      by (elim exE conjE) (intro exI conjI, assumption, assumption, simp, simp add: f(3))
  qed
  then obtain s2 ds2 where s2: "pump_process_released env self s1 =
      return_run (s2, [Yield_to (pc_coroutine x), Process_released self])"
    "pump_rep s2 self ds2" "ds2 Blocked = ds Blocked" "ps_ports s2 = set_obj b None (ps_ports s)"
    by blast
  have "block_resumed env self port s3 = fail_run UseAfterFree"
    if "co_env_ok alive key_of env s3" "ps_pumps s3 = ps_pumps s2" "ps_cells s3 = ps_cells s2"
      "ps_ports s3 = ps_ports s2" for s3
  proof -
    let ?t = "set_data env (int port) s3"
    have rep: "pump_rep ?t self ds2" using that s2(2) by (auto intro: pump_rep_cong)
    have other: "\<exists>q. port_at ?t d = Some q \<and> q \<noteq> port" if "d \<in> set xs" for d
    proof -
      from that assms(9) obtain q where "port_at s d = Some q" "q \<noteq> port" by blast
      moreover from this have "d \<noteq> b" using b by auto
      ultimately show ?thesis using s2(4) \<open>ps_ports s3 = ps_ports s2\<close>
        by (auto simp: port_at_Some)
    qed
    have "objs (ps_ports ?t) b = None" using that(4) s2(4) by simp
    from first_port_dangling [OF set_data_facts(3) [OF that(1)] other assms(7) this]
    have "first_data (port_predicate env ?t) (ds2 Blocked) = Inl UseAfterFree"
      by (simp add: s2(3) assms(5))
    with pump_find_rep [OF rep, of env Blocked port_predicate] show ?thesis
      by (simp add: block_resumed_def Let_def fail_run_def)
  qed
  with s1(1) s2(1) show ?thesis by blast
qed


section \<open>One event, from the call to the return\<close>

lemma create_facts:
  assumes "co_env_ok alive key_of env s" and "objs (ps_pumps s) self = Some p" and "self \<noteq> NULL"
    and "pump_id p \<noteq> INT_MAX"
  obtains w s' where "pump_create_coroutine env self f s = return_run (w, s')"
    and "co_env_ok alive key_of env s'" and "w \<noteq> NULL" and "w \<notin> live alive (ps_co s)"
    and "live alive (ps_co s') = insert w (live alive (ps_co s))" and "current env s' = current env s"
    and "ident key_of (ps_co s') = (ident key_of (ps_co s))(w := 0)"
    and "s' = put_pump self (p\<lparr>pump_id := pump_id p + 1\<rparr>)
      (s\<lparr>ps_co := ps_co s', ps_stacks := (ps_stacks s)(w := [f])\<rparr>)"
proof -
  let ?w = "co_world (ps_co s)" and ?lib = "pe_lib env"
  note D = co_env_okD [OF assms(1)]
  obtain t w' where t: "pth_spawn ?lib ?w = (t, w')" "t \<noteq> NULL" "t \<notin> alive ?w" "alive w' = insert t (alive ?w)"
      "pth_self ?lib w' = pth_self ?lib ?w" "key_of w' = (key_of ?w)(t := (\<lambda>_. 0))"
    using pth_documentedD(3) [OF D(1,2)] by blast
  define s' where "s' = put_pump self (p\<lparr>pump_id := pump_id p + 1\<rparr>)
      (s\<lparr>ps_co := (ps_co s)\<lparr>co_world := w'\<rparr>, ps_stacks := (ps_stacks s)(t := [f])\<rparr>)"
  have "pump_create_coroutine env self f s = return_run (t, s')"
    using assms(2-4) t(1)
    by (simp add: pump_create_coroutine_def dzn_coroutine_create_def get_pump_def s'_def store_simps)
  moreover have "co_env_ok alive key_of env s'"
    using D t by (simp add: co_env_ok_def co_ok_def s'_def)
  ultimately show ?thesis
    using t that [of t s'] by (auto simp: live_def s'_def current_def dzn_coroutine_self_def ident_def fun_eq_iff)
qed

definition yielded :: "('c, 'u, 'w) penv \<Rightarrow> tid \<Rightarrow> ('c, 'u, 'w) psys \<Rightarrow> ('c, 'u, 'w) psys" where
  "yielded env t s = s\<lparr>ps_co := snd (dzn_coroutine_yield_to (pe_lib env) t (ps_co s))\<rparr>"

lemma yielded_simps [simp]:
  "ps_rt (yielded env t s) = ps_rt s" "ps_cells (yielded env t s) = ps_cells s"
  "ps_ports (yielded env t s) = ps_ports s" "ps_deferreds (yielded env t s) = ps_deferreds s"
  "ps_closures (yielded env t s) = ps_closures s" "ps_pumps (yielded env t s) = ps_pumps s"
  "ps_stacks (yielded env t s) = ps_stacks s"
  by (simp_all add: yielded_def)

lemma yield_facts:
  assumes "co_env_ok alive key_of env s" and "t \<in> live alive (ps_co s)" and "t \<noteq> current env s"
  shows "co_env_ok alive key_of env (yielded env t s)" and "current env (yielded env t s) = t"
    and "live alive (ps_co (yielded env t s)) = live alive (ps_co s)"
    and "ident key_of (ps_co (yielded env t s)) = ident key_of (ps_co s)"
proof -
  let ?w = "co_world (ps_co s)" and ?lib = "pe_lib env"
  note D = co_env_okD [OF assms(1)]
  obtain w' where w': "pth_yield ?lib t ?w = (True, w')" "alive w' = alive ?w" "pth_self ?lib w' = t"
      "key_of w' = key_of ?w"
    using pth_documentedD(4) [OF D(1,2)] assms(2,3)
    by (auto simp: live_def current_def dzn_coroutine_self_def)
  have co: "ps_co (yielded env t s) = (ps_co s)\<lparr>co_world := w'\<rparr>"
    using w'(1) by (simp add: yielded_def dzn_coroutine_yield_to_def)
  show "co_env_ok alive key_of env (yielded env t s)" using D w' assms(2) by (simp add: co_env_ok_def co_ok_def co live_def)
  show "current env (yielded env t s) = t" using w' by (simp add: current_def dzn_coroutine_self_def co)
  show "live alive (ps_co (yielded env t s)) = live alive (ps_co s)" using w' by (simp add: live_def co)
  show "ident key_of (ps_co (yielded env t s)) = ident key_of (ps_co s)" using w' by (simp add: ident_def fun_eq_iff co)
qed

lemma yield_to_self:
  assumes "co_env_ok alive key_of env s"
  shows "yielded env (current env s) s = s"
  using pth_documentedD(5) [OF co_env_okD(1,2) [OF assms]]
  by (simp add: yielded_def dzn_coroutine_yield_to_def current_def dzn_coroutine_self_def)

lemma set_stack_simps [simp]:
  "ps_rt (set_stack t fs s) = ps_rt s" "ps_cells (set_stack t fs s) = ps_cells s"
  "ps_ports (set_stack t fs s) = ps_ports s" "ps_deferreds (set_stack t fs s) = ps_deferreds s"
  "ps_closures (set_stack t fs s) = ps_closures s" "ps_pumps (set_stack t fs s) = ps_pumps s"
  "ps_co (set_stack t fs s) = ps_co s" "ps_stacks (set_stack t fs s) = (ps_stacks s)(t := fs)"
  "set_stack t fs (set_stack t gs s) = set_stack t fs s"
  by (simp_all add: set_stack_def)

lemma set_stack_views [simp]:
  "co_env_ok alive key_of env (set_stack t fs s) = co_env_ok alive key_of env s"
  "current env (set_stack t fs s) = current env s" "current_id env (set_stack t fs s) = current_id env s"
  "pump_rep (set_stack t fs s) self ds = pump_rep s self ds"
  by (auto simp: co_env_ok_def current_def current_id_def intro: pump_rep_cong)

lemma pump_rep_put:
  assumes "pump_rep s self ds" and "objs (ps_pumps s) self = Some p" and "\<And>l. list_of l q = list_of l p"
    and "ps_cells s' = ps_cells s" and "objs (ps_pumps s') self = Some q"
  shows "pump_rep s' self ds"
  using assms by (auto simp: pump_rep_def)

lemma pump_reaches_trans [trans]:
  "pump_reaches env s1 s2 \<Longrightarrow> pump_reaches env s2 s3 \<Longrightarrow> pump_reaches env s1 s3"
  by (rotate_tac, induction rule: pump_reaches.induct) (auto intro: pump_reaches.intros)

text \<open>One step of the current coroutine.\<close>

lemma frame_runs:
  assumes "ps_stacks s (current env s) = f # st"
    and "frame_step env f (set_stack (current env s) st s) = return_run (s', fs)"
  shows "pump_reaches env s (set_stack (current env s) (fs @ ps_stacks s' (current env s)) s')"
  using assms by (intro pump_more [OF pump_start]) (simp add: pump_step_def Let_def)

lemma frame_then:
  assumes "ps_stacks s (current env s) = f # st"
    and "frame_step env f (set_stack (current env s) st s) = return_run (s', fs)"
    and "pump_reaches env (set_stack (current env s) (fs @ ps_stacks s' (current env s)) s') s''"
  shows "pump_reaches env s s''"
  using pump_reaches_trans [OF frame_runs [OF assms(1,2)] assms(3)] .

text \<open>Handlers that call nothing.\<close>

primrec plocal :: "('c, 'u) pprog \<Rightarrow> bool" where
  "plocal PReturn \<longleftrightarrow> True"
| "plocal (PLocal f k) \<longleftrightarrow> (\<forall>u. plocal (k u))"
| "plocal (PNew c k) \<longleftrightarrow> False"
| "plocal (PBlocked_p self port k) \<longleftrightarrow> False"
| "plocal (PCall c p) \<longleftrightarrow> False"

primrec peffect :: "('c, 'u) pprog \<Rightarrow> 'u \<Rightarrow> 'u" where
  "peffect PReturn = (\<lambda>u. u)"
| "peffect (PLocal f k) = (\<lambda>u. peffect (k (f u)) (f u))"
| "peffect (PNew c k) = (\<lambda>u. u)"
| "peffect (PBlocked_p self port k) = (\<lambda>u. u)"
| "peffect (PCall c p) = (\<lambda>u. u)"

definition set_user :: "'u \<Rightarrow> ('c, 'u, 'w) psys \<Rightarrow> ('c, 'u, 'w) psys" where
  "set_user u s = s\<lparr>ps_rt := (ps_rt s)\<lparr>rt_user := u\<rparr>\<rparr>"

lemma set_user_simps [simp]:
  "ps_cells (set_user u s) = ps_cells s" "ps_ports (set_user u s) = ps_ports s"
  "ps_deferreds (set_user u s) = ps_deferreds s" "ps_closures (set_user u s) = ps_closures s"
  "ps_pumps (set_user u s) = ps_pumps s" "ps_co (set_user u s) = ps_co s"
  "ps_stacks (set_user u s) = ps_stacks s" "ps_rt (set_user u s) = (ps_rt s)\<lparr>rt_user := u\<rparr>"
  "set_user u (set_user v s) = set_user u s"
  "current env (set_user u s) = current env s" "current_id env (set_user u s) = current_id env s"
  "co_env_ok alive key_of env (set_user u s) = co_env_ok alive key_of env s"
  "pump_rep (set_user u s) self ds = pump_rep s self ds"
  by (auto simp: set_user_def co_env_ok_def current_def current_id_def intro: pump_rep_cong)

lemma set_user_same [simp]: "set_user (rt_user (ps_rt s)) s = s"
  by (simp add: set_user_def)

lemma set_user_stack: "set_stack t fs (set_user u s) = set_user u (set_stack t fs s)"
  by (cases s) (simp add: set_user_def set_stack_def)

lemma PLocal_step:
  "pprog_step env (PLocal f k) s =
     return_run (set_user (f (rt_user (ps_rt s))) s, [Rt (In_handler (k (f (rt_user (ps_rt s)))))])"
  by (simp add: set_user_def)

lemma plocal_runs:
  assumes "plocal p" and "ps_stacks s (current env s) = Rt (In_handler p) # st"
  shows "pump_reaches env s (set_user (peffect p (rt_user (ps_rt s))) (set_stack (current env s) st s))"
  using assms
proof (induction p arbitrary: s)
  case PReturn
  have same: "set_user (rt_user (ps_rt s)) (set_stack (current env s) st s) = set_stack (current env s) st s"
    by (simp add: set_user_def set_stack_def)
  have "pump_reaches env s (set_stack (current env s) st s)"
    using frame_runs [OF PReturn.prems(2)] by simp
  then show ?case by (simp only: same peffect.simps)
next
  case (PLocal f k)
  let ?u = "f (rt_user (ps_rt s))" and ?t = "current env s"
  define s1 where "s1 = set_user ?u (set_stack ?t (Rt (In_handler (k ?u)) # st) s)"
  have "pump_reaches env s s1"
    using frame_runs [OF PLocal.prems(2)]
    by (simp add: s1_def PLocal_step set_user_stack del: pprog_step.simps)
  moreover have "pump_reaches env s1 (set_user (peffect (k ?u) (rt_user (ps_rt s1))) (set_stack (current env s1) st s1))"
    by (rule PLocal.IH) (use PLocal.prems(1) in \<open>simp_all add: s1_def\<close>)
  moreover have "set_user (peffect (k ?u) (rt_user (ps_rt s1))) (set_stack (current env s1) st s1) =
      set_user (peffect (PLocal f k) (rt_user (ps_rt s))) (set_stack ?t st s)"
    by (simp add: s1_def set_user_stack)
  ultimately show ?case by (auto intro: pump_reaches_trans)
qed simp_all


definition invoker :: "('c, 'u, 'w) psys \<Rightarrow> addr \<Rightarrow> tid option" where
  "invoker s self = map_option pump_invoking (objs (ps_pumps s) self)"

lemma invoker_lists_only: "lists_only self s s' \<Longrightarrow> invoker s' self = invoker s self"
  by (auto simp: lists_only_def invoker_def)

lemma invoker_other [simp]:
  "invoker (set_stack t fs s) self = invoker s self" "invoker (set_user u s) self = invoker s self"
  "invoker (yielded env t s) self = invoker s self" "invoker (set_id env i s) self = invoker s self"
  by (simp_all add: invoker_def)

lemma worker_takes:
  assumes "co_env_ok alive key_of env s" and "pump_rep s self ds" and "ds Q = ev # rest"
    and "objs (ps_closures s) ev = Some c" and "ev \<noteq> NULL"
  shows "\<exists>s'. worker env self s = return_run (s', [Rt (In_handler (pe_body env c)), Process_released self]) \<and>
    pump_rep s' self (ds(Q := rest)) \<and> lists_only self (set_id env 1 s) s'"
proof -
  let ?s = "set_id env 1 s"
  have rep: "pump_rep ?s self ds" using assms(2) by (auto intro: pump_rep_cong)
  obtain p cs where p: "get_pump s self = return_run p" "chain (ps_cells s) (list_of Q p) (cs Q)" "data_of (cs Q) = ev # rest"
    using pump_repE [OF assms(2)] assms(3) by metis
  then obtain cell where cell: "pump_q p \<noteq> NULL" "objs (ps_cells s) (pump_q p) = Some cell" "cell_data cell = ev"
    by (cases "cs Q") auto
  obtain s' where s': "pump_delete self Q ev ?s = return_run s'" "pump_rep s' self (ds(Q := rest))"
    "lists_only self ?s s'"
    using pump_delete_rep [OF rep, of Q ev] assms(3) by auto
  have "worker env self s = return_run (s', [Rt (In_handler (pe_body env c)), Process_released self])"
    using p(1) cell s'(1) lists_onlyD(4) [OF s'(3)] assms(4,5)
    by (simp add: worker_def Let_def c_or_def store_simps)
  with s' show ?thesis by blast
qed

lemma yielded_stack: "set_stack c fs (yielded env t s) = yielded env t (set_stack c fs s)"
  by (cases s) (simp add: yielded_def set_stack_def)

lemma yield_runs:
  assumes "ps_stacks s (current env s) = Yield_to t # st"
  shows "pump_reaches env s (yielded env t (set_stack (current env s) st s))"
proof -
  let ?s = "set_stack (current env s) st s"
  have "frame_step env (Yield_to t) ?s = return_run (yielded env t ?s, [])"
    by (simp add: yielded_def)
  from frame_runs [OF assms this] show ?thesis by (simp add: yielded_stack)
qed

text \<open>A coroutine that finds nothing released hands control back to the one that called the pump.\<close>

lemma nothing_released:
  assumes "pump_rep s self ds" and "ds Released = []" and "current_id env s \<noteq> 0"
    and "ps_stacks s (current env s) = Process_released self # st" and "invoker s self = Some t"
  shows "pump_reaches env s (yielded env t (set_stack (current env s) st s))"
proof -
  let ?c = "current env s"
  obtain p cs where p: "get_pump s self = return_run p" "objs (ps_pumps s) self = Some p"
    "chain (ps_cells s) (list_of Released p) (cs Released)" "data_of (cs Released) = []" "self \<noteq> NULL"
    using pump_repE [OF assms(1)] assms(2) by metis
  then have none: "pump_released p = NULL" and t: "pump_invoking p = t" using assms(5) by (auto simp: invoker_def)
  have get: "get_pump (set_stack u fs s) self = return_run p" for u fs using p(2,5) by (simp add: get_pump_live)
  define s1 where "s1 = set_stack ?c (Handler self # st) s"
  define s2 where "s2 = set_stack ?c (Yield_to t # st) s"
  have c: "current env s1 = ?c" "current env s2 = ?c" by (simp_all add: s1_def s2_def)
  have "pump_reaches env s s1"
    by (rule frame_then [OF assms(4)])
      (use none in \<open>auto simp: pump_process_released_def get s1_def intro: pump_start\<close>)
  also have "pump_reaches env s1 s2"
    by (rule frame_then [of _ _ "Handler self" st])
      (use assms(3) t in \<open>auto simp: s1_def s2_def handler_def get intro: pump_start\<close>)
  also have "pump_reaches env s2 (yielded env t (set_stack ?c st s))"
    using yield_runs [of s2 env t st] by (simp add: s2_def)
  finally show ?thesis .
qed


lemma pump_run_starts:
  assumes "co_env_ok alive key_of env s" and "pump_rep s self ds"
    and "\<forall>p. objs (ps_pumps s) self = Some p \<longrightarrow> pump_id p < INT_MAX"
  shows "\<exists>w s'. dzn_pump_run env self ev s = return_run (s', [Yield_to w, Process_released self]) \<and>
    pump_rep s' self (ds(Q := ds Q @ [ev])) \<and> co_env_ok alive key_of env s' \<and> w \<notin> live alive (ps_co s) \<and>
    live alive (ps_co s') = insert w (live alive (ps_co s)) \<and> current env s' = current env s \<and>
    ident key_of (ps_co s') = (ident key_of (ps_co s))(w := 0) \<and>
    ps_stacks s' = (ps_stacks s)(w := [Worker self]) \<and> invoker s' self = Some (current env s) \<and>
    ps_rt s' = ps_rt s \<and> ps_closures s' = ps_closures s"
proof -
  obtain s1 where s1: "pump_enqueue self Q ev s = return_run s1" "pump_rep s1 self (ds(Q := ds Q @ [ev]))"
    "lists_only self s s1"
    by (rule pump_enqueue_rep [OF assms(2)])
  have ok1: "co_env_ok alive key_of env s1" using lists_only_co_ok [OF s1(3)] assms(1) by simp
  obtain p where p: "objs (ps_pumps s1) self = Some p" "pump_id p < INT_MAX" "self \<noteq> NULL"
    using s1(2,3) assms(3) by (auto simp: lists_only_def pump_rep_def)
  define q where "q = p\<lparr>pump_invoking := current env s1, pump_invoking_id := current_id env s1\<rparr>"
  define s2 where "s2 = put_pump self q s1"
  have rep2: "pump_rep s2 self (ds(Q := ds Q @ [ev]))"
    by (rule pump_rep_put [OF s1(2) p(1)]) (simp_all add: s2_def q_def)
  have ok2: "co_env_ok alive key_of env s2" using ok1 by (simp add: s2_def)
  have at2: "objs (ps_pumps s2) self = Some q" "pump_id q \<noteq> INT_MAX" using p(2) by (simp_all add: s2_def q_def)
  obtain w s3 where s3: "pump_create_coroutine env self (Worker self) s2 = return_run (w, s3)"
    "co_env_ok alive key_of env s3" "w \<notin> live alive (ps_co s2)"
    "live alive (ps_co s3) = insert w (live alive (ps_co s2))" "current env s3 = current env s2"
    "ident key_of (ps_co s3) = (ident key_of (ps_co s2))(w := 0)"
    "s3 = put_pump self (q\<lparr>pump_id := pump_id q + 1\<rparr>)
      (s2\<lparr>ps_co := ps_co s3, ps_stacks := (ps_stacks s2)(w := [Worker self])\<rparr>)"
    by (rule create_facts [OF ok2 at2(1) p(3) at2(2)])
  have run: "dzn_pump_run env self ev s = return_run (s3, [Yield_to w, Process_released self])"
    using s1(1) p s3(1) by (simp add: dzn_pump_run_def get_pump_live q_def s2_def)
  have at3: "ps_cells s3 = ps_cells s2" "objs (ps_pumps s3) self = Some (q\<lparr>pump_id := pump_id q + 1\<rparr>)"
    "ps_stacks s3 = (ps_stacks s2)(w := [Worker self])" "ps_rt s3 = ps_rt s2" "ps_closures s3 = ps_closures s2"
    by (subst s3(7), simp)+
  have "pump_rep s3 self (ds(Q := ds Q @ [ev]))"
    by (rule pump_rep_put [OF rep2 at2(1) _ at3(1,2)]) simp
  moreover have "ps_co s2 = ps_co s" "ps_stacks s2 = ps_stacks s" "ps_rt s2 = ps_rt s" "ps_closures s2 = ps_closures s"
    using lists_onlyD [OF s1(3)] by (simp_all add: s2_def)
  moreover from this have "current env s2 = current env s" "current env s1 = current env s"
    using lists_onlyD(5) [OF s1(3)] by (simp_all add: current_def)
  ultimately show ?thesis
    using run s3(2-6) at3 by (intro exI [of _ w] exI [of _ s3]) (simp add: invoker_def q_def)
qed

text \<open>C23: \<open>dzn_pump_run\<close> runs the event it is given on a new coroutine and returns: when it does, the
  event's handler has run to its end, every list of the pump is empty again, the caller is the current
  coroutine, and the new coroutine, with identity one, is parked for good with nothing left to do.\<close>

theorem pump_runs_event:
  assumes "co_env_ok alive key_of env s" and "pump_rep s self (\<lambda>_. [])"
    and "\<forall>p. objs (ps_pumps s) self = Some p \<longrightarrow> pump_id p < INT_MAX"
    and "ps_stacks s (current env s) = Rt (In_handler (PCall (Pump_run self ev) prog)) # st"
    and "current_id env s \<noteq> 0"
    and "objs (ps_closures s) ev = Some c" and "ev \<noteq> NULL" and "plocal (pe_body env c)"
  shows "\<exists>s' w. pump_reaches env s s' \<and> current env s' = current env s \<and>
    ps_stacks s' (current env s) = Rt (In_handler prog) # st \<and>
    ps_rt s' = (ps_rt s)\<lparr>rt_user := peffect (pe_body env c) (rt_user (ps_rt s))\<rparr> \<and>
    pump_rep s' self (\<lambda>_. []) \<and> w \<notin> live alive (ps_co s) \<and>
    live alive (ps_co s') = insert w (live alive (ps_co s)) \<and> ident key_of (ps_co s') w = 1 \<and>
    ps_stacks s' w = []"
proof -
  let ?t = "current env s"
  have t: "?t \<in> live alive (ps_co s)"
    using co_env_okD(2) [OF assms(1)] by (simp add: live_def current_def dzn_coroutine_self_def)
  define s0 where "s0 = set_stack ?t st s"
  have "co_env_ok alive key_of env s0" "pump_rep s0 self (\<lambda>_. [])"
    "\<forall>p. objs (ps_pumps s0) self = Some p \<longrightarrow> pump_id p < INT_MAX"
    using assms(1-3) by (simp_all add: s0_def)
  from pump_run_starts [OF this, of ev] obtain w s1 where
    run: "dzn_pump_run env self ev s0 = return_run (s1, [Yield_to w, Process_released self])"
    and rep1: "pump_rep s1 self ((\<lambda>_. [])(Q := [ev]))" and ok1: "co_env_ok alive key_of env s1"
    and w: "w \<notin> live alive (ps_co s)" and live1: "live alive (ps_co s1) = insert w (live alive (ps_co s))"
    and cur1: "current env s1 = ?t" and id1: "ident key_of (ps_co s1) = (ident key_of (ps_co s))(w := 0)"
    and st1: "ps_stacks s1 = (ps_stacks s0)(w := [Worker self])" and inv1: "invoker s1 self = Some ?t"
    and rt1: "ps_rt s1 = ps_rt s" and cl1: "ps_closures s1 = ps_closures s"
    by (auto simp: s0_def)
  have wt: "w \<noteq> ?t" using w t by auto
  define rest where "rest = Process_released self # Rt (In_handler prog) # st"
  define s2 where "s2 = set_stack ?t (Yield_to w # rest) s1"
  have "pump_reaches env s s2"
    by (rule frame_then [OF assms(4)])
      (use run st1 wt in \<open>auto simp: s0_def s2_def rest_def intro: pump_start\<close>)
  also define s3 where "s3 = yielded env w (set_stack ?t rest s1)"
  have "pump_reaches env s2 s3"
    using yield_runs [of s2 env w rest] cur1 by (simp add: s2_def s3_def)
  also have y3: "co_env_ok alive key_of env s3" "current env s3 = w" "live alive (ps_co s3) = live alive (ps_co s1)"
    "ident key_of (ps_co s3) = ident key_of (ps_co s1)"
    using yield_facts [of alive key_of env "set_stack ?t rest s1" w] ok1 live1 wt cur1 by (simp_all add: s3_def)
  have rep3: "pump_rep s3 self ((\<lambda>_. [])(Q := [ev]))" using rep1 by (auto simp: s3_def intro: pump_rep_cong)
  have st3: "ps_stacks s3 w = [Worker self]" "ps_stacks s3 ?t = rest" using wt by (simp_all add: s3_def st1)
  define e3 where "e3 = set_stack w [] s3"
  have e3: "co_env_ok alive key_of env e3" "pump_rep e3 self ((\<lambda>_. [])(Q := [ev]))"
    "objs (ps_closures e3) ev = Some c"
    using y3(1) rep3 assms(6) cl1 by (simp_all add: e3_def s3_def)
  obtain s4 where s4: "worker env self e3 = return_run (s4, [Rt (In_handler (pe_body env c)), Process_released self])"
    "pump_rep s4 self (\<lambda>_. [])" "lists_only self (set_id env 1 e3) s4"
    using worker_takes [OF e3(1,2) _ e3(3) assms(7), of "[]"] by auto
  note same4 = lists_onlyD [OF s4(3)]
  note id4 = set_id_facts [OF e3(1), of 1]
  have c4: "current env s4 = w" "current_id env s4 = 1" "co_env_ok alive key_of env s4"
    "live alive (ps_co s4) = live alive (ps_co s1)" "ident key_of (ps_co s4) w = 1" "invoker s4 self = Some ?t"
    "ps_rt s4 = ps_rt s" "ps_stacks s4 = (ps_stacks s3)(w := [])"
    using lists_only_views [OF s4(3)] lists_only_co_ok [OF s4(3)] id4 same4 y3 inv1 rt1
      invoker_lists_only [OF s4(3)]
    by (auto simp: e3_def s3_def)
  define s5 where "s5 = set_stack w [Rt (In_handler (pe_body env c)), Process_released self] s4"
  have "pump_reaches env s3 s5"
    by (rule frame_then [of _ _ "Worker self" "[]"])
      (use st3(1) y3(2) s4(1) c4(8) in \<open>auto simp: e3_def s5_def intro: pump_start\<close>)
  also define s6 where "s6 = set_user (peffect (pe_body env c) (rt_user (ps_rt s))) (set_stack w [Process_released self] s5)"
  have "pump_reaches env s5 s6"
    using plocal_runs [OF assms(8), of s5 env "[Process_released self]"] c4(1,7) by (simp add: s5_def s6_def)
  also have s6: "current env s6 = w" "current_id env s6 = 1" "co_env_ok alive key_of env s6"
    "live alive (ps_co s6) = live alive (ps_co s1)" "ident key_of (ps_co s6) w = 1" "invoker s6 self = Some ?t"
    "pump_rep s6 self (\<lambda>_. [])" "ps_stacks s6 w = [Process_released self]" "ps_stacks s6 ?t = rest"
    "ps_rt s6 = (ps_rt s)\<lparr>rt_user := peffect (pe_body env c) (rt_user (ps_rt s))\<rparr>"
    using c4 s4(2) st3(2) wt by (simp_all add: s6_def s5_def)
  define e6 where "e6 = set_stack w [] s6"
  define s7 where "s7 = yielded env ?t e6"
  have "pump_reaches env s6 s7"
    using nothing_released [OF s6(7) _ _ _ s6(6), of env "[]"] s6(1,2,8) by (simp add: s7_def e6_def)
  also have y7: "co_env_ok alive key_of env s7" "current env s7 = ?t"
    "live alive (ps_co s7) = live alive (ps_co s1)" "ident key_of (ps_co s7) = ident key_of (ps_co s6)"
    using yield_facts [of alive key_of env e6 ?t] s6(1,3,4) live1 t wt by (simp_all add: s7_def e6_def)
  have id7: "current_id env s7 \<noteq> 0"
  proof -
    have keep: "ident key_of (ps_co e3) = ident key_of (ps_co s1)" using y3(4) by (simp add: e3_def)
    have "ident key_of (ps_co s4) ?t = ident key_of (ps_co s) ?t"
      using id4(3) same4(5) keep y3(2) id1 wt by (simp add: e3_def)
    then have "ident key_of (ps_co s7) ?t = ident key_of (ps_co s) ?t"
      using y7(4) by (simp add: s6_def s5_def)
    then show ?thesis using current_ident [OF y7(1)] current_ident [OF assms(1)] assms(5) y7(2) by simp
  qed
  have rep7: "pump_rep s7 self (\<lambda>_. [])" using s6(7) by (auto simp: s7_def e6_def intro: pump_rep_cong)
  have st7: "ps_stacks s7 ?t = rest" "ps_stacks s7 w = []" using s6(9) wt by (simp_all add: s7_def e6_def)
  have inv7: "invoker s7 self = Some ?t" using s6(6) by (simp add: s7_def e6_def)
  define s8 where "s8 = set_stack ?t (Rt (In_handler prog) # st) s7"
  have same8: "yielded env ?t s8 = s8"
    using yield_to_self [of alive key_of env s8] y7(1,2) by (simp add: s8_def)
  have "pump_reaches env s7 s8"
    using nothing_released [OF rep7 _ id7, of "Rt (In_handler prog) # st" ?t] y7(2) st7(1) inv7 same8
    by (simp add: s8_def rest_def)
  finally have "pump_reaches env s s8" .
  moreover have "current env s8 = ?t" "ps_stacks s8 ?t = Rt (In_handler prog) # st" "ps_stacks s8 w = []"
    "pump_rep s8 self (\<lambda>_. [])" "live alive (ps_co s8) = insert w (live alive (ps_co s))"
    "ident key_of (ps_co s8) w = 1" "ps_rt s8 = (ps_rt s)\<lparr>rt_user := peffect (pe_body env c) (rt_user (ps_rt s))\<rparr>"
    using y7 st7 rep7 live1 wt s6(5,10) by (simp_all add: s8_def s7_def e6_def)
  ultimately show ?thesis using w by blast
qed

end
