(* ===== verification/Pump_Defer.thy ===== *)
theory Pump_Defer
  imports Pump_Laws
begin

text \<open>
  Deferred statements of the C pump: what pruning removes, what it leaves dangling, and which of them
  finalizing a pump runs, in what order, and which closures it leaves behind.
\<close>

section \<open>Structs of deferred statements\<close>

text \<open>The struct at \<open>d\<close> and its two closures are allocated.\<close>

definition deferred_at :: "('c, 'u, 'w) psys \<Rightarrow> addr \<Rightarrow> deferred \<Rightarrow> 'c \<Rightarrow> 'c \<Rightarrow> bool" where
  "deferred_at s d x pc dc \<longleftrightarrow> d \<noteq> NULL \<and> objs (ps_deferreds s) d = Some x \<and>
     df_predicate x \<noteq> NULL \<and> objs (ps_closures s) (df_predicate x) = Some pc \<and>
     df_defer x \<noteq> NULL \<and> objs (ps_closures s) (df_defer x) = Some dc"

definition holds_at :: "('c, 'u, 'w) penv \<Rightarrow> ('c, 'u, 'w) psys \<Rightarrow> addr \<Rightarrow> bool" where
  "holds_at env s d \<longleftrightarrow> (\<exists>x pc dc. deferred_at s d x pc dc \<and> pe_predicate env pc (rt_user (ps_rt s)))"

lemma eval_deferred_at:
  "deferred_at s d x pc dc \<Longrightarrow>
     eval_deferred env d s = return_run (x, pe_predicate env pc (rt_user (ps_rt s)))"
  by (simp add: deferred_at_def eval_deferred_def store_simps)

lemma holds_at_iff: "deferred_at s d x pc dc \<Longrightarrow> holds_at env s d \<longleftrightarrow> pe_predicate env pc (rt_user (ps_rt s))"
  by (auto simp: holds_at_def deferred_at_def)

lemma eval_holds: "holds_at env s d \<Longrightarrow> \<exists>x. eval_deferred env d s = return_run (x, True)"
  by (auto simp: holds_at_def eval_deferred_at)

text \<open>All structs of a list are allocated and no two share a struct or a closure.\<close>

fun deferreds_ok :: "('c, 'u, 'w) psys \<Rightarrow> addr list \<Rightarrow> bool" where
  "deferreds_ok s [] \<longleftrightarrow> True"
| "deferreds_ok s (d # ds) \<longleftrightarrow>
     (\<exists>x pc dc. deferred_at s d x pc dc \<and> df_predicate x \<noteq> df_defer x \<and> d \<notin> set ds \<and>
        (\<forall>e \<in> set ds. \<forall>y. objs (ps_deferreds s) e = Some y \<longrightarrow>
           {df_predicate x, df_defer x} \<inter> {df_predicate y, df_defer y} = {})) \<and>
     deferreds_ok s ds"

lemma deferreds_ok_live: "deferreds_ok s ds \<Longrightarrow> d \<in> set ds \<Longrightarrow> \<exists>x pc dc. deferred_at s d x pc dc"
  by (induction ds) auto

lemma deferreds_apart:
  assumes "deferreds_ok s ds" and "d \<in> set ds" and "e \<in> set ds" and "objs (ps_deferreds s) d = Some x"
    and "objs (ps_deferreds s) e = Some y"
  shows "df_defer y \<noteq> df_predicate x"
  using assms by (induction ds) (auto simp: deferred_at_def)

lemma deferreds_ok_cong:
  assumes "deferreds_ok s ds"
    and "\<And>d. d \<in> set ds \<Longrightarrow> objs (ps_deferreds s') d = objs (ps_deferreds s) d"
    and "\<And>d x a. d \<in> set ds \<Longrightarrow> objs (ps_deferreds s) d = Some x \<Longrightarrow> a \<in> {df_predicate x, df_defer x} \<Longrightarrow>
      objs (ps_closures s') a = objs (ps_closures s) a"
  shows "deferreds_ok s' ds"
  using assms
proof (induction ds)
  case (Cons d ds)
  then have "deferreds_ok s' ds" by auto
  moreover from Cons.prems obtain x pc dc where x: "deferred_at s d x pc dc" "df_predicate x \<noteq> df_defer x" "d \<notin> set ds"
      "\<forall>e \<in> set ds. \<forall>y. objs (ps_deferreds s) e = Some y \<longrightarrow>
         {df_predicate x, df_defer x} \<inter> {df_predicate y, df_defer y} = {}"
    by (auto simp only: deferreds_ok.simps)
  moreover have "deferred_at s' d x pc dc"
    using x(1) Cons.prems(2) [of d] Cons.prems(3) [of d x] by (simp add: deferred_at_def)
  moreover have "\<forall>e \<in> set ds. objs (ps_deferreds s') e = objs (ps_deferreds s) e" using Cons.prems(2) by simp
  ultimately show ?case by (simp only: deferreds_ok.simps) metis
qed simp

text \<open>What is left is still in order when the first statement's struct and one or both of its closures
  are freed.\<close>

lemma deferreds_ok_freed:
  assumes "deferreds_ok s (d # ds)" and "objs (ps_deferreds s) d = Some x"
    and "\<And>e. e \<noteq> d \<Longrightarrow> objs (ps_deferreds s') e = objs (ps_deferreds s) e"
    and "\<And>a. a \<notin> {df_predicate x, df_defer x} \<Longrightarrow> objs (ps_closures s') a = objs (ps_closures s) a"
  shows "deferreds_ok s' ds"
proof (rule deferreds_ok_cong [of s])
  show "deferreds_ok s ds" using assms(1) by simp
  show "objs (ps_deferreds s') e = objs (ps_deferreds s) e" if "e \<in> set ds" for e
  proof (rule assms(3))
    show "e \<noteq> d" using assms(1) that by auto
  qed
  show "objs (ps_closures s') a = objs (ps_closures s) a"
    if "e \<in> set ds" "objs (ps_deferreds s) e = Some y" "a \<in> {df_predicate y, df_defer y}" for e y a
  proof (rule assms(4))
    have "{df_predicate x, df_defer x} \<inter> {df_predicate y, df_defer y} = {}"
      using assms(1,2) that(1,2) by (auto simp: deferred_at_def)
    with that(3) show "a \<notin> {df_predicate x, df_defer x}" by blast
  qed
qed

section \<open>Pruning\<close>

lemma free_struct:
  assumes "deferred_at s d x pc dc"
  shows "free_closure (df_predicate x) s = return_run (s\<lparr>ps_closures := set_obj (df_predicate x) None (ps_closures s)\<rparr>)"
    and "free_deferred d s = return_run (s\<lparr>ps_deferreds := set_obj d None (ps_deferreds s)\<rparr>)"
    and "free_closure (df_defer x) s = return_run (s\<lparr>ps_closures := set_obj (df_defer x) None (ps_closures s)\<rparr>)"
  using assms by (simp_all add: deferred_at_def free_closure_def free_deferred_def store_simps)

text \<open>The state after the statements \<open>xs\<close> have been pruned from the front.\<close>

definition pruned ::
    "addr \<Rightarrow> addr list \<Rightarrow> ('c, 'u, 'w) psys \<Rightarrow> ('c, 'u, 'w) psys \<Rightarrow> bool" where
  "pruned self xs s s' \<longleftrightarrow>
     ps_rt s' = ps_rt s \<and> ps_ports s' = ps_ports s \<and> ps_co s' = ps_co s \<and> ps_stacks s' = ps_stacks s \<and>
     (\<forall>d. objs (ps_deferreds s') d = (if d \<in> set xs then None else objs (ps_deferreds s) d)) \<and>
     (\<forall>a. objs (ps_closures s') a =
        (if \<exists>d x. d \<in> set xs \<and> objs (ps_deferreds s) d = Some x \<and> df_predicate x = a then None
         else objs (ps_closures s) a))"

lemma prune_front_rep:
  assumes "pump_rep s self ds" and "deferreds_ok s (xs @ ys)" and "ds Deferred = xs @ ys"
    and "\<forall>d \<in> set xs. \<not> holds_at env s d" and "ys = [] \<or> holds_at env s (hd ys)"
    and "objs (ps_pumps s) self = Some p"
  shows "\<exists>s' q. prune_front env self (pump_deferred p) s = return_run (pump_deferred q, s') \<and>
    objs (ps_pumps s') self = Some q \<and> pump_rep s' self (ds(Deferred := ys)) \<and> pruned self xs s s'"
  using assms
proof (induction xs arbitrary: s p ds)
  case Nil
  obtain cs where p: "chain (ps_cells s) (pump_deferred p) cs" "data_of cs = ys" "self \<noteq> NULL"
    using pump_rep_list [OF Nil.prems(1,6), of Deferred] Nil.prems(3) by auto
  have "prune_front env self (pump_deferred p) s = return_run (pump_deferred p, s)"
  proof (cases ys)
    case Nil
    with p show ?thesis by (subst prune_front.simps) (cases cs; simp)
  next
    case (Cons y zs)
    with Nil.prems(5) obtain x where "eval_deferred env y s = return_run (x, True)" using eval_holds by fastforce
    moreover obtain cell where "pump_deferred p \<noteq> NULL" "objs (ps_cells s) (pump_deferred p) = Some cell" "cell_data cell = y"
      using p Cons by (cases cs) auto
    ultimately show ?thesis by (subst prune_front.simps) (simp add: store_simps)
  qed
  moreover have "ds(Deferred := ys) = ds" using Nil.prems(3) by auto
  ultimately show ?case using Nil.prems by (intro exI [of _ s] exI [of _ p]) (simp add: pruned_def)
next
  case (Cons d xs)
  then obtain x pc dc where x: "deferred_at s d x pc dc" by auto
  have no: "\<not> pe_predicate env pc (rt_user (ps_rt s))" using Cons.prems(4) x by (auto simp: holds_at_def)
  obtain p' cell where pop: "get_pump s self = return_run p'" "list_of Deferred p' \<noteq> NULL"
    "load (ps_cells s) (list_of Deferred p') = Inr cell" "cell_data cell = d"
    "free_cell (list_of Deferred p') s = return_run (s\<lparr>ps_cells := set_obj (list_of Deferred p') None (ps_cells s)\<rparr>)"
    "pump_rep (put_pump self (set_list Deferred (cell_next cell) p')
      (s\<lparr>ps_cells := set_obj (list_of Deferred p') None (ps_cells s)\<rparr>)) self (ds(Deferred := xs @ ys))"
    by (rule pump_pop_rep [OF Cons.prems(1), of Deferred d "xs @ ys"]) (use Cons.prems(3) in auto)
  have self: "self \<noteq> NULL" using Cons.prems(1) by (simp add: pump_rep_def)
  have pp: "p' = p" using pop(1) Cons.prems(6) self by (simp add: get_pump_live)
  define q where "q = p\<lparr>pump_deferred := cell_next cell\<rparr>"
  define s1 where "s1 = (put_pump self q s)\<lparr>ps_closures := set_obj (df_predicate x) None (ps_closures s),
    ps_deferreds := set_obj d None (ps_deferreds s),
    ps_cells := set_obj (pump_deferred p) None (ps_cells s)\<rparr>"
  have rep1: "pump_rep s1 self (ds(Deferred := xs @ ys))"
    using pop(6) by (auto simp: s1_def q_def pp put_pump_def intro: pump_rep_cong)
  have at1: "objs (ps_pumps s1) self = Some q" by (simp add: s1_def)
  have ok1: "deferreds_ok s1 (xs @ ys)"
    by (rule deferreds_ok_freed [of s d "xs @ ys" x])
      (use Cons.prems(2) x in \<open>auto simp: s1_def deferred_at_def\<close>)
  have same: "holds_at env s1 e \<longleftrightarrow> holds_at env s e" if "e \<in> set (xs @ ys)" for e
  proof -
    from that have "e \<in> set ((d # xs) @ ys)" by simp
    from deferreds_ok_live [OF Cons.prems(2) this] obtain y pc' dc' where y: "deferred_at s e y pc' dc'" by blast
    from deferreds_ok_live [OF ok1 that] obtain z pc'' dc'' where z: "deferred_at s1 e z pc'' dc''" by blast
    have "z = y" using y z by (simp add: deferred_at_def s1_def split: if_splits)
    moreover from this have "pc'' = pc'" using y z by (simp add: deferred_at_def s1_def split: if_splits)
    ultimately show ?thesis
      using holds_at_iff [OF y] holds_at_iff [OF z] by (simp add: s1_def)
  qed
  have conds: "\<forall>e \<in> set xs. \<not> holds_at env s1 e" "ys = [] \<or> holds_at env s1 (hd ys)"
    using Cons.prems(4,5) same by simp (cases ys; use Cons.prems(5) same in simp)
  obtain s2 r where s2:
    "prune_front env self (pump_deferred q) s1 = return_run (pump_deferred r, s2)"
    "objs (ps_pumps s2) self = Some r" "pump_rep s2 self (ds(Deferred := ys))" "pruned self xs s1 s2"
    using Cons.IH [OF rep1 ok1 _ conds at1] by (auto simp only: fun_upd_same fun_upd_upd)
  have step: "prune_front env self (pump_deferred p) s = prune_front env self (pump_deferred q) s1"
  proof -
    have "load (ps_cells s) (pump_deferred p) = Inr cell" "pump_deferred p \<noteq> NULL" using pop(2,3) pp by auto
    then show ?thesis
      using x no pop(4) self Cons.prems(6)
      by (subst prune_front.simps)
        (simp add: eval_deferred_at get_pump_live free_closure_def free_deferred_def free_cell_def
          store_simps deferred_at_def q_def s1_def eval_deferred_def)
  qed
  have "d \<notin> set xs" using Cons.prems(2) by auto
  then have "pruned self (d # xs) s s2"
    using s2(4) x Cons.prems(2)
    by (auto simp: pruned_def s1_def deferred_at_def)
  with s2 step show ?case by (intro exI [of _ s2] exI [of _ r]) (simp only: simp_thms)
qed


text \<open>A statement behind the pruned ones shares nothing with them.\<close>

lemma deferreds_stay:
  assumes "deferreds_ok s (xs @ ys)" and "d \<in> set ys" and "deferred_at s d x pc dc"
  shows "d \<notin> set xs \<and> (\<forall>e y. e \<in> set xs \<longrightarrow> objs (ps_deferreds s) e = Some y \<longrightarrow>
    df_predicate y \<notin> {df_predicate x, df_defer x} \<and> df_defer y \<notin> {df_predicate x, df_defer x})"
  using assms(1)
proof (induction xs)
  case (Cons e xs)
  then have IH: "d \<notin> set xs \<and> (\<forall>e y. e \<in> set xs \<longrightarrow> objs (ps_deferreds s) e = Some y \<longrightarrow>
    df_predicate y \<notin> {df_predicate x, df_defer x} \<and> df_defer y \<notin> {df_predicate x, df_defer x})" by simp
  from Cons.prems obtain y pc' dc' where y: "deferred_at s e y pc' dc'" "e \<notin> set (xs @ ys)"
    "\<forall>f \<in> set (xs @ ys). \<forall>z. objs (ps_deferreds s) f = Some z \<longrightarrow>
       {df_predicate y, df_defer y} \<inter> {df_predicate z, df_defer z} = {}"
    unfolding append_Cons deferreds_ok.simps by blast
  have "d \<noteq> e" using y(2) assms(2) by auto
  moreover have "{df_predicate y, df_defer y} \<inter> {df_predicate x, df_defer x} = {}"
    using y(3) assms(2,3) by (auto simp: deferred_at_def)
  moreover have "objs (ps_deferreds s) e = Some y" using y(1) by (simp add: deferred_at_def)
  ultimately show ?case using IH by auto
qed simp

text \<open>The second loop does nothing when every statement holds.\<close>

lemma prune_rest_holds:
  assumes "chain (ps_cells s) head cs" and "\<forall>d \<in> set (tl (data_of cs)). holds_at env s d"
  shows "prune_rest env head s = return_run s"
  using assms
proof (induction cs arbitrary: head)
  case Nil
  then show ?case by (simp add: prune_rest.simps)
next
  case (Cons x cs)
  then obtain c where c: "head = fst x" "head \<noteq> NULL" "objs (ps_cells s) head = Some c"
      "chain (ps_cells s) (cell_next c) cs" by auto
  show ?case
  proof (cases cs)
    case Nil
    with c show ?thesis by (subst prune_rest.simps) (simp add: store_simps)
  next
    case (Cons y ys)
    with c(4) obtain n where n: "cell_next c = fst y" "fst y \<noteq> NULL" "objs (ps_cells s) (fst y) = Some n"
      "cell_data n = snd y" by auto
    have "holds_at env s (snd y)" using Cons.prems(2) Cons by simp
    then obtain z where "eval_deferred env (snd y) s = return_run (z, True)" using eval_holds by blast
    moreover have "prune_rest env (cell_next c) s = return_run s"
      using Cons.IH [OF c(4)] Cons.prems(2) by (cases cs) auto
    ultimately show ?thesis
      using c n by (subst prune_rest.simps) (simp add: store_simps)
  qed
qed

text \<open>Whatever holds, the second loop returns; a cell that it freed stays freed, and so do cells that
  were not in the list.\<close>

lemma prune_rest_returns:
  assumes "chain (ps_cells s) head cs" and "deferreds_ok s (tl (data_of cs))"
  shows "\<exists>s'. prune_rest env head s = return_run s' \<and> ps_pumps s' = ps_pumps s \<and>
    (\<forall>a. a \<notin> set (cells_of cs) \<longrightarrow> objs (ps_cells s') a = objs (ps_cells s) a) \<and>
    (\<forall>y ys x. cs = x # y # ys \<longrightarrow> \<not> holds_at env s (snd y) \<longrightarrow> objs (ps_cells s') head = None)"
  using assms
proof (induction cs arbitrary: head s)
  case Nil
  then show ?case by (simp add: prune_rest.simps)
next
  case (Cons x cs)
  then obtain c where c: "head = fst x" "head \<noteq> NULL" "objs (ps_cells s) head = Some c"
      "chain (ps_cells s) (cell_next c) cs" by auto
  have apart: "head \<notin> set (cells_of cs)" using path_distinct [OF Cons.prems(1)] c(1) by simp
  show ?case
  proof (cases cs)
    case Nil
    with c show ?thesis by (subst prune_rest.simps) (auto simp: store_simps)
  next
    case (Cons y ys)
    with c(4) obtain n where n: "cell_next c = fst y" "fst y \<noteq> NULL" "objs (ps_cells s) (fst y) = Some n"
      "cell_data n = snd y" by auto
    have ok: "deferreds_ok s (snd y # data_of ys)" using Cons.prems(2) Cons by simp
    then obtain z pc dc where z: "deferred_at s (snd y) z pc dc" by auto
    note val = eval_deferred_at [OF z, of env] holds_at_iff [OF z, of env]
    show ?thesis
    proof (cases "holds_at env s (snd y)")
      case True
      have "deferreds_ok s (tl (data_of cs))" using ok Cons by simp
      from Cons.IH [OF c(4) this] obtain s' where s': "prune_rest env (cell_next c) s = return_run s'"
        "ps_pumps s' = ps_pumps s" "\<forall>a. a \<notin> set (cells_of cs) \<longrightarrow> objs (ps_cells s') a = objs (ps_cells s) a"
        by blast
      have "prune_rest env head s = return_run s'"
        using c n val True s'(1) by (subst prune_rest.simps) (simp add: store_simps)
      with s' True Cons show ?thesis by auto
    next
      case False
      define s1 where "s1 = s\<lparr>ps_closures := set_obj (df_predicate z) None (ps_closures s),
        ps_deferreds := set_obj (snd y) None (ps_deferreds s), ps_cells := set_obj head None (ps_cells s)\<rparr>"
      have "chain (ps_cells s1) (cell_next c) cs" using c(4) apart by (simp add: s1_def)
      moreover have "deferreds_ok s1 (tl (data_of cs))"
        using deferreds_ok_freed [OF ok, of z s1] z Cons by (simp add: s1_def deferred_at_def)
      ultimately obtain s' where s': "prune_rest env (cell_next c) s1 = return_run s'"
        "ps_pumps s' = ps_pumps s1" "\<forall>a. a \<notin> set (cells_of cs) \<longrightarrow> objs (ps_cells s') a = objs (ps_cells s1) a"
        using Cons.IH by blast
      have "prune_rest env head s = return_run s'"
        using c n val False z s'(1)
        by (subst prune_rest.simps)
          (simp add: store_simps free_closure_def free_deferred_def free_cell_def deferred_at_def s1_def)
      with s' apart c(1) show ?thesis by (auto simp: s1_def)
    qed
  qed
qed

text \<open>Pruning the front leaves the statements behind it as they were.\<close>

lemma pruned_at:
  assumes "pruned self xs s s'" and "deferreds_ok s (xs @ ys)" and "d \<in> set ys" and "deferred_at s d x pc dc"
  shows "deferred_at s' d x pc dc"
  using deferreds_stay [OF assms(2,3,4)] assms(1,4) unfolding pruned_def deferred_at_def by auto

lemma pruned_keeps:
  assumes "pruned self xs s s'" and "deferreds_ok s (xs @ ys)"
  shows "deferreds_ok s' ys" and "\<And>d. d \<in> set ys \<Longrightarrow> holds_at env s' d = holds_at env s d"
proof -
  note keep = pruned_at [OF assms]
  have "deferreds_ok s ys" using assms(2) by (induction xs) auto
  then show "deferreds_ok s' ys"
  proof (rule deferreds_ok_cong)
    show "objs (ps_deferreds s') d = objs (ps_deferreds s) d" if d: "d \<in> set ys" for d
      using deferreds_ok_live [OF assms(2), of d] keep [OF d] d by (auto simp: deferred_at_def)
    show "objs (ps_closures s') a = objs (ps_closures s) a"
      if d: "d \<in> set ys" and x: "objs (ps_deferreds s) d = Some x" and a: "a \<in> {df_predicate x, df_defer x}" for d x a
    proof -
      obtain x' pc dc where "deferred_at s d x' pc dc" using deferreds_ok_live [OF assms(2), of d] d by auto
      with x a keep [OF d this] show ?thesis by (auto simp: deferred_at_def)
    qed
  qed
  show "holds_at env s' d = holds_at env s d" if d: "d \<in> set ys" for d
  proof -
    obtain x pc dc where x: "deferred_at s d x pc dc" using deferreds_ok_live [OF assms(2), of d] d by auto
    have "ps_rt s' = ps_rt s" using assms(1) by (simp add: pruned_def)
    with holds_at_iff [OF x] holds_at_iff [OF keep [OF d x]] show ?thesis by simp
  qed
qed

lemma prune_stale_front:
  assumes "pump_rep s self ds" and "deferreds_ok s (xs @ ys)" and "ds Deferred = xs @ ys"
    and "\<forall>d \<in> set xs. \<not> holds_at env s d" and "\<forall>d \<in> set ys. holds_at env s d"
  shows "\<exists>s'. dzn_pump_prune_deferred env self s = return_run s' \<and> pump_rep s' self (ds(Deferred := ys)) \<and>
    pruned self xs s s'"
proof -
  obtain p where p: "objs (ps_pumps s) self = Some p" "get_pump s self = return_run p"
    using pump_repE [OF assms(1)] by metis
  have "ys = [] \<or> holds_at env s (hd ys)" using assms(5) by (cases ys) auto
  from prune_front_rep [OF assms(1-4) this p(1)] obtain s' q where s':
    "prune_front env self (pump_deferred p) s = return_run (pump_deferred q, s')"
    "objs (ps_pumps s') self = Some q" "pump_rep s' self (ds(Deferred := ys))" "pruned self xs s s'"
    by blast
  obtain cs where cs: "chain (ps_cells s') (pump_deferred q) cs" "data_of cs = ys"
    using pump_rep_list [OF s'(3,2), of Deferred] by auto
  have "\<forall>d \<in> set (tl (data_of cs)). holds_at env s' d"
    using pruned_keeps(2) [OF s'(4) assms(2)] assms(5) cs(2) by (cases ys) auto
  then have "prune_rest env (pump_deferred q) s' = return_run s'"
    using prune_rest_holds [OF cs(1)] by blast
  with p s' show ?thesis by (auto simp only: dzn_pump_prune_deferred_def bind_run_simps prod.case)
qed

text \<open>When the statements at the front of the list do not hold and all the others do, pruning frees the
  first ones, each with its predicate, and keeps the others in order.\<close>

theorem prune_removes_stale_front:
  assumes "pump_rep s self ds" and "deferreds_ok s (xs @ ys)" and "ds Deferred = xs @ ys"
    and "\<forall>d \<in> set xs. \<not> holds_at env s d" and "\<forall>d \<in> set ys. holds_at env s d"
  shows "\<exists>s'. dzn_pump_prune_deferred env self s = return_run s' \<and> pump_rep s' self (ds(Deferred := ys)) \<and>
    pruned self xs s s'"
  by (rule prune_stale_front [OF assms])

text \<open>C27: when a statement that holds is followed by one that does not, pruning frees the list cell of the
  one that holds and leaves the pump pointing to it: the next look at the deferred statements reads freed
  memory, and \<open>dzn_pump_run_defer\<close>, which prunes first, does so at once.\<close>

theorem prune_frees_kept_cell:
  assumes "pump_rep s self ds" and "deferreds_ok s (xs @ y # z # zs)" and "ds Deferred = xs @ y # z # zs"
    and "\<forall>d \<in> set xs. \<not> holds_at env s d" and "holds_at env s y" and "\<not> holds_at env s z"
  shows "(\<exists>s'. dzn_pump_prune_deferred env self s = return_run s' \<and>
      dzn_pump_prune_deferred env self s' = fail_run UseAfterFree) \<and>
    dzn_pump_run_defer env self s = fail_run UseAfterFree"
proof -
  obtain p where p: "objs (ps_pumps s) self = Some p" "get_pump s self = return_run p" "self \<noteq> NULL"
    using pump_repE [OF assms(1)] by metis
  obtain s1 q where s1:
    "prune_front env self (pump_deferred p) s = return_run (pump_deferred q, s1)"
    "objs (ps_pumps s1) self = Some q" "pump_rep s1 self (ds(Deferred := y # z # zs))" "pruned self xs s s1"
    using prune_front_rep [OF assms(1-4) _ p(1)] assms(5) by auto
  obtain cs where cs: "chain (ps_cells s1) (pump_deferred q) cs" "data_of cs = y # z # zs"
    using pump_rep_list [OF s1(3,2), of Deferred] by (metis fun_upd_same list_of.simps(3))
  then obtain cy cz rest where split: "cs = cy # cz # rest" "snd cz = z" by (cases cs; cases "tl cs") auto
  have head: "pump_deferred q \<noteq> NULL" using cs(1) split by auto
  have "deferreds_ok s1 (tl (data_of cs))"
    using pruned_keeps(1) [OF s1(4), of "y # z # zs"] assms(2) cs(2) by simp
  moreover have "\<not> holds_at env s1 (snd cz)"
    using pruned_keeps(2) [OF s1(4) assms(2), of z] assms(6) split(2) by simp
  ultimately obtain s2 where s2: "prune_rest env (pump_deferred q) s1 = return_run s2" "ps_pumps s2 = ps_pumps s1"
    "objs (ps_cells s2) (pump_deferred q) = None"
    using prune_rest_returns [OF cs(1), of env] split(1) by blast
  have pruned: "dzn_pump_prune_deferred env self s = return_run s2"
    using p s1(1) s2(1) by (simp add: dzn_pump_prune_deferred_def)
  have get: "get_pump s2 self = return_run q" using s1(2) s2(2) p(3) by (simp add: get_pump_live)
  have bad: "load (ps_cells s2) (pump_deferred q) = Inl UseAfterFree"
    using s2(3) head by (simp add: load_dangling)
  then have "prune_front env self (pump_deferred q) s2 = fail_run UseAfterFree"
    using head by (subst prune_front.simps) simp
  with get have "dzn_pump_prune_deferred env self s2 = fail_run UseAfterFree"
    by (simp add: dzn_pump_prune_deferred_def)
  moreover have "dzn_pump_run_defer env self s = fail_run UseAfterFree"
    using pruned get bad head by (simp add: dzn_pump_run_defer_def)
  ultimately show ?thesis using pruned by blast
qed

section \<open>Running deferred statements\<close>

text \<open>The statements \<open>xs\<close> at the front do not hold, the others all do: the first of these starts.\<close>

lemma run_defer_first:
  assumes "pump_rep s self ds" and "deferreds_ok s (xs @ d # dl)" and "ds Deferred = xs @ d # dl"
    and "\<forall>e \<in> set xs. \<not> holds_at env s e" and "\<forall>e \<in> set (d # dl). holds_at env s e"
    and "deferred_at s d x pc dc" and "get_info (ps_rt s) (df_component x) = Inr info"
  shows "\<exists>s' s1. dzn_pump_run_defer env self s =
      return_run (s', [Rt (In_handler (pe_body env dc)), Defer_ran d (df_defer x)]) \<and>
    pump_rep s' self (ds(Deferred := dl)) \<and>
    ps_rt s' = put_info (df_component x) (info\<lparr>rt_handling := current_id env s\<rparr>) (ps_rt s) \<and>
    pruned self xs s s1 \<and> objs (ps_deferreds s') = objs (ps_deferreds s1) \<and>
    objs (ps_closures s') = objs (ps_closures s1) \<and> ps_co s' = ps_co s \<and> ps_stacks s' = ps_stacks s"
proof -
  obtain s1 where s1: "dzn_pump_prune_deferred env self s = return_run s1" "pump_rep s1 self (ds(Deferred := d # dl))"
    "pruned self xs s s1"
    using prune_stale_front [OF assms(1-5)] by blast
  have same: "ps_rt s1 = ps_rt s" "ps_ports s1 = ps_ports s" "ps_co s1 = ps_co s" "ps_stacks s1 = ps_stacks s"
    using s1(3) by (simp_all add: pruned_def)
  obtain p cell where pop: "get_pump s1 self = return_run p" "list_of Deferred p \<noteq> NULL"
    "load (ps_cells s1) (list_of Deferred p) = Inr cell" "cell_data cell = d"
    "free_cell (list_of Deferred p) s1 = return_run (s1\<lparr>ps_cells := set_obj (list_of Deferred p) None (ps_cells s1)\<rparr>)"
    "pump_rep (put_pump self (set_list Deferred (cell_next cell) p)
      (s1\<lparr>ps_cells := set_obj (list_of Deferred p) None (ps_cells s1)\<rparr>)) self ((ds(Deferred := d # dl))(Deferred := dl))"
    by (rule pump_pop_rep [OF s1(2), of Deferred d dl]) auto
  define s2 where "s2 = put_pump self (p\<lparr>pump_deferred := cell_next cell\<rparr>)
      (s1\<lparr>ps_cells := set_obj (pump_deferred p) None (ps_cells s1)\<rparr>)"
  have at2: "ps_rt s2 = ps_rt s" "current_id env s2 = current_id env s"
    "objs (ps_deferreds s2) = objs (ps_deferreds s1)" "objs (ps_closures s2) = objs (ps_closures s1)"
    using same by (simp_all add: s2_def current_id_def)
  define s3 where "s3 = s2\<lparr>ps_rt := put_info (df_component x) (info\<lparr>rt_handling := current_id env s\<rparr>) (ps_rt s2)\<rparr>"
  have rest: "pump_rep s3 self (ds(Deferred := dl))"
    using pop(6) by (auto simp: s3_def s2_def intro: pump_rep_cong)
  have "deferred_at s1 d x pc dc" using pruned_at [OF s1(3) assms(2) _ assms(6)] by simp
  then have loads: "load (ps_closures s1) (df_defer x) = Inr dc" "load (ps_deferreds s1) d = Inr x"
    by (simp_all add: load_live deferred_at_def)
  have "dzn_pump_run_defer env self s =
      return_run (s3, [Rt (In_handler (pe_body env dc)), Defer_ran d (df_defer x)])"
    using s1(1) pop(1-5) at2(2)
    by (simp add: dzn_pump_run_defer_def s2_def [symmetric] s3_def store_simps loads same(1) assms(7) at2(1))
  moreover have "ps_rt s3 = put_info (df_component x) (info\<lparr>rt_handling := current_id env s\<rparr>) (ps_rt s)"
    using at2 by (simp add: s3_def)
  ultimately show ?thesis using rest same at2 s1(3) by (intro exI [of _ s3] exI [of _ s1]) (simp add: s3_def s2_def)
qed

text \<open>No statement holds: nothing starts.\<close>

lemma empty_list_null:
  assumes "pump_rep s self ds" and "ds Deferred = []"
  obtains p where "get_pump s self = return_run p" and "pump_deferred p = NULL"
proof -
  obtain p where p: "objs (ps_pumps s) self = Some p" "get_pump s self = return_run p" using pump_repE [OF assms(1)] by metis
  obtain cs where "chain (ps_cells s) (pump_deferred p) cs" "data_of cs = []"
    using pump_rep_list [OF assms(1) p(1), of Deferred] assms(2) by auto
  with p(2) show ?thesis by (intro that) auto
qed

lemma run_defer_none:
  assumes "pump_rep s self ds" and "deferreds_ok s xs" and "ds Deferred = xs" and "\<forall>e \<in> set xs. \<not> holds_at env s e"
  shows "\<exists>s'. dzn_pump_run_defer env self s = return_run (s', []) \<and> pump_rep s' self (ds(Deferred := [])) \<and> pruned self xs s s'"
proof -
  obtain s1 where s1: "dzn_pump_prune_deferred env self s = return_run s1" "pump_rep s1 self (ds(Deferred := []))"
      "pruned self xs s s1"
    using prune_stale_front [OF assms(1), of xs "[]" env] assms(2-4) by auto
  obtain p where "get_pump s1 self = return_run p" "pump_deferred p = NULL" by (rule empty_list_null [OF s1(2)]) auto
  with s1 show ?thesis by (intro exI [of _ s1]) (simp add: dzn_pump_run_defer_def)
qed

lemma set_stack_in:
  "set_stack t fs (s\<lparr>ps_closures := a\<rparr>) = (set_stack t fs s)\<lparr>ps_closures := a\<rparr>"
  "set_stack t fs (s\<lparr>ps_deferreds := b\<rparr>) = (set_stack t fs s)\<lparr>ps_deferreds := b\<rparr>"
  "set_stack t fs (s\<lparr>ps_rt := r\<rparr>) = (set_stack t fs s)\<lparr>ps_rt := r\<rparr>"
  by (cases s; simp add: set_stack_def)+

lemma current_fields [simp]:
  "current env (s\<lparr>ps_rt := r\<rparr>) = current env s" "current env (s\<lparr>ps_closures := a\<rparr>) = current env s"
  "current env (s\<lparr>ps_deferreds := b\<rparr>) = current env s"
  by (simp_all add: current_def)

lemma lift_rt_same: "f (ps_rt s) = Inr (ps_rt s, fs) \<Longrightarrow> lift_rt f s = return_run (s, map Rt fs)"
  by (simp add: lift_rt_def)

text \<open>From the start of a deferred statement to the end of the flush that follows it, on a component that
  is idle and has nothing queued.\<close>

lemma defer_round:
  assumes stack: "ps_stacks s (current env s) = Rt (In_handler (pe_body env dc)) # Defer_ran d (df_defer x) # rest"
    and x: "deferred_at s d x pc dc" "df_predicate x \<noteq> df_defer x"
    and rt: "ps_rt s = put_info (df_component x) (info\<lparr>rt_handling := h\<rparr>) rt0"
    and info: "get_info rt0 (df_component x) = Inr info" "rt_handling info = 0" "rt_queue info = []"
      "rt_deferred info = NULL"
    and quiet: "plocal (pe_body env dc)"
  shows "\<exists>s'. pump_reaches env s s' \<and> ps_stacks s' = (ps_stacks s)(current env s := rest) \<and>
    ps_rt s' = rt0\<lparr>rt_user := peffect (pe_body env dc) (rt_user rt0)\<rparr> \<and> ps_cells s' = ps_cells s \<and>
    ps_pumps s' = ps_pumps s \<and> ps_co s' = ps_co s \<and>
    ps_deferreds s' = set_obj d None (ps_deferreds s) \<and>
    ps_closures s' = set_obj (df_defer x) None (ps_closures s)"
proof -
  let ?t = "current env s" and ?i = "df_component x" and ?u = "peffect (pe_body env dc) (rt_user rt0)"
  have i: "?i \<noteq> NULL" using info(1) by simp
  define s1 where "s1 = set_user ?u (set_stack ?t (Defer_ran d (df_defer x) # rest) s)"
  define rt1 where "rt1 = rt0\<lparr>rt_user := ?u\<rparr>"
  have "info\<lparr>rt_handling := 0\<rparr> = info" using info(2) by simp
  then have again: "put_info ?i (info\<lparr>rt_handling := h, rt_handling := 0\<rparr>) ((put_info ?i (info\<lparr>rt_handling := h\<rparr>) rt0)\<lparr>rt_user := ?u\<rparr>) = rt1"
    using put_info_same [OF info(1)] by (simp add: put_info_commute(2) rt1_def)
  have info1: "get_info rt1 ?i = Inr info" using info(1) by (simp add: rt1_def)
  define s2 where "s2 = set_stack ?t (Rt (In_flush ?i) # Defer_flushed d (df_defer x) # rest) (s\<lparr>ps_rt := rt1\<rparr>)"
  define s3 where "s3 = set_stack ?t (Defer_flushed d (df_defer x) # rest) (s\<lparr>ps_rt := rt1\<rparr>)"
  define s4 where "s4 = (set_stack ?t rest (s\<lparr>ps_rt := rt1\<rparr>))\<lparr>ps_closures := set_obj (df_defer x) None (ps_closures s),
    ps_deferreds := set_obj d None (ps_deferreds s)\<rparr>"
  have "pump_reaches env s s1"
    using plocal_runs [OF quiet stack] rt by (simp add: s1_def)
  also have "pump_reaches env s1 s2"
  proof (rule frame_then [of _ _ "Defer_ran d (df_defer x)" rest])
    show "frame_step env (Defer_ran d (df_defer x)) (set_stack (current env s1) rest s1) =
        return_run (set_stack ?t rest (s\<lparr>ps_rt := rt1\<rparr>), [Rt (In_flush ?i), Defer_flushed d (df_defer x)])"
      using x(1) i rt again
      by (simp add: s1_def defer_ran_def deferred_at_def store_simps set_user_stack)
  qed (auto simp: s1_def s2_def intro: pump_start)
  also have "pump_reaches env s2 s3"
  proof (rule frame_then [of _ _ "Rt (In_flush ?i)" "Defer_flushed d (df_defer x) # rest"])
    have "dzn_runtime_flush cfg body ?i rt1 = Inr (rt1, [])" for cfg :: rt_config and body :: "'a \<Rightarrow> ('a, 'b) pprog"
      using i info1 info(3,4) by (simp add: dzn_runtime_flush_def del: get_info_Inr_iff)
    then show "frame_step env (Rt (In_flush ?i)) (set_stack (current env s2) (Defer_flushed d (df_defer x) # rest) s2) =
        return_run (set_stack ?t (Defer_flushed d (df_defer x) # rest) (s\<lparr>ps_rt := rt1\<rparr>), [])"
      by (simp add: s2_def lift_rt_same)
  qed (auto simp: s2_def s3_def intro: pump_start)
  also have "pump_reaches env s3 s4"
    by (rule frame_then [of _ _ "Defer_flushed d (df_defer x)" rest])
      (use x in \<open>auto simp: s3_def s4_def defer_flushed_def free_closure_def free_deferred_def store_simps
        deferred_at_def set_stack_in intro: pump_start\<close>)
  finally show ?thesis by (intro exI [of _ s4]) (simp add: s4_def rt1_def)
qed


text \<open>A statement that calls nothing, of a component that is idle and has nothing queued.\<close>

definition runnable :: "('c, 'u, 'w) penv \<Rightarrow> ('c, 'u, 'w) psys \<Rightarrow> addr \<Rightarrow> bool" where
  "runnable env s d \<longleftrightarrow> (\<exists>x pc dc info. deferred_at s d x pc dc \<and>
     plocal (pe_body env dc) \<and> get_info (ps_rt s) (df_component x) = Inr info \<and> rt_handling info = 0 \<and>
     rt_queue info = [] \<and> rt_deferred info = NULL)"

text \<open>What the statement at \<open>d\<close> does to the state, and whether its predicate holds in it.\<close>

definition deferred_effect :: "('c, 'u, 'w) penv \<Rightarrow> ('c, 'u, 'w) psys \<Rightarrow> addr \<Rightarrow> 'u \<Rightarrow> 'u" where
  "deferred_effect env s d = (case objs (ps_deferreds s) d of None \<Rightarrow> id | Some x \<Rightarrow>
     (case objs (ps_closures s) (df_defer x) of None \<Rightarrow> id | Some dc \<Rightarrow> peffect (pe_body env dc)))"

definition deferred_holds :: "('c, 'u, 'w) penv \<Rightarrow> ('c, 'u, 'w) psys \<Rightarrow> addr \<Rightarrow> 'u \<Rightarrow> bool" where
  "deferred_holds env s d u = (case objs (ps_deferreds s) d of None \<Rightarrow> False | Some x \<Rightarrow>
     (case objs (ps_closures s) (df_predicate x) of None \<Rightarrow> False | Some pc \<Rightarrow> pe_predicate env pc u))"

lemma deferred_at_facts:
  assumes "deferred_at s d x pc dc"
  shows "deferred_effect env s d = peffect (pe_body env dc)" and "deferred_holds env s d = pe_predicate env pc"
  using assms by (simp_all add: deferred_at_def deferred_effect_def deferred_holds_def fun_eq_iff)

lemma holds_at_now:
  "deferreds_ok s ds \<Longrightarrow> d \<in> set ds \<Longrightarrow> holds_at env s d = deferred_holds env s d (rt_user (ps_rt s))"
  using deferreds_ok_live [of s ds d] holds_at_iff deferred_at_facts(2) by metis

text \<open>
  Which deferred statements run, and the state they lead to: each is looked at when it is the first of the list, in
  the state that the ones before it left; it is dropped when it does not hold there, and runs when it holds and all
  the statements behind it hold as well.  When one of these does not, pruning goes wrong (C27), and there is no plan.
\<close>

fun defer_plan :: "('d \<Rightarrow> 'u \<Rightarrow> bool) \<Rightarrow> ('d \<Rightarrow> 'u \<Rightarrow> 'u) \<Rightarrow> 'd list \<Rightarrow> 'u \<Rightarrow> ('d list \<times> 'u) option" where
  "defer_plan P eff [] u = Some ([], u)"
| "defer_plan P eff (d # ds) u =
     (if \<not> P d u then defer_plan P eff ds u
      else if \<exists>e \<in> set ds. \<not> P e u then None
      else map_option (\<lambda>(exs, u). (d # exs, u)) (defer_plan P eff ds (eff d u)))"

lemma defer_plan_cong:
  "(\<And>d. d \<in> set ds \<Longrightarrow> P d = P2 d \<and> eff d = eff' d) \<Longrightarrow> defer_plan P eff ds u = defer_plan P2 eff' ds u"
  by (induction ds arbitrary: u) auto

lemma defer_plan_ran: "defer_plan P eff ds u = Some (exs, u') \<Longrightarrow> set exs \<subseteq> set ds"
  by (induction ds arbitrary: u exs) (fastforce split: if_splits)+

text \<open>The next statement of a plan.\<close>

lemma defer_plan_next:
  assumes "defer_plan P eff dl u = Some (exs, u')"
  obtains (none) "\<forall>d \<in> set dl. \<not> P d u" "exs = []" "u' = u"
  | (first) xs d rest exs' where "dl = xs @ d # rest" "\<forall>e \<in> set xs. \<not> P e u" "\<forall>e \<in> set (d # rest). P e u"
      "exs = d # exs'" "defer_plan P eff rest (eff d u) = Some (exs', u')"
  using assms
proof (induction dl arbitrary: thesis)
  case (Cons d dl)
  show ?case
  proof (cases "P d u")
    case True
    with Cons.prems(3) show ?thesis
      by (intro Cons.prems(2) [of "[]" d dl "tl exs"]) (auto split: if_splits)
  next
    case False
    with Cons.prems(3) have plan: "defer_plan P eff dl u = Some (exs, u')" by simp
    show ?thesis
    proof (rule Cons.IH [OF _ _ plan])
      fix xs e rest exs'
      assume "dl = xs @ e # rest" "\<forall>e \<in> set xs. \<not> P e u" "\<forall>e \<in> set (e # rest). P e u"
        "exs = e # exs'" "defer_plan P eff rest (eff e u) = Some (exs', u')"
      with False show thesis by (intro Cons.prems(2) [of "d # xs" e rest exs']) auto
    qed (use False Cons.prems(1) in auto)
  qed
qed auto

text \<open>What has become of the structs and closures of the statements \<open>dl\<close>, of which \<open>exs\<close> have run: a statement
  that ran leaves the closure of its predicate behind, one that was dropped the closure of the statement.\<close>

definition freed_closure :: "addr list \<Rightarrow> addr \<Rightarrow> deferred \<Rightarrow> addr" where
  "freed_closure exs d x = (if d \<in> set exs then df_defer x else df_predicate x)"

definition after_defers ::
    "addr list \<Rightarrow> addr list \<Rightarrow> ('c, 'u, 'w) psys \<Rightarrow> ('c, 'u, 'w) psys \<Rightarrow> bool" where
  "after_defers dl exs s s' \<longleftrightarrow>
     (\<forall>d. objs (ps_deferreds s') d = (if d \<in> set dl then None else objs (ps_deferreds s) d)) \<and>
     (\<forall>a. objs (ps_closures s') a =
        (if \<exists>d x. d \<in> set dl \<and> objs (ps_deferreds s) d = Some x \<and> freed_closure exs d x = a then None
         else objs (ps_closures s) a))"

lemma pruned_after: "pruned self xs s s' \<Longrightarrow> after_defers xs [] s s'"
  by (simp add: pruned_def after_defers_def freed_closure_def)

lemma deferreds_ok_distinct: "deferreds_ok s ds \<Longrightarrow> distinct ds"
  by (induction ds) auto

lemma after_defers_next:
  assumes "deferreds_ok s (xs @ d # dl)" and "pruned self xs s s1" and "objs (ps_deferreds s) d = Some x"
    and "objs (ps_deferreds s2) = (objs (ps_deferreds s1))(d := None)"
    and "objs (ps_closures s2) = (objs (ps_closures s1))(df_defer x := None)"
    and "set exs \<subseteq> set dl" and "after_defers dl exs s2 s3"
  shows "after_defers (xs @ d # dl) (d # exs) s s3"
proof -
  have apart: "e \<notin> set (d # exs)" if "e \<in> set xs" for e
    using deferreds_ok_distinct [OF assms(1)] that assms(6) by auto
  have d: "d \<notin> set dl" "d \<notin> set xs" using deferreds_ok_distinct [OF assms(1)] by auto
  have same: "objs (ps_deferreds s2) e = objs (ps_deferreds s) e" if "e \<in> set dl" for e
    using deferreds_ok_distinct [OF assms(1)] that assms(2,4) by (auto simp: pruned_def)
  have "objs (ps_deferreds s3) e = (if e \<in> set (xs @ d # dl) then None else objs (ps_deferreds s) e)" for e
    using assms(2,4,7) by (auto simp: pruned_def after_defers_def)
  moreover have "(\<exists>e y. e \<in> set (xs @ d # dl) \<and> objs (ps_deferreds s) e = Some y \<and> freed_closure (d # exs) e y = a) \<longleftrightarrow>
      (\<exists>e y. e \<in> set xs \<and> objs (ps_deferreds s) e = Some y \<and> df_predicate y = a) \<or> a = df_defer x \<or>
      (\<exists>e y. e \<in> set dl \<and> objs (ps_deferreds s2) e = Some y \<and> freed_closure exs e y = a)" for a
  proof -
    have "freed_closure (d # exs) e y = df_predicate y" if "e \<in> set xs" for e y
      using apart [OF that] by (simp add: freed_closure_def)
    moreover have "freed_closure (d # exs) e y = freed_closure exs e y" if "e \<in> set dl" for e y
      using d that by (auto simp: freed_closure_def)
    moreover have "freed_closure (d # exs) d x = df_defer x" by (simp add: freed_closure_def)
    ultimately show ?thesis using assms(3) same by (auto; metis option.inject)
  qed
  ultimately show ?thesis using assms(2,5,7) by (auto simp: pruned_def after_defers_def)
qed

text \<open>Which closure of a statement is freed is told by whether it ran.\<close>

lemma deferreds_separate:
  assumes "deferreds_ok s ds" and "d \<in> set ds" and "e \<in> set ds" and "d \<noteq> e"
    and "objs (ps_deferreds s) d = Some x" and "objs (ps_deferreds s) e = Some y"
  shows "{df_predicate x, df_defer x} \<inter> {df_predicate y, df_defer y} = {}"
  using assms by (induction ds) (auto simp: deferred_at_def)

lemma deferred_closures:
  assumes "deferreds_ok s dl" and "d \<in> set dl" and "objs (ps_deferreds s) d = Some x"
  shows "(\<exists>e y. e \<in> set dl \<and> objs (ps_deferreds s) e = Some y \<and> freed_closure exs e y = df_defer x) \<longleftrightarrow> d \<in> set exs"
    and "(\<exists>e y. e \<in> set dl \<and> objs (ps_deferreds s) e = Some y \<and> freed_closure exs e y = df_predicate x) \<longleftrightarrow> d \<notin> set exs"
proof -
  have own: "df_predicate x \<noteq> df_defer x" using deferreds_apart [OF assms(1,2,2,3,3)] by simp
  have "freed_closure exs e y \<notin> {df_predicate x, df_defer x}"
    if "e \<in> set dl" "objs (ps_deferreds s) e = Some y" "e \<noteq> d" for e y
    using deferreds_separate [OF assms(1) that(1) assms(2) that(3,2) assms(3)] by (auto simp: freed_closure_def)
  then have "(\<exists>e y. e \<in> set dl \<and> objs (ps_deferreds s) e = Some y \<and> freed_closure exs e y = a) \<longleftrightarrow> freed_closure exs d x = a"
    if "a \<in> {df_predicate x, df_defer x}" for a
    using that assms(2,3) by (metis option.inject)
  with own show "(\<exists>e y. e \<in> set dl \<and> objs (ps_deferreds s) e = Some y \<and> freed_closure exs e y = df_defer x) \<longleftrightarrow> d \<in> set exs"
    "(\<exists>e y. e \<in> set dl \<and> objs (ps_deferreds s) e = Some y \<and> freed_closure exs e y = df_predicate x) \<longleftrightarrow> d \<notin> set exs"
    by (simp_all add: freed_closure_def)
qed

text \<open>Statements behind the ones that have been pruned or have run are as they were.\<close>

lemma after_one:
  assumes "deferreds_ok s (d # dl)" and "objs (ps_deferreds s) d = Some x"
    and "objs (ps_deferreds s') = (objs (ps_deferreds s))(d := None)"
    and "objs (ps_closures s') = (objs (ps_closures s))(df_defer x := None)" and "e \<in> set dl" and "deferred_at s e y pc dc"
  shows "deferred_at s' e y pc dc"
proof -
  have "e \<noteq> d" "df_defer x \<noteq> df_predicate y" "df_defer x \<noteq> df_defer y"
    using assms(1,2,5,6) by (auto simp: deferred_at_def)
  with assms(3,4,6) show ?thesis by (simp add: deferred_at_def)
qed

lemma runnable_keep:
  assumes keep: "\<And>x pc dc. deferred_at s e x pc dc \<Longrightarrow> deferred_at s' e x pc dc" and "runnable env s e"
    and "ps_rt s' = (ps_rt s)\<lparr>rt_user := u\<rparr>"
  shows "runnable env s' e" and "deferred_effect env s' e = deferred_effect env s e"
    and "deferred_holds env s' e = deferred_holds env s e"
proof -
  obtain x pc dc info where x: "deferred_at s e x pc dc" "plocal (pe_body env dc)" "get_info (ps_rt s) (df_component x) = Inr info"
      "rt_handling info = 0" "rt_queue info = []" "rt_deferred info = NULL" using assms(2) unfolding runnable_def by blast
  note x' = keep [OF x(1)]
  have "get_info (ps_rt s') (df_component x) = Inr info" using x(3) assms(3) by simp
  with x x' show "runnable env s' e" unfolding runnable_def by blast
  show "deferred_effect env s' e = deferred_effect env s e" "deferred_holds env s' e = deferred_holds env s e"
    using deferred_at_facts [OF x(1)] deferred_at_facts [OF x'] by simp_all
qed

lemma bind_run_return: "bind_run m return_run = m"
  by (auto simp: bind_run_def return_run_def split: option.split sum.split)

text \<open>One round of the flush: the stale statements are pruned, the first that holds runs and is freed.\<close>

lemma flush_defer_round:
  assumes "pump_rep s self ds" and "ds Deferred = xs @ d # dl" and "deferreds_ok s (xs @ d # dl)" and "runnable env s d"
    and "\<forall>e \<in> set xs. \<not> holds_at env s e" and "\<forall>e \<in> set (d # dl). holds_at env s e"
    and "ps_stacks s (current env s) = f # rest"
    and "\<And>S. frame_step env f S = bind_run (pump_flush_defer env self S) (\<lambda>(s, fs). return_run (s, fs @ gs))"
  shows "\<exists>s' s1 x. pump_reaches env s s' \<and> ps_stacks s' = (ps_stacks s)(current env s := Flush_defer self # gs @ rest) \<and>
    current env s' = current env s \<and> pump_rep s' self (ds(Deferred := dl)) \<and>
    ps_rt s' = (ps_rt s)\<lparr>rt_user := deferred_effect env s d (rt_user (ps_rt s))\<rparr> \<and>
    objs (ps_deferreds s) d = Some x \<and> pruned self xs s s1 \<and>
    objs (ps_deferreds s') = (objs (ps_deferreds s1))(d := None) \<and>
    objs (ps_closures s') = (objs (ps_closures s1))(df_defer x := None)"
proof -
  let ?t = "current env s" and ?S = "set_stack (current env s) rest s"
  obtain x pc dc info where x: "deferred_at s d x pc dc" "plocal (pe_body env dc)"
      "get_info (ps_rt s) (df_component x) = Inr info" "rt_handling info = 0" "rt_queue info = []"
      "rt_deferred info = NULL"
    using assms(4) unfolding runnable_def by auto
  have dx: "objs (ps_deferreds s) d = Some x" using x(1) by (simp add: deferred_at_def)
  have sep: "df_predicate x \<noteq> df_defer x"
  proof -
    have "deferreds_ok s (d # dl)" using assms(3) by (induction xs) auto
    then show ?thesis using x(1) by (auto simp: deferred_at_def)
  qed
  have holds: "\<forall>e \<in> set xs. \<not> holds_at env ?S e" "\<forall>e \<in> set (d # dl). holds_at env ?S e"
    using assms(5,6) by (simp_all add: holds_at_def deferred_at_def)
  have repS: "pump_rep ?S self ds" using assms(1) by simp
  have okS: "deferreds_ok ?S (xs @ d # dl)" by (rule deferreds_ok_cong [OF assms(3)]) simp_all
  have xS: "deferred_at ?S d x pc dc" "get_info (ps_rt ?S) (df_component x) = Inr info"
    using x(1,3) by (simp_all add: deferred_at_def)
  obtain s1 s0 where s1: "dzn_pump_run_defer env self ?S =
      return_run (s1, [Rt (In_handler (pe_body env dc)), Defer_ran d (df_defer x)])"
    "pump_rep s1 self (ds(Deferred := dl))"
    "ps_rt s1 = put_info (df_component x) (info\<lparr>rt_handling := current_id env ?S\<rparr>) (ps_rt s)"
    "pruned self xs ?S s0" "objs (ps_deferreds s1) = objs (ps_deferreds s0)" "objs (ps_closures s1) = objs (ps_closures s0)"
    "ps_co s1 = ps_co s" "ps_stacks s1 = ps_stacks ?S"
    using run_defer_first [OF repS okS assms(2) holds xS] by auto
  have x0: "deferred_at s0 d x pc dc" using pruned_at [OF s1(4) okS _ xS(1)] by simp
  have pruned: "pruned self xs s (s0\<lparr>ps_stacks := ps_stacks s\<rparr>)" using s1(4) by (auto simp: pruned_def)
  obtain p where p: "objs (ps_pumps s) self = Some p" "self \<noteq> NULL" using pump_repE [OF assms(1)] by metis
  obtain cs where "chain (ps_cells s) (pump_deferred p) cs" "data_of cs = xs @ d # dl"
    using pump_rep_list [OF assms(1) p(1), of Deferred] assms(2) by (metis list_of.simps(3))
  then have "pump_deferred p \<noteq> NULL" by (cases cs) auto
  then have step: "frame_step env f ?S =
      return_run (s1, [Rt (In_handler (pe_body env dc)), Defer_ran d (df_defer x), Flush_defer self] @ gs)"
    using assms(8) [of ?S] s1(1) p by (simp add: pump_flush_defer_def get_pump_live)
  define s2 where "s2 = set_stack ?t (Rt (In_handler (pe_body env dc)) # Defer_ran d (df_defer x) #
      Flush_defer self # gs @ rest) s1"
  have cur2: "current env s2 = ?t" using s1(7) by (simp add: s2_def current_def)
  have first: "pump_reaches env s s2"
    using frame_runs [OF assms(7) step] s1(8) by (simp add: s2_def)
  have x2: "deferred_at s2 d x pc dc" using x0 s1(5,6) by (simp add: deferred_at_def s2_def)
  have st2: "ps_stacks s2 (current env s2) = Rt (In_handler (pe_body env dc)) # Defer_ran d (df_defer x) #
      Flush_defer self # gs @ rest" by (simp add: cur2) (simp add: s2_def)
  have rt2: "ps_rt s2 = put_info (df_component x) (info\<lparr>rt_handling := current_id env ?S\<rparr>) (ps_rt s)"
    using s1(3) by (simp add: s2_def)
  obtain s3 where s3: "pump_reaches env s2 s3" "ps_stacks s3 = (ps_stacks s2)(?t := Flush_defer self # gs @ rest)"
    "ps_rt s3 = (ps_rt s)\<lparr>rt_user := peffect (pe_body env dc) (rt_user (ps_rt s))\<rparr>" "ps_cells s3 = ps_cells s2"
    "ps_pumps s3 = ps_pumps s2" "ps_co s3 = ps_co s2" "ps_deferreds s3 = set_obj d None (ps_deferreds s2)"
    "ps_closures s3 = set_obj (df_defer x) None (ps_closures s2)"
    using defer_round [OF st2 x2 sep rt2 x(3-6,2)] cur2 by auto
  have "pump_reaches env s s3" using first s3(1) by (rule pump_reaches_trans)
  moreover have "pump_rep s3 self (ds(Deferred := dl))"
    by (rule pump_rep_cong [OF s1(2)]) (use s3(4,5) in \<open>simp_all add: s2_def\<close>)
  moreover have "current env s3 = ?t" using s3(6) cur2 by (simp add: current_def)
  moreover have "ps_stacks s3 = (ps_stacks s)(?t := Flush_defer self # gs @ rest)"
    using s3(2) s1(8) by (simp add: s2_def)
  moreover have "objs (ps_deferreds s3) = (objs (ps_deferreds s0))(d := None)"
    "objs (ps_closures s3) = (objs (ps_closures s0))(df_defer x := None)"
    using s3(7,8) s1(5,6) by (auto simp: s2_def)
  moreover have "ps_rt s3 = (ps_rt s)\<lparr>rt_user := deferred_effect env s d (rt_user (ps_rt s))\<rparr>"
    using s3(3) deferred_at_facts(1) [OF x(1)] by simp
  ultimately show ?thesis
    using dx pruned by (intro exI [of _ s3] exI [of _ "s0\<lparr>ps_stacks := ps_stacks s\<rparr>"] exI [of _ x]) simp
qed

lemma flush_defer_frame: "frame_step env (Flush_defer self) S = bind_run (pump_flush_defer env self S) (\<lambda>(s, fs). return_run (s, fs @ []))"
  by (simp add: bind_run_return)

text \<open>When the list is empty, or no statement holds, the flush ends.\<close>

lemma flush_defer_empty:
  assumes "pump_rep s self ds" and "ds Deferred = []" and "ps_stacks s (current env s) = f # rest"
    and "\<And>S. frame_step env f S = bind_run (pump_flush_defer env self S) (\<lambda>(s, fs). return_run (s, fs @ gs))"
  shows "pump_reaches env s (set_stack (current env s) (gs @ rest) s)"
proof -
  let ?S = "set_stack (current env s) rest s"
  have "pump_rep ?S self ds" using assms(1) by simp
  then obtain p where "get_pump ?S self = return_run p" "pump_deferred p = NULL" by (rule empty_list_null) (rule assms(2))
  then have "frame_step env f ?S = return_run (?S, gs)"
    using assms(4) [of ?S] by (simp add: pump_flush_defer_def)
  from frame_runs [OF assms(3) this] show ?thesis by simp
qed

lemma flush_defer_none:
  assumes "pump_rep s self ds" and "ds Deferred = xs" and "deferreds_ok s xs" and "\<forall>e \<in> set xs. \<not> holds_at env s e"
    and "ps_stacks s (current env s) = f # rest"
    and "\<And>S. frame_step env f S = bind_run (pump_flush_defer env self S) (\<lambda>(s, fs). return_run (s, fs @ gs))"
  shows "\<exists>s'. pump_reaches env s s' \<and> ps_stacks s' = (ps_stacks s)(current env s := gs @ rest) \<and>
    current env s' = current env s \<and> pump_rep s' self (ds(Deferred := [])) \<and> ps_rt s' = ps_rt s \<and> after_defers xs [] s s'"
proof (cases "xs = []")
  case True
  moreover from this have "ds(Deferred := []) = ds" using assms(2) by auto
  ultimately show ?thesis using flush_defer_empty [OF assms(1) _ assms(5,6)] assms(1,2)
    by (intro exI [of _ "set_stack (current env s) (gs @ rest) s"]) (simp add: after_defers_def)
next
  case False
  let ?t = "current env s" and ?S = "set_stack (current env s) rest s"
  have repS: "pump_rep ?S self ds" using assms(1) by simp
  have okS: "deferreds_ok ?S xs" by (rule deferreds_ok_cong [OF assms(3)]) simp_all
  have none: "\<forall>e \<in> set xs. \<not> holds_at env ?S e" using assms(4) by (simp add: holds_at_def deferred_at_def)
  obtain s1 where s1: "dzn_pump_run_defer env self ?S = return_run (s1, [])" "pump_rep s1 self (ds(Deferred := []))"
      "pruned self xs ?S s1"
    using run_defer_none [OF repS okS assms(2) none] by blast
  have same: "ps_stacks s1 = ps_stacks ?S" "ps_co s1 = ps_co s" "ps_rt s1 = ps_rt s" using s1(3) by (simp_all add: pruned_def)
  obtain p where p: "objs (ps_pumps s) self = Some p" "self \<noteq> NULL" using pump_repE [OF assms(1)] by metis
  obtain cs where "chain (ps_cells s) (pump_deferred p) cs" "data_of cs = xs"
    using pump_rep_list [OF assms(1) p(1), of Deferred] assms(2) by (metis list_of.simps(3))
  then have "pump_deferred p \<noteq> NULL" using False by (cases cs) auto
  then have "frame_step env f ?S = return_run (s1, Flush_defer self # gs)"
    using assms(6) [of ?S] s1(1) p by (simp add: pump_flush_defer_def get_pump_live)
  from frame_runs [OF assms(5) this] have first: "pump_reaches env s (set_stack ?t (Flush_defer self # gs @ rest) s1)" by (simp add: same(1))
  let ?s2 = "set_stack ?t (Flush_defer self # gs @ rest) s1"
  have cur: "current env ?s2 = ?t" using same(2) by (simp add: current_def)
  have "pump_reaches env ?s2 (set_stack (current env ?s2) ([] @ gs @ rest) ?s2)"
    by (rule flush_defer_empty [OF _ _ _ flush_defer_frame, where ds = "ds(Deferred := [])"]) (use s1(2) cur in \<open>simp_all\<close>)
  with first have "pump_reaches env s (set_stack ?t (gs @ rest) s1)"
    unfolding cur by (auto intro: pump_reaches_trans)
  moreover have "after_defers xs [] s (set_stack ?t (gs @ rest) s1)"
    using pruned_after [OF s1(3)] by (auto simp add: after_defers_def)
  ultimately show ?thesis
    using same s1(2) by (intro exI [of _ "set_stack ?t (gs @ rest) s1"]) (simp add: current_def)
qed

lemma flush_defer_runs:
  assumes "pump_rep s self ds" and "ds Deferred = dl" and "deferreds_ok s dl" and "\<forall>d \<in> set dl. runnable env s d"
    and "defer_plan (deferred_holds env s) (deferred_effect env s) dl (rt_user (ps_rt s)) = Some (exs, u)"
    and "ps_stacks s (current env s) = f # rest"
    and "\<And>S. frame_step env f S = bind_run (pump_flush_defer env self S) (\<lambda>(s, fs). return_run (s, fs @ gs))"
  shows "\<exists>s'. pump_reaches env s s' \<and> ps_stacks s' = (ps_stacks s)(current env s := gs @ rest) \<and>
    current env s' = current env s \<and> pump_rep s' self (ds(Deferred := [])) \<and>
    ps_rt s' = (ps_rt s)\<lparr>rt_user := u\<rparr> \<and> after_defers dl exs s s'"
  using assms
proof (induction "length dl" arbitrary: dl exs s ds f gs rest rule: less_induct)
  case less
  let ?t = "current env s"
  have now: "holds_at env s d = deferred_holds env s d (rt_user (ps_rt s))" if "d \<in> set dl" for d
    using holds_at_now [OF less.prems(3) that] .
  from less.prems(5) show ?case
  proof (cases rule: defer_plan_next)
    case none
    have "\<forall>e \<in> set dl. \<not> holds_at env s e" using none(1) now by simp
    from flush_defer_none [OF less.prems(1-3) this less.prems(6,7)] show ?thesis
      using none(2,3) by simp
  next
    case (first xs d dl' exs')
    have stale: "\<forall>e \<in> set xs. \<not> holds_at env s e" and holds: "\<forall>e \<in> set (d # dl'). holds_at env s e"
      using first(1-3) now by simp_all
    have ok: "deferreds_ok s (xs @ d # dl')" and list: "ds Deferred = xs @ d # dl'" and run: "runnable env s d"
      using less.prems(2-4) first(1) by simp_all
    obtain s3 s1 x where s3: "pump_reaches env s s3" "ps_stacks s3 = (ps_stacks s)(?t := Flush_defer self # gs @ rest)"
        "current env s3 = ?t" "pump_rep s3 self (ds(Deferred := dl'))"
        "ps_rt s3 = (ps_rt s)\<lparr>rt_user := deferred_effect env s d (rt_user (ps_rt s))\<rparr>"
        "objs (ps_deferreds s) d = Some x" "pruned self xs s s1"
        "objs (ps_deferreds s3) = (objs (ps_deferreds s1))(d := None)"
        "objs (ps_closures s3) = (objs (ps_closures s1))(df_defer x := None)"
      using flush_defer_round [OF less.prems(1) list ok run stale holds less.prems(6,7)] by blast
    have ok1: "deferreds_ok s1 (d # dl')" using pruned_keeps(1) [OF s3(7) ok] .
    have x1: "objs (ps_deferreds s1) d = Some x"
      using s3(6,7) deferreds_ok_distinct [OF ok] by (auto simp: pruned_def)
    have keep: "deferred_at s3 e y pc dc" if "e \<in> set dl'" "deferred_at s e y pc dc" for e y pc dc
      using after_one [OF ok1 x1 s3(8,9) that(1)] pruned_at [OF s3(7) ok _ that(2)] that(1) by simp
    have ok3: "deferreds_ok s3 dl'" by (rule deferreds_ok_freed [OF ok1 x1]) (simp_all add: s3(8,9))
    note after = runnable_keep [OF keep _ s3(5)]
    have run3: "\<forall>e \<in> set dl'. runnable env s3 e" using after(1) less.prems(4) first(1) by simp
    have "defer_plan (deferred_holds env s3) (deferred_effect env s3) dl' v =
        defer_plan (deferred_holds env s) (deferred_effect env s) dl' v" for v
      using after(2,3) less.prems(4) first(1) by (intro defer_plan_cong) simp
    then have plan3: "defer_plan (deferred_holds env s3) (deferred_effect env s3) dl' (rt_user (ps_rt s3)) = Some (exs', u)"
      using first(5) s3(5) by simp
    have st3: "ps_stacks s3 (current env s3) = Flush_defer self # gs @ rest" using s3(2,3) by simp
    obtain s4 where s4: "pump_reaches env s3 s4" "ps_stacks s4 = (ps_stacks s3)(current env s3 := gs @ rest)"
        "current env s4 = current env s3" "pump_rep s4 self (ds(Deferred := []))" "ps_rt s4 = (ps_rt s3)\<lparr>rt_user := u\<rparr>"
        "after_defers dl' exs' s3 s4"
      using less.hyps [OF _ s3(4) _ ok3 run3 plan3 st3 flush_defer_frame] first(1) by auto
    have "after_defers (xs @ d # dl') (d # exs') s s4"
      by (rule after_defers_next [OF ok s3(7,6,8,9) _ s4(6)]) (rule defer_plan_ran [OF plan3])
    moreover have "pump_reaches env s s4" using s3(1) s4(1) by (rule pump_reaches_trans)
    ultimately show ?thesis
      using s4(2-5) s3(2,3,5) first(1,4) by (intro exI [of _ s4]) simp
  qed
qed

text \<open>C26: finalizing a pump looks at its deferred statements in the order in which they were deferred, each in the
  state that the ones before it left, runs those whose predicate holds and drops the others, and returns with the list
  empty (\<open>defer_plan\<close>).  Every struct is freed.  A statement that ran leaves the closure of its predicate behind, one
  that was dropped the closure of the statement.  This is so when the statements call nothing and belong to components
  that are idle with nothing queued (\<open>runnable\<close>), and when at no time a statement that holds is followed by one that
  does not: there pruning frees the wrong cell (C27).\<close>

theorem finalize_runs_deferred:
  assumes "pump_rep s self ds" and "deferreds_ok s (ds Deferred)"
    and "\<forall>d \<in> set (ds Deferred). runnable env s d"
    and "defer_plan (deferred_holds env s) (deferred_effect env s) (ds Deferred) (rt_user (ps_rt s)) = Some (exs, u)"
    and "ps_stacks s (current env s) = Rt (In_handler (PCall (Pump_finalize self) prog)) # st"
  shows "\<exists>s'. pump_reaches env s s' \<and>
    ps_stacks s' = (ps_stacks s)(current env s := Rt (In_handler prog) # st) \<and>
    pump_rep s' self (ds(Deferred := [])) \<and> ps_rt s' = (ps_rt s)\<lparr>rt_user := u\<rparr> \<and>
    (\<forall>d \<in> set (ds Deferred). objs (ps_deferreds s') d = None \<and>
      (\<forall>x. objs (ps_deferreds s) d = Some x \<longrightarrow>
        objs (ps_closures s') (df_defer x) = (if d \<in> set exs then None else objs (ps_closures s) (df_defer x)) \<and>
        objs (ps_closures s') (df_predicate x) = (if d \<in> set exs then objs (ps_closures s) (df_predicate x) else None)))"
proof -
  let ?dl = "ds Deferred"
  have "frame_step env (Rt (In_handler (PCall (Pump_finalize self) prog))) S =
      bind_run (pump_flush_defer env self S) (\<lambda>(s, fs). return_run (s, fs @ [Rt (In_handler prog)]))" for S
    by (simp add: dzn_pump_finalize_def)
  from flush_defer_runs [OF assms(1) refl assms(2-5) this] obtain s' where s':
    "pump_reaches env s s'" "ps_stacks s' = (ps_stacks s)(current env s := [Rt (In_handler prog)] @ st)"
    "pump_rep s' self (ds(Deferred := []))" "ps_rt s' = (ps_rt s)\<lparr>rt_user := u\<rparr>" "after_defers ?dl exs s s'"
    by blast
  have "objs (ps_closures s') (df_defer x) = (if d \<in> set exs then None else objs (ps_closures s) (df_defer x)) \<and>
      objs (ps_closures s') (df_predicate x) = (if d \<in> set exs then objs (ps_closures s) (df_predicate x) else None)"
    if d: "d \<in> set ?dl" and x: "objs (ps_deferreds s) d = Some x" for d x
    using deferred_closures [OF assms(2) d x, of exs] s'(5) by (simp add: after_defers_def)
  with s' show ?thesis by (intro exI [of _ s']) (auto simp: after_defers_def)
qed

section \<open>Calls into a component\<close>

text \<open>With coroutines, a call into an idle component asks \<open>dzn_port_blocked_p\<close>, which has no return
  statement, and uses its value: the behaviour is undefined whether or not the port is blocked.\<close>

theorem call_in_idle_undefined:
  assumes "co_env_ok alive key_of env s" and "get_info (ps_rt s) component = Inr info" and "rt_handling info = 0"
    and "pump_of s component = return_run self"
    and "self = NULL \<or> pump_rep s self ds \<and> (\<forall>d \<in> set (ds Blocked). port_at s d \<noteq> None)"
  shows "dzn_runtime_call_in env component port s = fail_run MissingReturn"
proof (cases "self = NULL")
  case True
  then show ?thesis
    using assms(2-4) by (simp add: dzn_runtime_call_in_def dzn_port_blocked_p_def del: get_info_Inr_iff)
next
  case False
  let ?s = "set_data env (int port) s"
  have rep: "pump_rep ?s self ds" using assms(5) False by simp
  have "\<forall>d \<in> set (ds Blocked). port_at ?s d \<noteq> None" using assms(5) False by simp
  from pump_find_port [OF rep set_data_facts(3) [OF assms(1)] this]
  have "\<exists>b. dzn_pump_port_blocked_p env self port s = return_run (b, ?s)"
    by (simp add: dzn_pump_port_blocked_p_def Let_def)
  then show ?thesis
    using assms(2-4) False
    by (auto simp: dzn_runtime_call_in_def dzn_port_blocked_p_def simp del: get_info_Inr_iff)
qed

text \<open>A collateral block looks for a blocked coroutine with the identity that the component stores as
  \<open>handling\<close>.  That identity is one for every coroutine that runs an event, and the first blocked
  coroutine that has it is taken, so the caller is parked on that coroutine's port, whichever coroutine is
  handling the component.\<close>

theorem collateral_joins_first_blocked:
  assumes "co_env_ok alive key_of env s" and "pump_rep s self ds" and "port \<noteq> NULL"
    and "ds Blocked = b # bs" and "objs (ps_ports s) b = Some x" and "b \<noteq> NULL" and "pc_id x = i"
    and "store_ok (ps_ports s)" and "\<forall>p. objs (ps_pumps s) self = Some p \<longrightarrow> pump_id p < INT_MAX"
  shows "\<exists>s' w. dzn_pump_collateral_block env self port i s = return_run (s', [Yield_to w]) \<and>
    ps_stacks s' w = [Handler self] \<and>
    pump_rep s' self (ds(Collateral := ds Collateral @ [fresh (ps_ports s)])) \<and>
    objs (ps_ports s') (fresh (ps_ports s)) =
      Some \<lparr>pc_port = pc_port x, pc_coroutine = current env s, pc_id = current_id env s\<rparr>"
proof -
  let ?s = "set_data env i s" and ?new = "fresh (ps_ports s)"
  let ?pc = "\<lparr>pc_port = pc_port x, pc_coroutine = current env s, pc_id = current_id env s\<rparr>"
  note facts = set_data_facts [OF assms(1), of i]
  have "first_data (id_predicate env ?s) (ds Blocked) = Inr b"
    using assms(4-7) facts(3) by (simp add: id_predicate_def store_simps)
  then have found: "pump_find env self Blocked id_predicate ?s = return_run b"
    using pump_find_rep [of ?s self ds env Blocked id_predicate] assms(2) by (simp add: return_run_def)
  define s1 where "s1 = ?s\<lparr>ps_ports := snd (malloc ?pc (ps_ports s))\<rparr>"
  have made: "port_coroutine_create env (pc_port x) (current env ?s) ?s = (?new, s1)"
    by (simp add: port_coroutine_create_def malloc_def facts(2,5) s1_def)
  have "pump_rep s1 self ds" using assms(2) by (auto simp: s1_def intro: pump_rep_cong)
  then obtain s2 where s2: "pump_enqueue self Collateral ?new s1 = return_run s2"
    "pump_rep s2 self (ds(Collateral := ds Collateral @ [?new]))" "lists_only self s1 s2"
    by (rule pump_enqueue_rep)
  have ok2: "co_env_ok alive key_of env s2"
    using facts(1) lists_only_co_ok [OF s2(3)] by (simp add: s1_def)
  obtain p where p: "objs (ps_pumps s2) self = Some p" "self \<noteq> NULL" "pump_id p \<noteq> INT_MAX"
    using s2(2,3) assms(9) by (auto simp: lists_only_def pump_rep_def s1_def)
  obtain w s3 where s3: "pump_create_coroutine env self (Handler self) s2 = return_run (w, s3)"
    "s3 = put_pump self (p\<lparr>pump_id := pump_id p + 1\<rparr>)
      (s2\<lparr>ps_co := ps_co s3, ps_stacks := (ps_stacks s2)(w := [Handler self])\<rparr>)"
    by (rule create_facts [OF ok2 p(1,2,3)]) blast
  have at3: "ps_cells s3 = ps_cells s2" "objs (ps_pumps s3) self = Some (p\<lparr>pump_id := pump_id p + 1\<rparr>)"
    "ps_stacks s3 w = [Handler self]" "ps_ports s3 = ps_ports s2"
    by (subst s3(2), simp)+
  have "pump_rep s3 self (ds(Collateral := ds Collateral @ [?new]))"
    by (rule pump_rep_put [OF s2(2) p(1) _ at3(1,2)]) simp
  moreover have "dzn_pump_collateral_block env self port i s = return_run (s3, [Yield_to w])"
    using assms(3,5,6) found made s2(1) s3(1)
    by (simp add: dzn_pump_collateral_block_def port_name_def Let_def store_simps)
  moreover have "objs (ps_ports s3) ?new = Some ?pc"
    using lists_onlyD(2) [OF s2(3)] at3(4) by (simp add: s1_def malloc_def)
  ultimately show ?thesis using at3(3) by blast
qed

end
