(* ===== verification/Pump_Examples.thy ===== *)
theory Pump_Examples
  imports Pump_Defer
begin

text \<open>
  The properties of the C pump applied: a pump at address 5 on the threads of \<open>tiny_pth\<close>, with the three
  components of theory \<open>Runtime\<close>.  A closure is a number: as a handler it adds itself to the state, as a
  predicate it holds when it is 9.
\<close>

definition counting :: "(nat, nat, tiny) penv" where
  "counting = \<lparr>pe_cfg = no_coroutines, pe_body = (\<lambda>n. PLocal (\<lambda>u. u + n) (\<lambda>_. PReturn)),
     pe_illegal = (\<lambda>_. PReturn), pe_predicate = (\<lambda>n u. n = 9), pe_lib = tiny_pth\<rparr>"

definition empty_pump :: dzn_pump where
  "empty_pump = \<lparr>pump_id = 0, pump_blocked = NULL, pump_collateral = NULL, pump_deferred = NULL,
     pump_q = NULL, pump_released = NULL, pump_invoking = NULL, pump_invoking_id = 0\<rparr>"

definition with_pump ::
    "dzn_pump \<Rightarrow> cells \<Rightarrow> port_coroutine store \<Rightarrow> deferred store \<Rightarrow> nat store \<Rightarrow> (nat, nat, tiny) psys" where
  "with_pump p hp po de cl = \<lparr>ps_rt = three_components, ps_cells = hp, ps_ports = po, ps_deferreds = de,
     ps_closures = cl, ps_pumps = \<lparr>objs = [5 \<mapsto> p], fresh = 6\<rparr>, ps_co = one_thread, ps_stacks = (\<lambda>_. [])\<rparr>"

lemma with_pump_simps [simp]:
  "ps_rt (with_pump p hp po de cl) = three_components" "ps_cells (with_pump p hp po de cl) = hp"
  "ps_ports (with_pump p hp po de cl) = po" "ps_deferreds (with_pump p hp po de cl) = de"
  "ps_closures (with_pump p hp po de cl) = cl" "ps_co (with_pump p hp po de cl) = one_thread"
  "objs (ps_pumps (with_pump p hp po de cl)) a = (if a = 5 then Some p else None)"
  by (simp_all add: with_pump_def)

lemma counting_simps [simp]:
  "pe_lib counting = tiny_pth" "pe_body counting = (\<lambda>n. PLocal (\<lambda>u. u + n) (\<lambda>_. PReturn))"
  "pe_predicate counting n u \<longleftrightarrow> n = 9"
  by (simp_all add: counting_def)

lemma with_pump_ok: "co_env_ok tiny_alive tiny_values counting (with_pump p hp po de cl)"
  by (simp add: co_env_ok_def tiny_documented one_thread_ok)

lemma with_pump_current:
  "current counting (with_pump p hp po de cl) = 1" "current_id counting (with_pump p hp po de cl) = -1"
  by (simp_all add: current_def current_id_def one_thread_id)
    (simp add: dzn_coroutine_self_def one_thread_def dzn_coroutine_init_def dzn_coroutine_set_id_def no_threads_def)

lemma list_of_empty [simp]: "list_of l empty_pump = NULL"
  by (cases l) (simp_all add: empty_pump_def)

lemma resting_rep: "pump_rep (with_pump empty_pump empty_store po de cl) 5 (\<lambda>_. [])"
  unfolding pump_rep_def by (intro conjI exI [of _ empty_pump] exI [of _ "\<lambda>_. []"]) simp_all

text \<open>One list holds the struct at 21, or the structs at 21 and 22.\<close>

definition one_cell :: cells where
  "one_cell = \<lparr>objs = [11 \<mapsto> \<lparr>cell_data = 21, cell_next = NULL\<rparr>], fresh = 12\<rparr>"

definition two_cells :: cells where
  "two_cells = \<lparr>objs = [11 \<mapsto> \<lparr>cell_data = 21, cell_next = 12\<rparr>, 12 \<mapsto> \<lparr>cell_data = 22, cell_next = NULL\<rparr>], fresh = 13\<rparr>"

lemma one_list_rep:
  assumes "store_ok hp" and "chain hp a cs"
  shows "pump_rep (with_pump (set_list l a empty_pump) hp po de cl) 5 ((\<lambda>_. [])(l := data_of cs))"
  unfolding pump_rep_def using assms
  by (intro conjI exI [of _ "set_list l a empty_pump"] exI [of _ "(\<lambda>_. [])(l := cs)"]) auto

lemma cells_ok: "store_ok one_cell" "chain one_cell 11 [(11, 21)]" "store_ok two_cells" "chain two_cells 11 [(11, 21), (12, 22)]"
  by (auto simp: one_cell_def two_cells_def store_ok_def)

section \<open>Blocking and releasing\<close>

theorem release_before_block_witness:
  "\<exists>s1. dzn_pump_release counting 5 7 (with_pump empty_pump empty_store \<lparr>objs = (\<lambda>_. None), fresh = 21\<rparr> empty_store empty_store) =
     return_run s1 \<and> pump_rep s1 5 ((\<lambda>_. [])(Released := [21]))"
  using release_before_block [OF with_pump_ok resting_rep, of 7 "\<lparr>objs = (\<lambda>_. None), fresh = 21\<rparr>" empty_store empty_store]
  by (auto simp: store_ok_def)

text \<open>A coroutine, 2, is blocked on port 7.\<close>

definition one_blocked :: "(nat, nat, tiny) psys" where
  "one_blocked = with_pump (set_list Blocked 11 empty_pump) one_cell
     \<lparr>objs = [21 \<mapsto> \<lparr>pc_port = 7, pc_coroutine = 2, pc_id = 1\<rparr>], fresh = 22\<rparr> empty_store empty_store"

lemma one_blocked_ok: "co_env_ok tiny_alive tiny_values counting one_blocked"
  by (simp add: one_blocked_def with_pump_ok)

lemma one_blocked_rep: "pump_rep one_blocked 5 ((\<lambda>_. [])(Blocked := [21]))"
  using one_list_rep [OF cells_ok(1,2), of Blocked] by (simp add: one_blocked_def)

theorem release_after_block_use_after_free_witness:
  "\<exists>s1 s2. dzn_pump_release counting 5 7 one_blocked = return_run s1 \<and>
     pump_process_released counting 5 s1 = return_run (s2, [Yield_to 2, Process_released 5])"
  using release_after_block_use_after_free [OF one_blocked_ok one_blocked_rep, of 7 "[]" 21 "[]"
      "\<lparr>pc_port = 7, pc_coroutine = 2, pc_id = 1\<rparr>"]
  by (auto simp: one_blocked_def)

theorem collateral_joins_first_blocked_witness:
  "\<exists>s' w. dzn_pump_collateral_block counting 5 8 1 one_blocked = return_run (s', [Yield_to w]) \<and>
     objs (ps_ports s') 22 = Some \<lparr>pc_port = 7, pc_coroutine = 1, pc_id = -1\<rparr>"
  using collateral_joins_first_blocked [OF one_blocked_ok one_blocked_rep, of 8 21 "[]"
      "\<lparr>pc_port = 7, pc_coroutine = 2, pc_id = 1\<rparr>" 1]
  by (auto simp: one_blocked_def with_pump_current store_ok_def INT_MAX_def empty_pump_def)

section \<open>One event\<close>

definition running :: "(nat, nat) pprog \<Rightarrow> (nat, nat, tiny) psys \<Rightarrow> (nat, nat, tiny) psys" where
  "running p s = set_stack 1 [Rt (In_handler p)] s"

theorem pump_runs_event_witness:
  "\<exists>s'. pump_reaches counting
      (running (PCall (Pump_run 5 31) PReturn)
        (with_pump empty_pump empty_store empty_store empty_store \<lparr>objs = [31 \<mapsto> 4], fresh = 32\<rparr>)) s' \<and>
    rt_user (ps_rt s') = 4 \<and> pump_rep s' 5 (\<lambda>_. [])"
proof -
  let ?s = "running (PCall (Pump_run 5 31) PReturn)
    (with_pump empty_pump empty_store empty_store empty_store \<lparr>objs = [31 \<mapsto> 4], fresh = 32\<rparr>)"
  have "co_env_ok tiny_alive tiny_values counting ?s" "pump_rep ?s 5 (\<lambda>_. [])"
    using resting_rep by (simp_all add: running_def with_pump_ok)
  from pump_runs_event [OF this, of 31 PReturn "[]" 4] show ?thesis
    by (auto simp: running_def with_pump_current empty_pump_def INT_MAX_def three_components_def)
qed

section \<open>Deferred statements\<close>

text \<open>Two deferred statements of components 2 and 3, which add 5 and 6; \<open>a\<close> and \<open>b\<close> are their
  predicates.\<close>

definition two_deferred :: "nat \<Rightarrow> nat \<Rightarrow> (nat, nat, tiny) psys" where
  "two_deferred a b = with_pump (set_list Deferred 11 empty_pump) two_cells empty_store
     \<lparr>objs = [21 \<mapsto> \<lparr>df_component = 2, df_predicate = 31, df_defer = 32\<rparr>,
       22 \<mapsto> \<lparr>df_component = 3, df_predicate = 33, df_defer = 34\<rparr>], fresh = 23\<rparr>
     \<lparr>objs = [31 \<mapsto> a, 32 \<mapsto> 5, 33 \<mapsto> b, 34 \<mapsto> 6], fresh = 35\<rparr>"

lemma two_deferred_rep: "pump_rep (two_deferred a b) 5 ((\<lambda>_. [])(Deferred := [21, 22]))"
  using one_list_rep [OF cells_ok(3,4), of Deferred] by (simp add: two_deferred_def)

lemma two_deferred_at:
  "deferred_at (two_deferred a b) 21 \<lparr>df_component = 2, df_predicate = 31, df_defer = 32\<rparr> a 5"
  "deferred_at (two_deferred a b) 22 \<lparr>df_component = 3, df_predicate = 33, df_defer = 34\<rparr> b 6"
  by (simp_all add: deferred_at_def two_deferred_def)

lemma two_deferred_ok: "deferreds_ok (two_deferred a b) [21, 22]"
  using two_deferred_at [of a b] by (fastforce simp: two_deferred_def)

lemma two_deferred_holds:
  "holds_at counting (two_deferred a b) 21 \<longleftrightarrow> a = 9" "holds_at counting (two_deferred a b) 22 \<longleftrightarrow> b = 9"
  using holds_at_iff [OF two_deferred_at(1)] holds_at_iff [OF two_deferred_at(2)] by simp_all

theorem prune_removes_stale_front_witness:
  "\<exists>s'. dzn_pump_prune_deferred counting 5 (two_deferred 0 9) = return_run s' \<and>
     pump_rep s' 5 ((\<lambda>_. [])(Deferred := [22])) \<and> objs (ps_deferreds s') 21 = None"
  using prune_removes_stale_front [OF two_deferred_rep, of 0 9 "[21]" "[22]" counting]
  by (auto simp: two_deferred_holds pruned_def two_deferred_ok simp del: deferreds_ok.simps)

theorem prune_frees_kept_cell_witness:
  "dzn_pump_run_defer counting 5 (two_deferred 9 0) = fail_run UseAfterFree"
  using prune_frees_kept_cell [OF two_deferred_rep, of 9 0 "[]" 21 22 "[]" counting]
  by (simp add: two_deferred_holds two_deferred_ok del: deferreds_ok.simps)

text \<open>A predicate that holds while the state is below a bound: the first statement, which adds 5, makes the second
  one stale.\<close>

definition bounded :: "(nat, nat, tiny) penv" where
  "bounded = counting\<lparr>pe_predicate := (\<lambda>n u. u < n)\<rparr>"

lemma bounded_simps [simp]:
  "pe_lib bounded = tiny_pth" "pe_body bounded = (\<lambda>n. PLocal (\<lambda>u. u + n) (\<lambda>_. PReturn))"
  "pe_predicate bounded n u \<longleftrightarrow> u < n" "current bounded s = current counting s"
  by (simp_all add: bounded_def current_def)

theorem finalize_runs_deferred_witness:
  "\<exists>s'. pump_reaches bounded (running (PCall (Pump_finalize 5) PReturn) (two_deferred 9 5)) s' \<and>
     rt_user (ps_rt s') = 5 \<and> objs (ps_deferreds s') 21 = None \<and> objs (ps_closures s') 31 = Some 9 \<and>
     objs (ps_closures s') 33 = None \<and> objs (ps_closures s') 34 = Some 6"
proof -
  let ?s = "running (PCall (Pump_finalize 5) PReturn) (two_deferred 9 5)"
  have cur: "current counting ?s = 1" by (simp add: running_def two_deferred_def with_pump_current)
  have at: "deferred_at ?s 21 \<lparr>df_component = 2, df_predicate = 31, df_defer = 32\<rparr> 9 5"
    "deferred_at ?s 22 \<lparr>df_component = 3, df_predicate = 33, df_defer = 34\<rparr> 5 6"
    using two_deferred_at [of 9 5] by (simp_all add: deferred_at_def running_def)
  have infos: "get_info (ps_rt ?s) 2 = Inr (idle_info False)" "get_info (ps_rt ?s) 3 = Inr (idle_info False)"
    by (simp_all add: running_def two_deferred_def)
  have "runnable bounded ?s 21" "runnable bounded ?s 22"
    unfolding runnable_def using at infos by (fastforce simp del: get_info_Inr_iff)+
  moreover have "pump_rep ?s 5 ((\<lambda>_. [])(Deferred := [21, 22]))"
    using two_deferred_rep by (simp add: running_def)
  moreover have "deferreds_ok ?s [21, 22]"
    by (rule deferreds_ok_cong [OF two_deferred_ok]) (simp_all add: running_def)
  moreover have "rt_user (ps_rt ?s) = 0" by (simp add: running_def two_deferred_def three_components_def)
  moreover from this have "defer_plan (deferred_holds bounded ?s) (deferred_effect bounded ?s) [21, 22] (rt_user (ps_rt ?s)) =
      Some ([21], 5)"
    using deferred_at_facts [OF at(1), of bounded] deferred_at_facts [OF at(2), of bounded] by simp
  ultimately show ?thesis
    using finalize_runs_deferred [of ?s 5 "(\<lambda>_. [])(Deferred := [21, 22])" bounded "[21]" 5 PReturn "[]"] at cur
    by (auto simp: running_def deferred_at_def)
qed

section \<open>Calls into a component\<close>

text \<open>The locator of the components has no pump.\<close>

lemma no_pump_service: "dzn_locator_get (zero_locator\<lparr>loc_services := map_k\<rparr>) ''pump'' = return_run NULL"
proof -
  have "map_abs map_k = (map_abs (fresh_map 256))(''k'' \<mapsto> 1)"
    unfolding map_k_def using room_in_fresh [of "''k''"]
    by (intro map_abs_place map_okD [OF map_ok_256]) (simp add: homes_kx)
  then have "map_abs map_k ''pump'' = None" by (simp add: map_abs_256)
  then show ?thesis
    using dzn_locator_get_abs [of "zero_locator\<lparr>loc_services := map_k\<rparr>" "''pump''"] map_okD [OF map_ok_k]
    by (simp add: short_key_def)
qed

lemma no_pump: "pump_of (with_pump p hp po de cl) 2 = return_run NULL"
proof -
  have "load (rt_locators three_components) 1 = Inr (zero_locator\<lparr>loc_services := map_k\<rparr>)"
    by (simp add: three_components_def)
  with no_pump_service show ?thesis
    by (simp add: pump_of_def del: get_info_Inr_iff load_Inr_iff)
qed

theorem call_in_idle_undefined_witness:
  "dzn_runtime_call_in counting 2 7 (with_pump empty_pump empty_store empty_store empty_store empty_store) =
     fail_run MissingReturn"
  by (rule call_in_idle_undefined [where info = "idle_info False", OF with_pump_ok _ _ no_pump])
    (simp_all del: get_info_Inr_iff)

end
