(* ===== verification/Cpp_Text.thy ===== *)
theory Cpp_Text
  imports Trace_Text
begin

text \<open>
  Text in the C++ runtime: \<open>runtime/c++/runtime.cc\<close> lines 37 to 78 (traces), \<open>dzn/meta.hh.in\<close> (paths) and
  \<open>dzn/runtime.hh\<close> lines 84 to 111 and 276 to 305 (values as text, the hash of a state's label).

  A trace function returns the line it writes to a stream that has a buffer.  An exception is
  \<open>Thrown\<close> with its class.
\<close>

section \<open>Paths and traces\<close>

record cpp_port_meta =
  provide_name :: string
  provide_port :: addr
  provide_component :: addr
  provide_meta :: "dzn_meta option"
  require_name :: string
  require_port :: addr
  require_component :: addr
  require_meta :: "dzn_meta option"

fun cpp_path :: "dzn_meta option \<Rightarrow> string \<Rightarrow> string" where
  "cpp_path None p = ''<external>'' @ (if p = [] then p else ''.'' @ p)"
| "cpp_path (Some (Dzn_meta name None)) p = name @ (if p = [] then p else ''.'' @ p)"
| "cpp_path (Some (Dzn_meta name (Some m))) p = cpp_path (Some m) (name @ (if p = [] then p else ''.'' @ p))"

definition endl :: string where "endl = [CHR 0x0A]"

definition trace_in :: "cpp_port_meta \<Rightarrow> string \<Rightarrow> string" where
  "trace_in meta event =
     cpp_path (require_meta meta) (require_name meta) @ ''.'' @ event @ '' -> '' @
     cpp_path (provide_meta meta) (provide_name meta) @ ''.'' @ event @ endl"

definition trace_out :: "cpp_port_meta \<Rightarrow> string \<Rightarrow> string" where
  "trace_out meta event =
     cpp_path (require_meta meta) (require_name meta) @ ''.'' @ event @ '' <- '' @
     cpp_path (provide_meta meta) (provide_name meta) @ ''.'' @ event @ endl"

definition trace_qin :: "cpp_port_meta \<Rightarrow> string \<Rightarrow> string" where
  "trace_qin meta event =
     (if cpp_path (require_meta meta) [] = ''<external>'' then trace_out meta event
      else cpp_path (require_meta meta) ''<q>'' @ '' <- '' @
        cpp_path (provide_meta meta) (provide_name meta) @ ''.'' @ event @ endl)"

definition trace_qout :: "cpp_port_meta \<Rightarrow> string \<Rightarrow> string" where
  "trace_qout meta event =
     (if cpp_path (require_meta meta) [] = ''<external>'' then []
      else cpp_path (require_meta meta) (require_name meta) @ ''.'' @ event @ '' <- '' @
        cpp_path (require_meta meta) ''<q>'' @ endl)"

section \<open>Values\<close>

definition bool_to_string :: "bool \<Rightarrow> string" where
  "bool_to_string b = (if b then ''true'' else ''false'')"

definition int_to_string :: "32 word \<Rightarrow> string" where
  "int_to_string i = print_int (sint i)"

text \<open>\<open>std::stoi\<close>: white space, a sign, decimal digits; it throws when there is no digit and when the
  value is not an \<open>int\<close>.\<close>

definition stoi :: "string \<Rightarrow> 32 word result" where
  "stoi s =
     (let s = dropWhile is_space s;
          negative = (take 1 s = ''-'');
          s = (if take 1 s \<in> {''-'', ''+''} then drop 1 s else s)
      in if \<not> starts_digit 10 s then Inl (Thrown ''std::invalid_argument'')
         else let n = int (read_digits 10 s 0); i = (if negative then - n else n)
           in if - (2 ^ 31) \<le> i \<and> i < 2 ^ 31 then Inr (word_of_int i) else Inl (Thrown ''std::out_of_range''))"

definition to_int :: "string \<Rightarrow> 32 word result" where
  "to_int s = (if s = ''return'' then Inr 0 else stoi s)"

definition to_bool :: "string \<Rightarrow> bool" where
  "to_bool s \<longleftrightarrow> s = ''true''"

section \<open>The hash of a label\<close>

text \<open>A \<open>char\<close> is signed; it is widened before 47 is subtracted.\<close>

definition char_word :: "char \<Rightarrow> 32 word" where
  "char_word c = scast (of_char c :: 8 word)"

fun hash_loop :: "string \<Rightarrow> 32 word \<Rightarrow> 32 word \<Rightarrow> 32 word \<times> 32 word" where
  "hash_loop [] pw h = (pw, h)"
| "hash_loop (c # cs) pw h = hash_loop cs (pw * 79) (h + (char_word c - 47) * (pw * 79))"

definition label_hash :: "string \<Rightarrow> 32 word \<Rightarrow> 32 word" where
  "label_hash label state =
     (let (pw, h) = hash_loop (decimal (unat state)) 1 0 in snd (hash_loop label pw h))"

section \<open>Properties\<close>

lemma cpp_path_full: "p \<noteq> [] \<Longrightarrow> cpp_path (Some m) p = full_name m p"
proof (induction m arbitrary: p)
  case (Dzn_meta name parent)
  then show ?case by (cases parent) (simp_all add: full_name_def qualify_def)
qed

lemma cpp_path_external: "p \<noteq> [] \<Longrightarrow> cpp_path None p = ''<external>.'' @ p"
  by simp

text \<open>The port a C port description stands for.\<close>

definition same_port :: "cpp_port_meta \<Rightarrow> dzn_port_meta \<Rightarrow> bool" where
  "same_port m c \<longleftrightarrow> provides_name c = provide_name m \<and> provides_meta c = provide_meta m \<and>
     requires_name c = require_name m \<and> requires_meta c = require_meta m"

lemma paths_agree:
  assumes "p \<noteq> []" and "dzn_runtime_path m p = Inr s"
  shows "cpp_path m p = s"
proof (cases m)
  case None
  with assms show ?thesis by (auto simp: strcpy_path_def qualify_def split: if_splits)
next
  case (Some d)
  with assms show ?thesis by (simp add: cpp_path_full dzn_runtime_path_full split: if_splits)
qed

text \<open>The two runtimes write the same lines for a call and for its return: whenever the C runtime's
  buffers hold the names, its line is the one the C++ runtime writes.\<close>

theorem runtimes_trace_alike:
  assumes "same_port m c" and "provide_name m \<noteq> []" and "require_name m \<noteq> []"
  shows "(\<forall>line. dzn_runtime_trace c e = Inr line \<longrightarrow> trace_in m e = line) \<and>
    (\<forall>line. dzn_runtime_trace_out c e = Inr line \<longrightarrow> trace_out m e = line)"
  using assms
  by (auto simp: same_port_def dzn_runtime_trace_def dzn_runtime_trace_out_def trace_line_def trace_in_def
      trace_out_def endl_def strcpy_path_def split: if_splits dest!: paths_agree [rotated])

text \<open>A port of a system, connected to the outside.\<close>

definition led_port :: cpp_port_meta where
  "led_port = \<lparr>provide_name = ''led'', provide_port = 1, provide_component = 2, provide_meta = Some (Dzn_meta ''sut'' None),
     require_name = ''console'', require_port = 3, require_component = 4, require_meta = None\<rparr>"

definition led_port_meta :: dzn_port_meta where
  "led_port_meta = \<lparr>provides_name = ''led'', provides_meta = Some (Dzn_meta ''sut'' None),
     requires_name = ''console'', requires_meta = None\<rparr>"

theorem runtimes_trace_alike_witness:
  "dzn_runtime_trace led_port_meta ''on'' = Inr (trace_in led_port ''on'') \<and>
   dzn_runtime_trace_out led_port_meta ''on'' = Inr (trace_out led_port ''on'')"
proof -
  have "same_port led_port led_port_meta" and "provide_name led_port \<noteq> []" and "require_name led_port \<noteq> []"
    by (simp_all add: same_port_def led_port_def led_port_meta_def)
  moreover have "\<not> isl (dzn_runtime_trace led_port_meta ''on'') \<and> \<not> isl (dzn_runtime_trace_out led_port_meta ''on'')"
    by code_simp
  ultimately show ?thesis using runtimes_trace_alike [of led_port led_port_meta "''on''"]
    by (cases "dzn_runtime_trace led_port_meta ''on''"; cases "dzn_runtime_trace_out led_port_meta ''on''") simp_all
qed

text \<open>The position of a character decides the power of 79 it is multiplied with.\<close>

lemma hash_loop_sum:
  "hash_loop cs pw h =
     (pw * 79 ^ length cs, h + (\<Sum>i < length cs. (char_word (cs ! i) - 47) * pw * 79 ^ (i + 1)))"
proof (induction cs arbitrary: pw h)
  case (Cons c cs)
  have "(\<Sum>i < length (c # cs). (char_word ((c # cs) ! i) - 47) * pw * 79 ^ (i + 1)) =
      (char_word c - 47) * pw * 79 + (\<Sum>i < length cs. (char_word (cs ! i) - 47) * (pw * 79) * 79 ^ (i + 1))"
    by (simp add: sum.lessThan_Suc_shift algebra_simps del: sum.lessThan_Suc)
  with Cons show ?case by (simp add: algebra_simps)
qed simp

text \<open>The hash of a label in a state is the polynomial in 79, modulo \<open>2^32\<close>, whose coefficients are the
  characters of the state's number followed by those of the label, each less 47.\<close>

theorem label_hash_is_polynomial:
  "label_hash label state =
     (let s = decimal (unat state) @ label in \<Sum>i < length s. (char_word (s ! i) - 47) * 79 ^ (i + 1))"
proof -
  have append: "hash_loop (xs @ ys) pw h = (case hash_loop xs pw h of (p, g) \<Rightarrow> hash_loop ys p g)"
    for xs ys pw h
    by (induction xs pw h rule: hash_loop.induct) simp_all
  have "label_hash label state = snd (hash_loop (decimal (unat state) @ label) 1 0)"
    by (simp add: label_hash_def append case_prod_unfold Let_def)
  then show ?thesis by (simp add: hash_loop_sum Let_def)
qed

text \<open>An integer and a boolean written as a reply are read back, and the word \<open>return\<close> of a reply without
  a value reads as zero.\<close>

theorem reply_text_roundtrip:
  "to_int (int_to_string i) = Inr i \<and> to_bool (bool_to_string b) = b \<and> to_int ''return'' = Inr 0"
proof -
  have range: "- (2 ^ 31) \<le> sint i" "sint i < 2 ^ 31"
    using sint_greater_eq [of i] sint_lt [of i] by simp_all
  have stoi_digits: "stoi (decimal n) = (if int n < 2 ^ 31 then Inr (word_of_int (int n)) else Inl (Thrown ''std::out_of_range''))" for n
    using decimal_head [of n] read_decimal [of n]
    by (auto simp: stoi_def digit_not Let_def starts_digit_def is_digit_def digit_value_digit)
  have stoi_minus: "stoi (''-'' @ decimal n) = (if int n \<le> 2 ^ 31 then Inr (word_of_int (- int n)) else Inl (Thrown ''std::out_of_range''))" for n
    using decimal_head [of n] read_decimal [of n]
    by (auto simp: stoi_def is_space_def digit_not Let_def starts_digit_def is_digit_def digit_value_digit)
  have "stoi (print_int (sint i)) = Inr i"
    using stoi_digits [of "nat (sint i)"] stoi_minus [of "nat (- sint i)"] range
    by (auto simp: print_int_def)
  moreover have "print_int (sint i) \<noteq> ''return''"
  proof -
    obtain d ds where head: "decimal (nat (sint i)) = digit d # ds" and "d < 10"
      using decimal_head by blast
    then have "digit d \<noteq> CHR ''r''" using of_char_digit [of d] by fastforce
    with head show ?thesis by (auto simp: print_int_def simp del: decimal.simps)
  qed
  ultimately show ?thesis
    by (simp add: to_int_def int_to_string_def to_bool_def bool_to_string_def)
qed

end
