(* ===== verification/Cpp_State.thy ===== *)
theory Cpp_State
  imports Cpp_Text
begin

text \<open>
  The state of the C++ runtime: \<open>dzn/runtime.hh\<close> (events, the state kept for a component), \<open>runtime.cc\<close>
  lines 80 to 149 (its accessors), \<open>dzn/pump.hh\<close> and \<open>dzn/coroutine.hh\<close> (the pump, its coroutines and timers),
  and the operations of \<open>pump.cc\<close> that only change lists.

  \<^item> Components, ports and event objects are addresses; \<open>cs_events\<close> holds the event objects.
  \<^item> \<open>states\<close> and \<open>coroutine_id2activity\<close> are read with \<open>operator []\<close>, which inserts an element of zeros when
    there is none: they are total functions.  Only \<open>runtime::external\<close>, which nothing calls, could tell.
  \<^item> A \<open>std::function\<close> the runtime builds is a constructor with what the lambda captures.  One that user code
    builds is a name \<open>'f\<close> (an action) or \<open>'p\<close> (a condition on the user's state \<open>'u\<close>).
  \<^item> A coroutine is named by its id, which is never used twice; an iterator to it is its id.
    The stack of each context is a list of frames, the pump's own thread has number 0.
  \<^item> The pointers \<open>dzn_meta\<close>, \<open>dzn_locator\<close> and \<open>dzn_runtime\<close> of an event are set together with its
    component, so the assertion on the component stands for theirs.
\<close>

section \<open>Programs and frames\<close>

text \<open>The value of a call; the text of an enumeration's value comes from generated code.\<close>

datatype reply = Void | Bool_reply bool | Int_reply "32 word" | Data_reply | Enum_reply string

fun reply_string :: "reply \<Rightarrow> string" where
  "reply_string Void = ''return''"
| "reply_string (Bool_reply b) = bool_to_string b"
| "reply_string (Int_reply i) = int_to_string i"
| "reply_string Data_reply = ''return''"
| "reply_string (Enum_reply text) = text"

text \<open>The function an event holds: none, one given to \<open>operator =\<close>, or a copy of another event's.\<close>

datatype 'f binding = Unbound | Bound addr 'f | Forward addr "'f binding"

text \<open>\<open>event_wrapper\<close> with the out event, the component that requires it and the function, and the function kept
  in \<open>deferred_flush\<close> with the out event and the component that provides it.\<close>

datatype 'f event_closure = Event_closure addr addr 'f

datatype flush_closure = Flush_closure addr addr

datatype ('f, 'p) cpp_call =
    Call_event addr
  | Set_out_binding addr "'f option"
  | Flush_component addr
  | Defer addr 'p 'f
  | Port_block addr addr
  | Port_release addr addr
  | Post 'f
  | Handle nat nat 'f
  | Remove nat
  | Illegal_event

datatype ('f, 'p, 'u) cpp_prog =
    Return reply
  | Local "'u \<Rightarrow> 'u" "'u \<Rightarrow> ('f, 'p, 'u) cpp_prog"
  | Call "('f, 'p) cpp_call" "reply \<Rightarrow> ('f, 'p, 'u) cpp_prog"

datatype ('f, 'p, 'u) cpp_frame =
    Run "('f, 'p, 'u) cpp_prog"
  | Then "reply \<Rightarrow> ('f, 'p, 'u) cpp_prog"
  | Label addr string
  | Invoke "'f binding"
  | In_start addr 'f
  | In_handle addr 'f
  | In_flush addr nat int
  | In_trace addr nat int
  | In_finish addr nat int
  | In_leave addr nat int
  | Raii_leave addr
  | Give reply
  | Out_queue addr 'f
  | Out_done nat int
  | Deferred_flush flush_closure
  | Clear_update addr
  | Flush addr nat bool
  | Flush_loop addr nat bool bool
  | Flush_event addr "'f event_closure"
  | Run_deferred addr 'f nat
  | Defer_flush addr nat nat int
  | Defer_done nat int
  | Block_skip nat addr addr
  | Block_resumed addr
  | Worker
  | Worker_deferred
  | Worker_now
  | Worker_timers nat
  | Executed
  | Context_begin
  | Context_loop nat
  | Context_after nat
  | Context_switch
  | Collateral_release nat
  | Never
  | Pump_begin
  | Pump_loop
  | Pump_paused
  | Pump_called

section \<open>Records\<close>

text \<open>\<open>runtime::state\<close>.\<close>

record 'f rt_state =
  st_activity :: int
  st_handling :: nat
  st_blocked :: nat
  st_skip :: addr
  st_native :: bool
  st_performs_flush :: bool
  st_port_update :: "flush_closure option"
  st_deferred :: addr
  st_queue :: "'f event_closure list"

definition empty_state :: "'f rt_state" where
  "empty_state = \<lparr>st_activity = 0, st_handling = 0, st_blocked = 0, st_skip = NULL, st_native = False,
     st_performs_flush = False, st_port_update = None, st_deferred = NULL, st_queue = []\<rparr>"

text \<open>The three classes of events differ in what they do when they are called.\<close>

datatype event_kind = In_typed | In_void | Out_void

record 'f cpp_event =
  ev_kind :: event_kind
  ev_binding :: "'f binding"
  ev_out_binding :: "'f option"
  ev_strict :: bool
  ev_reply :: reply
  ev_port :: addr
  ev_other :: "addr option"
  ev_meta :: "cpp_port_meta option"
  ev_component :: addr
  ev_name :: string

record cpp_coroutine =
  co_id :: nat
  co_component :: addr
  co_port :: addr
  co_finished :: bool
  co_skip_block :: bool

text \<open>A deadline: ordered by its time, then by its identifier.\<close>

datatype deadline = Deadline (dl_time: nat) (dl_id: nat)

definition dl_before :: "deadline \<Rightarrow> deadline \<Rightarrow> bool" where
  "dl_before this that \<longleftrightarrow> dl_time this < dl_time that \<or> (dl_time this = dl_time that \<and> dl_id this < dl_id that)"

text \<open>It is the strict part of a linear order, which sorts the keys of \<open>timers\<close>.\<close>

instantiation deadline :: linorder
begin

definition less_deadline :: "deadline \<Rightarrow> deadline \<Rightarrow> bool" where
  "this < that \<longleftrightarrow> dl_before this that"

definition less_eq_deadline :: "deadline \<Rightarrow> deadline \<Rightarrow> bool" where
  "this \<le> that \<longleftrightarrow> this < that \<or> this = (that :: deadline)"

lemmas deadline_order_defs = less_eq_deadline_def less_deadline_def dl_before_def

instance
proof
  fix x y z :: deadline
  show "x < y \<longleftrightarrow> x \<le> y \<and> \<not> y \<le> x" by (cases x; cases y) (auto simp: deadline_order_defs)
  show "x \<le> x" by (simp add: less_eq_deadline_def)
  show "x \<le> y \<Longrightarrow> y \<le> z \<Longrightarrow> x \<le> z" by (auto simp: deadline_order_defs)
  show "x \<le> y \<Longrightarrow> y \<le> x \<Longrightarrow> x = y" by (auto simp: deadline_order_defs)
  show "x \<le> y \<or> y \<le> x" by (cases x; cases y) (auto simp: deadline_order_defs)
qed

end

definition dl_expired :: "deadline \<Rightarrow> nat \<Rightarrow> bool" where
  "dl_expired d now \<longleftrightarrow> dl_time d \<le> now"

record ('f, 'p) cpp_pump =
  pu_wait_for_timeouts :: bool
  pu_unblocked :: "addr list"
  pu_running :: bool
  pu_executing :: bool
  pu_paused :: bool
  pu_coroutines :: "cpp_coroutine list"
  pu_collateral :: "cpp_coroutine list"
  pu_current :: nat
  pu_queue :: "'f list"
  pu_deferred :: "('p \<times> addr \<times> 'f) list"
  pu_timers :: "(deadline \<times> 'f) list"
  pu_switch :: "nat list"

text \<open>The system: the runtime, its pump if there is one, the ports' labels and the meta data of components, what
  was written to the stream, the clock, the contexts' stacks, which context runs and the value of the last call.\<close>

record ('f, 'p, 'u) cpp_sys =
  cs_states :: "addr \<Rightarrow> 'f rt_state"
  cs_activity :: "nat \<Rightarrow> int"
  cs_defer :: bool
  cs_events :: "'f cpp_event store"
  cs_labels :: "addr \<Rightarrow> string"
  cs_require :: "addr \<Rightarrow> cpp_port_meta list"
  cs_pump :: "('f, 'p) cpp_pump option"
  cs_user :: 'u
  cs_os :: string
  cs_clock :: nat
  cs_stacks :: "nat \<Rightarrow> ('f, 'p, 'u) cpp_frame list option"
  cs_active :: nat
  cs_value :: reply

type_synonym ('f, 'p, 'u) cpp_outcome = "(('f, 'p, 'u) cpp_sys \<times> ('f, 'p, 'u) cpp_frame list) result"

section \<open>Accessors of the runtime\<close>

definition set_state :: "addr \<Rightarrow> ('f rt_state \<Rightarrow> 'f rt_state) \<Rightarrow> ('f, 'p, 'u) cpp_sys \<Rightarrow> ('f, 'p, 'u) cpp_sys" where
  "set_state c f s = s\<lparr>cs_states := (cs_states s)(c := f (cs_states s c))\<rparr>"

definition handling :: "('f, 'p, 'u) cpp_sys \<Rightarrow> addr \<Rightarrow> nat" where
  "handling s component = st_handling (cs_states s component)"

definition set_handling :: "addr \<Rightarrow> nat \<Rightarrow> ('f, 'p, 'u) cpp_sys \<Rightarrow> ('f, 'p, 'u) cpp_sys" where
  "set_handling component n s = set_state component (st_handling_update (\<lambda>_. n)) s"

definition blocked :: "('f, 'p, 'u) cpp_sys \<Rightarrow> addr \<Rightarrow> nat" where
  "blocked s component = st_blocked (cs_states s component)"

definition set_blocked :: "addr \<Rightarrow> nat \<Rightarrow> ('f, 'p, 'u) cpp_sys \<Rightarrow> ('f, 'p, 'u) cpp_sys" where
  "set_blocked component n s = set_state component (st_blocked_update (\<lambda>_. n)) s"

definition deferred_flush :: "('f, 'p, 'u) cpp_sys \<Rightarrow> addr \<Rightarrow> flush_closure option" where
  "deferred_flush s component = st_port_update (cs_states s component)"

definition set_deferred_flush ::
    "addr \<Rightarrow> flush_closure option \<Rightarrow> ('f, 'p, 'u) cpp_sys \<Rightarrow> ('f, 'p, 'u) cpp_sys" where
  "set_deferred_flush component f s = set_state component (st_port_update_update (\<lambda>_. f)) s"

definition deferred_target :: "('f, 'p, 'u) cpp_sys \<Rightarrow> addr \<Rightarrow> addr" where
  "deferred_target s component = st_deferred (cs_states s component)"

definition set_deferred_target :: "addr \<Rightarrow> addr \<Rightarrow> ('f, 'p, 'u) cpp_sys \<Rightarrow> ('f, 'p, 'u) cpp_sys" where
  "set_deferred_target component t s = set_state component (st_deferred_update (\<lambda>_. t)) s"

definition rt_queue_of :: "('f, 'p, 'u) cpp_sys \<Rightarrow> addr \<Rightarrow> 'f event_closure list" where
  "rt_queue_of s component = st_queue (cs_states s component)"

definition set_queue :: "addr \<Rightarrow> 'f event_closure list \<Rightarrow> ('f, 'p, 'u) cpp_sys \<Rightarrow> ('f, 'p, 'u) cpp_sys" where
  "set_queue component q s = set_state component (st_queue_update (\<lambda>_. q)) s"

definition performs_flush :: "('f, 'p, 'u) cpp_sys \<Rightarrow> addr \<Rightarrow> bool" where
  "performs_flush s component = st_performs_flush (cs_states s component)"

definition native :: "('f, 'p, 'u) cpp_sys \<Rightarrow> addr \<Rightarrow> bool" where
  "native s component = st_native (cs_states s component)"

definition skip_block :: "('f, 'p, 'u) cpp_sys \<Rightarrow> addr \<Rightarrow> addr \<Rightarrow> bool" where
  "skip_block s component port \<longleftrightarrow> st_skip (cs_states s component) = port"

definition set_skip_block :: "addr \<Rightarrow> addr \<Rightarrow> ('f, 'p, 'u) cpp_sys \<Rightarrow> ('f, 'p, 'u) cpp_sys" where
  "set_skip_block component port s = set_state component (st_skip_update (\<lambda>_. port)) s"

definition reset_skip_block :: "addr \<Rightarrow> ('f, 'p, 'u) cpp_sys \<Rightarrow> ('f, 'p, 'u) cpp_sys" where
  "reset_skip_block component s = set_state component (st_skip_update (\<lambda>_. NULL)) s"

text \<open>The activity of a coroutine; \<open>scoped_activity\<close> sets it on entry and its destructor sets it back, both only
  when it was zero.\<close>

definition set_activity :: "nat \<Rightarrow> int \<Rightarrow> ('f, 'p, 'u) cpp_sys \<Rightarrow> ('f, 'p, 'u) cpp_sys" where
  "set_activity cid v s = s\<lparr>cs_activity := (cs_activity s)(cid := v)\<rparr>"

definition scoped_activity :: "nat \<Rightarrow> int \<Rightarrow> ('f, 'p, 'u) cpp_sys \<Rightarrow> int \<times> ('f, 'p, 'u) cpp_sys" where
  "scoped_activity cid v s =
     (cs_activity s cid, if cs_activity s cid = 0 then set_activity cid v s else s)"

definition scoped_activity_end :: "nat \<Rightarrow> int \<Rightarrow> ('f, 'p, 'u) cpp_sys \<Rightarrow> ('f, 'p, 'u) cpp_sys" where
  "scoped_activity_end cid initial_activity s = (if initial_activity = 0 then set_activity cid 0 s else s)"

definition write_os :: "string \<Rightarrow> ('f, 'p, 'u) cpp_sys \<Rightarrow> ('f, 'p, 'u) cpp_sys" where
  "write_os line s = s\<lparr>cs_os := cs_os s @ line\<rparr>"

section \<open>Lists of coroutines\<close>

definition self_p :: "cpp_coroutine \<Rightarrow> bool" where
  "self_p c \<longleftrightarrow> co_port c = NULL \<and> \<not> co_finished c"

definition find_self :: "cpp_coroutine list \<Rightarrow> nat result" where
  "find_self coroutines =
     seq (c_assert ''count == 1'' (length (filter self_p coroutines) = 1)) (\<lambda>_.
       case find self_p coroutines of None \<Rightarrow> Inl OutOfBounds | Some c \<Rightarrow> Inr (co_id c))"

definition find_blocked :: "cpp_coroutine list \<Rightarrow> addr \<Rightarrow> cpp_coroutine option" where
  "find_blocked coroutines port = find (\<lambda>c. co_port c = port) coroutines"

definition pump_port_blocked_p :: "('f, 'p) cpp_pump \<Rightarrow> addr \<Rightarrow> bool result" where
  "pump_port_blocked_p p port =
     seq (c_assert ''port'' (port \<noteq> NULL)) (\<lambda>_. Inr (find_blocked (pu_coroutines p) port \<noteq> None))"

text \<open>Writing to a coroutine through an iterator, whichever list it has been spliced to.\<close>

definition on_coroutine ::
    "nat \<Rightarrow> (cpp_coroutine \<Rightarrow> cpp_coroutine) \<Rightarrow> ('f, 'p) cpp_pump \<Rightarrow> ('f, 'p) cpp_pump" where
  "on_coroutine k f p =
     p\<lparr>pu_coroutines := map (\<lambda>c. if co_id c = k then f c else c) (pu_coroutines p),
       pu_collateral := map (\<lambda>c. if co_id c = k then f c else c) (pu_collateral p)\<rparr>"

definition get_coroutine :: "nat \<Rightarrow> ('f, 'p) cpp_pump \<Rightarrow> cpp_coroutine result" where
  "get_coroutine k p =
     (case find (\<lambda>c. co_id c = k) (pu_coroutines p @ pu_collateral p) of
        None \<Rightarrow> Inl UseAfterFree | Some c \<Rightarrow> Inr c)"

text \<open>The first coroutine of a list with a property moves to the end of another.\<close>

definition splice_end ::
    "(cpp_coroutine \<Rightarrow> bool) \<Rightarrow> cpp_coroutine list \<Rightarrow> cpp_coroutine list \<Rightarrow> cpp_coroutine list \<times> cpp_coroutine list" where
  "splice_end P from to =
     (case find P from of None \<Rightarrow> (from, to) | Some c \<Rightarrow> (remove1 c from, to @ [c]))"

text \<open>Every coroutine waiting for \<open>component\<close> on an unblocked port moves, the last one first.\<close>

definition relay_p :: "addr list \<Rightarrow> addr \<Rightarrow> cpp_coroutine \<Rightarrow> bool" where
  "relay_p unblocked component c \<longleftrightarrow> co_component c = component \<and> co_port c \<in> set unblocked"

fun relay_loop ::
    "addr list \<Rightarrow> addr \<Rightarrow> cpp_coroutine list \<Rightarrow> cpp_coroutine list \<Rightarrow> bool \<Rightarrow>
       cpp_coroutine list \<times> cpp_coroutine list \<times> bool" where
  "relay_loop unblocked component [] moved have = ([], moved, have)"
| "relay_loop unblocked component (c # cs) moved have =
     (if relay_p unblocked component c then
        relay_loop unblocked component cs (moved @ [c\<lparr>co_component := NULL, co_port := NULL\<rparr>]) True
      else (case relay_loop unblocked component cs moved have of (kept, moved, have) \<Rightarrow> (c # kept, moved, have)))"

definition collateral_release_skip_block :: "addr \<Rightarrow> ('f, 'p) cpp_pump \<Rightarrow> ('f, 'p) cpp_pump \<times> bool" where
  "collateral_release_skip_block component p =
     (case relay_loop (pu_unblocked p) component (rev (pu_collateral p)) (pu_coroutines p) False of
        (kept, moved, have_collateral) \<Rightarrow>
          (p\<lparr>pu_coroutines := moved, pu_collateral := rev kept\<rparr>, have_collateral))"

section \<open>Deferred statements and timers\<close>

definition pump_defer :: "'p \<Rightarrow> addr \<times> 'f \<Rightarrow> ('f, 'p) cpp_pump \<Rightarrow> ('f, 'p) cpp_pump" where
  "pump_defer predicate event p = p\<lparr>pu_deferred := pu_deferred p @ [(predicate, event)]\<rparr>"

definition pump_prune_deferred :: "('p \<Rightarrow> bool) \<Rightarrow> ('f, 'p) cpp_pump \<Rightarrow> ('f, 'p) cpp_pump" where
  "pump_prune_deferred holds p = p\<lparr>pu_deferred := filter (\<lambda>(predicate, _). holds predicate) (pu_deferred p)\<rparr>"

definition pump_post :: "'f \<Rightarrow> ('f, 'p) cpp_pump \<Rightarrow> ('f, 'p) cpp_pump" where
  "pump_post event p = p\<lparr>pu_queue := pu_queue p @ [event]\<rparr>"

text \<open>\<open>timers\<close> is a map ordered by deadline: its elements in order.\<close>

definition pump_handle :: "nat \<Rightarrow> nat \<Rightarrow> nat \<Rightarrow> 'f \<Rightarrow> ('f, 'p) cpp_pump \<Rightarrow> ('f, 'p) cpp_pump result" where
  "pump_handle now identifier milliseconds event p =
     seq (c_assert ''timer'' (\<forall>(d, _) \<in> set (pu_timers p). dl_id d \<noteq> identifier)) (\<lambda>_.
       Inr (p\<lparr>pu_timers := insort_key fst (Deadline (now + milliseconds) identifier, event) (pu_timers p)\<rparr>))"

definition pump_remove :: "nat \<Rightarrow> ('f, 'p) cpp_pump \<Rightarrow> ('f, 'p) cpp_pump" where
  "pump_remove identifier p =
     (case find (\<lambda>(d, _). dl_id d = identifier) (pu_timers p) of
        None \<Rightarrow> p
      | Some (d, _) \<Rightarrow> p\<lparr>pu_timers := filter (\<lambda>(e, _). e \<noteq> d) (pu_timers p)\<rparr>)"

definition timers_expired :: "('f, 'p) cpp_pump \<Rightarrow> nat \<Rightarrow> bool" where
  "timers_expired p now \<longleftrightarrow> pu_timers p \<noteq> [] \<and> dl_expired (fst (hd (pu_timers p))) now"

text \<open>What other threads do to the pump, and when \<open>wait\<close> lets them go on.\<close>

definition pump_stop :: "('f, 'p) cpp_pump \<Rightarrow> ('f, 'p) cpp_pump" where
  "pump_stop p = p\<lparr>pu_running := False\<rparr>"

definition pump_pause :: "('f, 'p) cpp_pump \<Rightarrow> ('f, 'p) cpp_pump" where
  "pump_pause p = p\<lparr>pu_paused := True\<rparr>"

definition pump_resume :: "('f, 'p) cpp_pump \<Rightarrow> ('f, 'p) cpp_pump" where
  "pump_resume p = p\<lparr>pu_paused := False\<rparr>"

definition pump_wait :: "('f, 'p) cpp_pump \<Rightarrow> bool" where
  "pump_wait p \<longleftrightarrow> \<not> pu_executing p \<and> pu_queue p = [] \<and> pu_deferred p = [] \<and>
     (\<not> pu_wait_for_timeouts p \<or> pu_timers p = [])"

section \<open>Contexts\<close>

definition set_pump :: "('f, 'p) cpp_pump \<Rightarrow> ('f, 'p, 'u) cpp_sys \<Rightarrow> ('f, 'p, 'u) cpp_sys" where
  "set_pump p s = s\<lparr>cs_pump := Some p\<rparr>"

text \<open>A new coroutine starts when it is first resumed.\<close>

definition create_context :: "('f, 'p) cpp_pump \<Rightarrow> ('f, 'p, 'u) cpp_sys \<Rightarrow> ('f, 'p, 'u) cpp_sys" where
  "create_context p s =
     (let k = Suc (pu_current p) in
      s\<lparr>cs_pump := Some (p\<lparr>pu_current := k,
          pu_coroutines := pu_coroutines p @ [\<lparr>co_id = k, co_component = NULL, co_port = NULL, co_finished = False,
            co_skip_block = False\<rparr>]\<rparr>),
        cs_stacks := (cs_stacks s)(k := Some [Context_begin])\<rparr>)"

text \<open>Erasing a coroutine destroys its context.\<close>

definition remove_finished_coroutines ::
    "('f, 'p) cpp_pump \<Rightarrow> ('f, 'p, 'u) cpp_sys \<Rightarrow> ('f, 'p, 'u) cpp_sys" where
  "remove_finished_coroutines p s =
     s\<lparr>cs_pump := Some (p\<lparr>pu_coroutines := filter (\<lambda>c. \<not> co_finished c) (pu_coroutines p)\<rparr>),
       cs_stacks := (\<lambda>k. if \<exists>c \<in> set (pu_coroutines p). co_finished c \<and> co_id c = k then None else cs_stacks s k)\<rparr>"

text \<open>\<open>self->yield_to (that)\<close>: \<open>self\<close> is the running context, and it blocks until it is resumed.\<close>

definition yield_to :: "nat \<Rightarrow> ('f, 'p, 'u) cpp_sys \<Rightarrow> ('f, 'p, 'u) cpp_sys" where
  "yield_to that s = s\<lparr>cs_active := that\<rparr>"

definition yield_to_back :: "('f, 'p) cpp_pump \<Rightarrow> ('f, 'p, 'u) cpp_sys \<Rightarrow> ('f, 'p, 'u) cpp_sys result" where
  "yield_to_back p s =
     (if pu_coroutines p = [] then Inl OutOfBounds else Inr (yield_to (co_id (last (pu_coroutines p))) s))"

end
