(* ===== verification/Cpp_Machine.thy ===== *)
theory Cpp_Machine
  imports Cpp_State
begin

text \<open>
  The C++ runtime as a machine: \<open>runtime.cc\<close> (the flush), \<open>dzn/runtime.hh\<close> (calls of in and out events,
  deferred statements) and \<open>pump.cc\<close> (blocking, releasing, the worker, the pump's thread).

  A function is the state change up to its first call of other code, and the frames that are left to run: what
  is called, then the rest of the function as a frame of its own.  Waiting on a condition variable is a step that
  changes nothing.  Resuming another context changes \<open>cs_active\<close>; the frames left stay on the stack of the
  context that ran.  The thread pool, the condition variables inside \<open>context\<close> and the debug stream are left out.
\<close>

section \<open>The environment\<close>

text \<open>Generated and user code: what a function does, whether a predicate holds, and \<open>dzn_update_state\<close> of a port.\<close>

record ('f, 'p, 'u) cpp_env =
  ce_body :: "'f \<Rightarrow> ('f, 'p, 'u) cpp_prog"
  ce_holds :: "'p \<Rightarrow> 'u \<Rightarrow> bool"
  ce_update :: "addr \<Rightarrow> string \<Rightarrow> ('f, 'p, 'u) cpp_prog"

section \<open>What is implemented by the pump when there is one\<close>

definition get_cpp_pump :: "('f, 'p, 'u) cpp_sys \<Rightarrow> ('f, 'p) cpp_pump result" where
  "get_cpp_pump s = (case cs_pump s of None \<Rightarrow> Inl (Thrown ''std::runtime_error'') | Some p \<Rightarrow> Inr p)"

definition cpp_coroutine_id :: "('f, 'p, 'u) cpp_sys \<Rightarrow> nat result" where
  "cpp_coroutine_id s = (case cs_pump s of None \<Rightarrow> Inr 1 | Some p \<Rightarrow> find_self (pu_coroutines p))"

definition port_blocked_p :: "('f, 'p, 'u) cpp_sys \<Rightarrow> addr \<Rightarrow> bool result" where
  "port_blocked_p s port = (case cs_pump s of None \<Rightarrow> Inr False | Some p \<Rightarrow> pump_port_blocked_p p port)"

fun any_port_blocked :: "('f, 'p) cpp_pump \<Rightarrow> cpp_port_meta list \<Rightarrow> bool result" where
  "any_port_blocked p [] = Inr False"
| "any_port_blocked p (m # ms) =
     seq (pump_port_blocked_p p (provide_port m)) (\<lambda>b. if b then Inr True else any_port_blocked p ms)"

definition blocked_p :: "('f, 'p, 'u) cpp_sys \<Rightarrow> addr \<Rightarrow> bool result" where
  "blocked_p s component =
     (case cs_pump s of
        None \<Rightarrow> Inr False
      | Some p \<Rightarrow> seq (c_assert ''component'' (component \<noteq> NULL)) (\<lambda>_. any_port_blocked p (cs_require s component)))"

definition prune_deferred :: "('f, 'p, 'u) cpp_env \<Rightarrow> ('f, 'p, 'u) cpp_sys \<Rightarrow> ('f, 'p, 'u) cpp_sys" where
  "prune_deferred env s =
     (case cs_pump s of
        None \<Rightarrow> s
      | Some p \<Rightarrow> set_pump (pump_prune_deferred (\<lambda>predicate. ce_holds env predicate (cs_user s)) p) s)"

section \<open>Events\<close>

definition event_set ::
    "addr \<Rightarrow> addr \<Rightarrow> cpp_port_meta \<Rightarrow> string \<Rightarrow> 'f cpp_event \<Rightarrow> 'f cpp_event" where
  "event_set c i meta n ev =
     ev\<lparr>ev_strict := True, ev_port := i, ev_meta := Some meta, ev_component := c, ev_name := n\<rparr>"

definition check_event :: "'f cpp_event \<Rightarrow> cpp_port_meta result" where
  "check_event ev =
     seq (c_assert ''this->port'' (ev_port ev \<noteq> NULL)) (\<lambda>_.
     seq (c_assert ''this->component'' (ev_component ev \<noteq> NULL)) (\<lambda>_.
       case ev_meta ev of None \<Rightarrow> Inl (AssertFailed ''this->dzn_port_meta'') | Some m \<Rightarrow> Inr m))"

text \<open>\<open>*this->dzn_port_meta\<close>, with nothing asserted.\<close>

definition port_meta :: "'f cpp_event \<Rightarrow> cpp_port_meta result" where
  "port_meta ev = (case ev_meta ev of None \<Rightarrow> Inl NullDeref | Some m \<Rightarrow> Inr m)"

lemma check_event_meta: "check_event ev = Inr m \<Longrightarrow> port_meta ev = Inr m"
  by (auto simp: check_event_def port_meta_def seq_def c_assert_def split: if_splits sum.splits option.splits)

text \<open>\<open>operator =\<close> for a function and for another event.\<close>

definition event_assign :: "addr \<Rightarrow> 'f \<Rightarrow> 'f cpp_event \<Rightarrow> 'f cpp_event" where
  "event_assign this f ev = ev\<lparr>ev_binding := Bound this f\<rparr>"

definition event_copy :: "addr \<Rightarrow> 'f cpp_event \<Rightarrow> 'f cpp_event \<Rightarrow> 'f cpp_event result" where
  "event_copy this that ev = seq (check_event that) (\<lambda>_. Inr (ev\<lparr>ev_binding := Forward this (ev_binding that)\<rparr>))"

definition put_event :: "addr \<Rightarrow> 'f cpp_event \<Rightarrow> ('f, 'p, 'u) cpp_sys \<Rightarrow> ('f, 'p, 'u) cpp_sys" where
  "put_event a ev s = s\<lparr>cs_events := set_obj a (Some ev) (cs_events s)\<rparr>"

text \<open>\<open>port_update\<close>: it does nothing before \<open>set\<close>.\<close>

definition port_update ::
    "('f, 'p, 'u) cpp_env \<Rightarrow> addr \<Rightarrow> string \<Rightarrow> ('f, 'p, 'u) cpp_sys \<Rightarrow> ('f, 'p, 'u) cpp_outcome" where
  "port_update env i label s =
     (if i = NULL then Inr (s, [])
      else Inr (s\<lparr>cs_labels := (cs_labels s)(i := label)\<rparr>, [Run (ce_update env i label)]))"

text \<open>A collateral block: the coroutine that calls waits, on the port for which the one handling waits.\<close>

definition collateral_block :: "addr \<Rightarrow> ('f, 'p, 'u) cpp_sys \<Rightarrow> ('f, 'p, 'u) cpp_sys result" where
  "collateral_block component s =
     seq (get_cpp_pump s) (\<lambda>p.
     seq (find_self (pu_coroutines p)) (\<lambda>self.
       let (others, collateral) = splice_end (\<lambda>c. co_id c = self) (pu_coroutines p) (pu_collateral p);
           p = on_coroutine self (\<lambda>c. c\<lparr>co_component := component\<rparr>)
                 (p\<lparr>pu_coroutines := others, pu_collateral := collateral\<rparr>);
           coroutine_id = (if handling s component \<noteq> 0 then handling s component else blocked s component)
       in case find (\<lambda>c. co_id c = coroutine_id) (pu_coroutines p) of
            None \<Rightarrow> Inl (Thrown ''std::runtime_error'')
          | Some it \<Rightarrow>
              if co_port it = NULL then Inl (Thrown ''std::runtime_error'')
              else
                let s = create_context (on_coroutine self (\<lambda>c. c\<lparr>co_port := co_port it\<rparr>) p) s
                in seq (get_cpp_pump s) (\<lambda>p. yield_to_back p s)))"

section \<open>A call of an in event\<close>

definition in_call :: "addr \<Rightarrow> 'f \<Rightarrow> ('f, 'p, 'u) cpp_sys \<Rightarrow> ('f, 'p, 'u) cpp_outcome" where
  "in_call this f s =
     seq (load (cs_events s) this) (\<lambda>ev.
     seq (check_event ev) (\<lambda>meta.
     seq (if handling s (provide_component meta) \<noteq> 0 then Inr True else port_blocked_p s (ev_port ev)) (\<lambda>busy.
       if busy \<and> native s (provide_component meta) then
         seq (collateral_block (provide_component meta) s) (\<lambda>s. Inr (s, [In_start this f]))
       else Inr (s, [In_start this f]))))"

definition in_start :: "addr \<Rightarrow> 'f \<Rightarrow> ('f, 'p, 'u) cpp_sys \<Rightarrow> ('f, 'p, 'u) cpp_outcome" where
  "in_start this f s =
     seq (load (cs_events s) this) (\<lambda>ev.
     seq (check_event ev) (\<lambda>meta.
       Inr (write_os (trace_in meta (ev_name ev)) (reset_skip_block (ev_component ev) s),
         [Label (ev_port ev) (ev_name ev), In_handle this f])))"

definition in_handle :: "('f, 'p, 'u) cpp_env \<Rightarrow> addr \<Rightarrow> 'f \<Rightarrow> ('f, 'p, 'u) cpp_sys \<Rightarrow> ('f, 'p, 'u) cpp_outcome" where
  "in_handle env this f s =
     seq (load (cs_events s) this) (\<lambda>ev.
     seq (cpp_coroutine_id s) (\<lambda>cid.
       let s = set_handling (ev_component ev) cid s;
           (initial_activity, s) = scoped_activity cid 1 s
       in Inr (s, [Run (ce_body env f), In_flush this cid initial_activity])))"

text \<open>A typed event keeps the value; an event without a type has none.\<close>

definition in_flush :: "addr \<Rightarrow> nat \<Rightarrow> int \<Rightarrow> ('f, 'p, 'u) cpp_sys \<Rightarrow> ('f, 'p, 'u) cpp_outcome" where
  "in_flush this cid0 initial_activity s =
     seq (load (cs_events s) this) (\<lambda>ev.
     seq (check_event ev) (\<lambda>meta.
       let s = (if ev_kind ev = In_typed then put_event this (ev\<lparr>ev_reply := cs_value s\<rparr>) s else s)
       in seq (cpp_coroutine_id s) (\<lambda>cid.
            Inr (s, [Flush (provide_component meta) cid True, In_trace this cid0 initial_activity]))))"

definition in_trace :: "addr \<Rightarrow> nat \<Rightarrow> int \<Rightarrow> ('f, 'p, 'u) cpp_sys \<Rightarrow> ('f, 'p, 'u) cpp_outcome" where
  "in_trace this cid initial_activity s =
     seq (load (cs_events s) this) (\<lambda>ev.
     seq (check_event ev) (\<lambda>meta.
       let reply = (if ev_kind ev = In_typed then reply_string (ev_reply ev) else ''return'')
       in Inr (write_os (trace_out meta reply) s, [Label (ev_port ev) reply, In_finish this cid initial_activity])))"

definition in_finish :: "('f, 'p, 'u) cpp_env \<Rightarrow> addr \<Rightarrow> nat \<Rightarrow> int \<Rightarrow> ('f, 'p, 'u) cpp_sys \<Rightarrow> ('f, 'p, 'u) cpp_outcome" where
  "in_finish env this cid initial_activity s =
     seq (load (cs_events s) this) (\<lambda>ev.
       Inr (prune_deferred env s,
         (case ev_out_binding ev of None \<Rightarrow> [] | Some g \<Rightarrow> [Run (ce_body env g)]) @ [In_leave this cid initial_activity]))"

text \<open>The value to return, then the destructors of \<open>activity\<close> and \<open>handling\<close>.\<close>

definition in_leave :: "addr \<Rightarrow> nat \<Rightarrow> int \<Rightarrow> ('f, 'p, 'u) cpp_sys \<Rightarrow> ('f, 'p, 'u) cpp_outcome" where
  "in_leave this cid initial_activity s =
     seq (load (cs_events s) this) (\<lambda>ev.
       Inr ((set_handling (ev_component ev) 0 (scoped_activity_end cid initial_activity s))\<lparr>cs_value :=
           (if ev_kind ev = In_typed then ev_reply ev else Void)\<rparr>, []))"

section \<open>A call of an out event\<close>

definition out_call :: "addr \<Rightarrow> 'f \<Rightarrow> ('f, 'p, 'u) cpp_sys \<Rightarrow> ('f, 'p, 'u) cpp_outcome" where
  "out_call this f s =
     seq (load (cs_events s) this) (\<lambda>ev.
     seq (check_event ev) (\<lambda>meta.
       Inr (write_os (trace_qin meta (ev_name ev)) s, [Label (ev_port ev) (ev_name ev), Out_queue this f])))"

definition flush_labels :: "'f cpp_event \<Rightarrow> ('f, 'p, 'u) cpp_frame list" where
  "flush_labels ev =
     Label (ev_port ev) ''<flush>'' #
       (case ev_other ev of None \<Rightarrow> [] | Some other \<Rightarrow> [Label other ''<flush>''])"

definition flush_now :: "addr \<Rightarrow> addr \<Rightarrow> addr \<Rightarrow> ('f, 'p, 'u) cpp_sys \<Rightarrow> bool" where
  "flush_now component provide require s \<longleftrightarrow>
     require = NULL \<or>
     (provide = NULL \<and> handling s component = 0 \<and> \<not> performs_flush s component) \<or>
     (provide \<noteq> NULL \<and> \<not> native s provide \<and> handling s provide = 0 \<and> \<not> performs_flush s provide)"

definition label_now :: "'f cpp_event \<Rightarrow> addr \<Rightarrow> ('f, 'p, 'u) cpp_sys \<Rightarrow> bool result" where
  "label_now ev provide s =
     seq (if provide = NULL then port_blocked_p s (ev_port ev) else Inr True) (\<lambda>port_blocked.
       if (\<not> port_blocked \<or> blocked s provide = 0) \<and> handling s (ev_component ev) \<noteq> 0
       then blocked_p s (ev_component ev) else Inr False)"

definition out_queue :: "('f, 'p, 'u) cpp_env \<Rightarrow> addr \<Rightarrow> 'f \<Rightarrow> ('f, 'p, 'u) cpp_sys \<Rightarrow> ('f, 'p, 'u) cpp_outcome" where
  "out_queue env this f s =
     seq (load (cs_events s) this) (\<lambda>ev.
     seq (check_event ev) (\<lambda>meta.
       let provide = provide_component meta; require = require_component meta
       in seq (port_blocked_p s (ev_port ev)) (\<lambda>port_blocked.
          seq (cpp_coroutine_id s) (\<lambda>cid.
            let no_flush_label_p = (port_blocked \<or> performs_flush s NULL \<or> cs_defer s);
                (initial_activity, s) = scoped_activity cid (-1) s;
                s = set_deferred_flush require (Some (Flush_closure this provide)) s;
                s = set_deferred_target provide require s
            in if require = NULL \<and> no_flush_label_p then
                 Inr (s, [Run (ce_body env f), Out_done cid initial_activity])
               else
                 let s = set_queue require (rt_queue_of s require @ [Event_closure this require f]) s
                 in if flush_now (ev_component ev) provide require s then
                      seq (cpp_coroutine_id s) (\<lambda>fid.
                        Inr (s, [Flush require fid (cs_activity s cid = 1), Out_done cid initial_activity]))
                    else
                      seq (label_now ev provide s) (\<lambda>b.
                        Inr (s, (if b then flush_labels ev else []) @ [Out_done cid initial_activity]))))))"

definition out_done :: "('f, 'p, 'u) cpp_env \<Rightarrow> nat \<Rightarrow> int \<Rightarrow> ('f, 'p, 'u) cpp_sys \<Rightarrow> ('f, 'p, 'u) cpp_outcome" where
  "out_done env cid initial_activity s =
     Inr ((scoped_activity_end cid initial_activity (prune_deferred env s))\<lparr>cs_value := Void\<rparr>, [])"

text \<open>\<open>event_wrapper\<close> and the function kept in \<open>deferred_flush\<close>.\<close>

fun run_event_closure ::
    "('f, 'p, 'u) cpp_env \<Rightarrow> 'f event_closure \<Rightarrow> ('f, 'p, 'u) cpp_sys \<Rightarrow> ('f, 'p, 'u) cpp_outcome" where
  "run_event_closure env (Event_closure this require f) s =
     (if require = NULL then Inr (s, [Run (ce_body env f)])
      else
        seq (load (cs_events s) this) (\<lambda>ev.
        seq (port_meta ev) (\<lambda>meta.
          Inr (write_os (trace_qout meta (ev_name ev)) s, [Run (ce_body env f)]))))"

fun run_flush_closure :: "flush_closure \<Rightarrow> ('f, 'p, 'u) cpp_sys \<Rightarrow> ('f, 'p, 'u) cpp_outcome" where
  "run_flush_closure (Flush_closure this provide) s =
     seq (load (cs_events s) this) (\<lambda>ev.
     seq (port_blocked_p s (ev_port ev)) (\<lambda>port_blocked.
       Inr (s, if \<not> port_blocked \<and> (\<not> cs_defer s \<or> native s provide) then flush_labels ev else [])))"

section \<open>Calling an event\<close>

text \<open>The function that \<open>operator =\<close> of an event builds brackets the other's function with the labels of a call
  and of its return; an out event has no return.\<close>

fun invoke ::
    "('f, 'p, 'u) cpp_env \<Rightarrow> 'f binding \<Rightarrow> ('f, 'p, 'u) cpp_sys \<Rightarrow> ('f, 'p, 'u) cpp_outcome" where
  "invoke env Unbound s = Inl (Thrown ''std::bad_function_call'')"
| "invoke env (Bound this f) s =
     seq (load (cs_events s) this) (\<lambda>ev.
       if \<not> ev_strict ev then Inr (s, [Run (ce_body env f)])
       else if ev_kind ev = Out_void then out_call this f s else in_call this f s)"
| "invoke env (Forward this g) s =
     seq (load (cs_events s) this) (\<lambda>ev.
       if \<not> ev_strict ev then Inr (s, [Invoke g])
       else Inr (s, [Label (ev_port ev) (ev_name ev), Invoke g] @
         (if ev_kind ev = Out_void then [] else [Raii_leave this])))"

definition raii_leave :: "addr \<Rightarrow> ('f, 'p, 'u) cpp_sys \<Rightarrow> ('f, 'p, 'u) cpp_outcome" where
  "raii_leave this s =
     seq (load (cs_events s) this) (\<lambda>ev.
       if ev_kind ev = In_typed then
         Inr (put_event this (ev\<lparr>ev_reply := cs_value s\<rparr>) s,
           [Label (ev_port ev) (reply_string (cs_value s)), Give (cs_value s)])
       else Inr (s, [Label (ev_port ev) ''return'', Give Void]))"

section \<open>The flush\<close>

definition cpp_flush :: "addr \<Rightarrow> nat \<Rightarrow> bool \<Rightarrow> ('f, 'p, 'u) cpp_sys \<Rightarrow> ('f, 'p, 'u) cpp_outcome" where
  "cpp_flush component coroutine_id sync_p s =
     Inr (set_handling component coroutine_id s, [Flush_loop component coroutine_id sync_p False])"

definition flush_loop :: "addr \<Rightarrow> nat \<Rightarrow> bool \<Rightarrow> bool \<Rightarrow> ('f, 'p, 'u) cpp_sys \<Rightarrow> ('f, 'p, 'u) cpp_outcome" where
  "flush_loop component coroutine_id sync_p flushed s =
     (case rt_queue_of s component of
        event # rest \<Rightarrow>
          let s = set_queue component rest s
          in (case (if flushed \<or> sync_p then None else deferred_flush s component) of
                None \<Rightarrow> Inr (s, [Flush_event component event, Flush_loop component coroutine_id sync_p flushed])
              | Some flush \<Rightarrow>
                  Inr (s, [Deferred_flush flush, Flush_event component event,
                    Flush_loop component coroutine_id sync_p True]))
      | [] \<Rightarrow>
          let s = set_handling component 0 s; target = deferred_target s component
          in if \<not> sync_p \<and> target \<noteq> NULL then
               let s = set_deferred_target component NULL s
               in Inr (s, if handling s target = 0 then [Flush target coroutine_id sync_p] else [])
             else if \<not> sync_p then
               (case deferred_flush s NULL of None \<Rightarrow> Inr (s, []) | Some flush \<Rightarrow> Inr (s, [Deferred_flush flush, Clear_update NULL]))
             else Inr (s, []))"

definition flush_event ::
    "('f, 'p, 'u) cpp_env \<Rightarrow> addr \<Rightarrow> 'f event_closure \<Rightarrow> ('f, 'p, 'u) cpp_sys \<Rightarrow> ('f, 'p, 'u) cpp_outcome" where
  "flush_event env component event s = run_event_closure env event (set_deferred_flush component None s)"

section \<open>Deferred statements\<close>

definition defer_start :: "('f, 'p, 'u) cpp_env \<Rightarrow> addr \<Rightarrow> 'f \<Rightarrow> nat \<Rightarrow> ('f, 'p, 'u) cpp_sys \<Rightarrow> ('f, 'p, 'u) cpp_outcome" where
  "defer_start env component statement coroutine_id s =
     seq (cpp_coroutine_id s) (\<lambda>cid.
       let (initial_activity, s) = scoped_activity cid (-1) (write_os (''<defer>'' @ endl) s)
       in Inr (s\<lparr>cs_defer := True\<rparr>,
            [Run (ce_body env statement), Defer_flush component coroutine_id cid initial_activity]))"

definition defer_done :: "nat \<Rightarrow> int \<Rightarrow> ('f, 'p, 'u) cpp_sys \<Rightarrow> ('f, 'p, 'u) cpp_outcome" where
  "defer_done cid initial_activity s = Inr (scoped_activity_end cid initial_activity (s\<lparr>cs_defer := False\<rparr>), [])"

section \<open>Blocking and releasing\<close>

definition pump_block :: "addr \<Rightarrow> addr \<Rightarrow> ('f, 'p, 'u) cpp_sys \<Rightarrow> ('f, 'p, 'u) cpp_outcome" where
  "pump_block component port s =
     seq (get_cpp_pump s) (\<lambda>p.
     seq (find_self (pu_coroutines p)) (\<lambda>self.
       Inr (set_handling component 0 (set_blocked component self s),
         [Flush component self True, Block_skip self component port])))"

text \<open>The rest of \<open>pump::block\<close>, up to the switch to another coroutine.  A collateral coroutine that is about to be
  released waits for this port instead.\<close>

definition move_collateral :: "addr \<Rightarrow> ('f, 'p) cpp_pump \<Rightarrow> ('f, 'p) cpp_pump" where
  "move_collateral port p =
     (case find (\<lambda>c. co_port c \<in> set (pu_unblocked p)) (pu_collateral p) of
        None \<Rightarrow> p
      | Some it \<Rightarrow> on_coroutine (co_id it) (\<lambda>c. c\<lparr>co_port := port\<rparr>) p)"

definition block_skip :: "nat \<Rightarrow> addr \<Rightarrow> addr \<Rightarrow> ('f, 'p, 'u) cpp_sys \<Rightarrow> ('f, 'p, 'u) cpp_outcome" where
  "block_skip self component port s =
     (if skip_block s component port then Inr (reset_skip_block component s, [])
      else
        seq (get_cpp_pump s) (\<lambda>p.
          let (p, collateral_skip) =
                collateral_release_skip_block component (on_coroutine self (\<lambda>c. c\<lparr>co_port := port\<rparr>) p);
              s = (if collateral_skip then set_pump p s else create_context (move_collateral port p) s)
          in seq (get_cpp_pump s) (\<lambda>p.
             seq (c_assert ''coroutines.back ().port == nullptr'' (co_port (last (pu_coroutines p)) = NULL)) (\<lambda>_.
             seq (yield_to_back p s) (\<lambda>s. Inr (s, [Block_resumed component]))))))"

definition block_resumed :: "addr \<Rightarrow> ('f, 'p, 'u) cpp_sys \<Rightarrow> ('f, 'p, 'u) cpp_outcome" where
  "block_resumed component s =
     seq (get_cpp_pump s) (\<lambda>p.
       Inr (set_blocked component 0 (reset_skip_block component (remove_finished_coroutines p s)), []))"

definition pump_release :: "addr \<Rightarrow> addr \<Rightarrow> ('f, 'p, 'u) cpp_sys \<Rightarrow> ('f, 'p, 'u) cpp_outcome" where
  "pump_release component port s =
     seq (get_cpp_pump s) (\<lambda>p.
       let s = set_skip_block component port s
       in seq (find_self (pu_coroutines p)) (\<lambda>self.
            case find_blocked (pu_coroutines p) port of
              None \<Rightarrow> Inr (s, [])
            | Some c \<Rightarrow> Inr (set_pump (p\<lparr>pu_switch := pu_switch p @ [co_id c]\<rparr>) s, [])))"

text \<open>The function a release leaves in \<open>switch_context\<close>.\<close>

definition switch_to :: "nat \<Rightarrow> ('f, 'p) cpp_pump \<Rightarrow> ('f, 'p, 'u) cpp_sys \<Rightarrow> ('f, 'p, 'u) cpp_outcome" where
  "switch_to k p s =
     seq (find_self (pu_coroutines p)) (\<lambda>self.
     seq (get_coroutine k p) (\<lambda>c.
       let p = on_coroutine k (\<lambda>c. c\<lparr>co_component := NULL, co_port := NULL\<rparr>)
                 (p\<lparr>pu_unblocked := pu_unblocked p @ [co_port c]\<rparr>);
           p = on_coroutine self (\<lambda>c. c\<lparr>co_finished := True\<rparr>) p
       in Inr (yield_to k (set_pump p s), [Never])))"

definition context_switch :: "('f, 'p, 'u) cpp_sys \<Rightarrow> ('f, 'p, 'u) cpp_outcome" where
  "context_switch s =
     seq (get_cpp_pump s) (\<lambda>p.
       case pu_switch p of
         [] \<Rightarrow> Inr (s, [])
       | k # rest \<Rightarrow> switch_to k (p\<lparr>pu_switch := rest\<rparr>) s)"

definition collateral_release :: "nat \<Rightarrow> ('f, 'p, 'u) cpp_sys \<Rightarrow> ('f, 'p, 'u) cpp_outcome" where
  "collateral_release self s =
     seq (get_cpp_pump s) (\<lambda>p.
       case find (\<lambda>c. co_port c \<in> set (pu_unblocked p)) (pu_collateral p) of
         None \<Rightarrow> Inr (set_pump (p\<lparr>pu_unblocked := []\<rparr>) s, [])
       | Some it \<Rightarrow>
           let (collateral, coroutines) =
                 splice_end (\<lambda>c. co_port c \<in> set (pu_unblocked p)) (pu_collateral p) (pu_coroutines p);
               p = on_coroutine (co_id it) (\<lambda>c. c\<lparr>co_port := NULL\<rparr>)
                     (p\<lparr>pu_coroutines := coroutines, pu_collateral := collateral\<rparr>);
               p = on_coroutine self (\<lambda>c. c\<lparr>co_finished := True\<rparr>) p
           in seq (yield_to_back p (set_pump p s)) (\<lambda>s. Inr (s, [Collateral_release self])))"

section \<open>The worker\<close>

definition worker_wait :: "('f, 'p) cpp_pump \<Rightarrow> nat \<Rightarrow> bool" where
  "worker_wait p now \<longleftrightarrow>
     pu_queue p = [] \<and> pu_deferred p = [] \<and> pu_running p \<and> \<not> timers_expired p now"

definition pump_worker :: "('f, 'p, 'u) cpp_env \<Rightarrow> ('f, 'p, 'u) cpp_sys \<Rightarrow> ('f, 'p, 'u) cpp_outcome" where
  "pump_worker env s =
     seq (get_cpp_pump s) (\<lambda>p.
       if worker_wait p (cs_clock s) then Inr (s, [Worker])
       else case pu_queue p of
         [] \<Rightarrow> Inr (s, [Worker_deferred])
       | f # rest \<Rightarrow>
           Inr (set_pump (p\<lparr>pu_queue := rest, pu_executing := True\<rparr>) s, [Run (ce_body env f), Executed, Worker_deferred]))"

definition worker_deferred :: "('f, 'p, 'u) cpp_env \<Rightarrow> ('f, 'p, 'u) cpp_sys \<Rightarrow> ('f, 'p, 'u) cpp_outcome" where
  "worker_deferred env s =
     seq (get_cpp_pump s) (\<lambda>p.
       case pu_deferred p of
         (predicate, component, statement) # rest \<Rightarrow>
           if pu_queue p = [] \<and> ce_holds env predicate (cs_user s) then
             Inr (set_pump (p\<lparr>pu_deferred := rest, pu_executing := True\<rparr>) s,
               [Run_deferred component statement (pu_current p), Executed, Worker_now])
           else Inr (s, [Worker_now])
       | [] \<Rightarrow> Inr (s, [Worker_now]))"

definition worker_timers :: "('f, 'p, 'u) cpp_env \<Rightarrow> nat \<Rightarrow> ('f, 'p, 'u) cpp_sys \<Rightarrow> ('f, 'p, 'u) cpp_outcome" where
  "worker_timers env now s =
     seq (get_cpp_pump s) (\<lambda>p.
       case pu_timers p of
         (deadline, f) # rest \<Rightarrow>
           if dl_expired deadline now then
             Inr (set_pump (p\<lparr>pu_timers := rest, pu_executing := True\<rparr>) s,
               [Run (ce_body env f), Executed, Worker_timers now])
           else Inr (s, [])
       | [] \<Rightarrow> Inr (s, []))"

definition executed :: "('f, 'p, 'u) cpp_sys \<Rightarrow> ('f, 'p, 'u) cpp_outcome" where
  "executed s = seq (get_cpp_pump s) (\<lambda>p. Inr (set_pump (p\<lparr>pu_executing := False\<rparr>) s, []))"

section \<open>The life of a coroutine and of the pump's thread\<close>

definition context_begin :: "('f, 'p, 'u) cpp_sys \<Rightarrow> ('f, 'p, 'u) cpp_outcome" where
  "context_begin s =
     seq (get_cpp_pump s) (\<lambda>p.
     seq (find_self (pu_coroutines p)) (\<lambda>self. Inr (s, [Context_switch, Context_loop self])))"

text \<open>When the loop ends the coroutine resumes the pump's thread and its context waits to be used again.\<close>

definition context_loop :: "nat \<Rightarrow> ('f, 'p, 'u) cpp_sys \<Rightarrow> ('f, 'p, 'u) cpp_outcome" where
  "context_loop self s =
     seq (get_cpp_pump s) (\<lambda>p.
       if pu_running p \<or> pu_queue p \<noteq> [] \<or> timers_expired p (cs_clock s)
       then Inr (s, [Worker, Context_after self, Context_switch, Context_loop self])
       else Inr (yield_to 0 s, [Context_begin]))"

definition context_after :: "nat \<Rightarrow> ('f, 'p, 'u) cpp_sys \<Rightarrow> ('f, 'p, 'u) cpp_outcome" where
  "context_after self s =
     seq (get_cpp_pump s) (\<lambda>p. Inr (s, if pu_unblocked p = [] then [] else [Collateral_release self]))"

definition pump_begin :: "('f, 'p, 'u) cpp_sys \<Rightarrow> ('f, 'p, 'u) cpp_outcome" where
  "pump_begin s = seq (get_cpp_pump s) (\<lambda>p. Inr (create_context p s, [Pump_loop]))"

definition pump_loop :: "('f, 'p, 'u) cpp_sys \<Rightarrow> ('f, 'p, 'u) cpp_outcome" where
  "pump_loop s =
     seq (get_cpp_pump s) (\<lambda>p.
       if pu_running p \<or> pu_queue p \<noteq> [] \<or> pu_collateral p \<noteq> [] then
         Inr (s, [Pump_paused])
       else
         seq (c_assert ''queue.empty ()'' (pu_queue p = [])) (\<lambda>_.
         seq (c_assert ''coroutines.size () == 1'' (length (pu_coroutines p) = 1)) (\<lambda>_.
           Inr (s, []))))"

definition pump_paused :: "('f, 'p, 'u) cpp_sys \<Rightarrow> ('f, 'p, 'u) cpp_outcome" where
  "pump_paused s =
     seq (get_cpp_pump s) (\<lambda>p.
       if pu_paused p then Inr (s, [Pump_paused])
       else
         seq (c_assert ''coroutines.size ()'' (pu_coroutines p \<noteq> [])) (\<lambda>_.
         seq (yield_to_back p s) (\<lambda>s. Inr (s, [Pump_called]))))"

definition pump_called :: "('f, 'p, 'u) cpp_sys \<Rightarrow> ('f, 'p, 'u) cpp_outcome" where
  "pump_called s = seq (get_cpp_pump s) (\<lambda>p. Inr (remove_finished_coroutines p s, [Pump_loop]))"

section \<open>Steps\<close>

fun cpp_call_step ::
    "('f, 'p, 'u) cpp_env \<Rightarrow> ('f, 'p) cpp_call \<Rightarrow> ('f, 'p, 'u) cpp_sys \<Rightarrow> ('f, 'p, 'u) cpp_outcome" where
  "cpp_call_step env (Call_event a) s = seq (load (cs_events s) a) (\<lambda>ev. Inr (s, [Invoke (ev_binding ev)]))"
| "cpp_call_step env (Set_out_binding a g) s =
     seq (load (cs_events s) a) (\<lambda>ev. Inr (put_event a (ev\<lparr>ev_out_binding := g\<rparr>) s, []))"
| "cpp_call_step env (Flush_component c) s = seq (cpp_coroutine_id s) (\<lambda>cid. Inr (s, [Flush c cid False]))"
| "cpp_call_step env (Defer c predicate statement) s =
     seq (get_cpp_pump s) (\<lambda>p. Inr (set_pump (pump_defer predicate (c, statement) p) s, []))"
| "cpp_call_step env (Port_block c port) s = pump_block c port s"
| "cpp_call_step env (Port_release c port) s = pump_release c port s"
| "cpp_call_step env (Post f) s = seq (get_cpp_pump s) (\<lambda>p. Inr (set_pump (pump_post f p) s, []))"
| "cpp_call_step env (Handle identifier milliseconds f) s =
     seq (get_cpp_pump s) (\<lambda>p.
     seq (pump_handle (cs_clock s) identifier milliseconds f p) (\<lambda>p. Inr (set_pump p s, [])))"
| "cpp_call_step env (Remove identifier) s =
     seq (get_cpp_pump s) (\<lambda>p. Inr (set_pump (pump_remove identifier p) s, []))"
| "cpp_call_step env Illegal_event s = Inl (AssertFailed ''illegal'')"

fun run_prog :: "('f, 'p, 'u) cpp_env \<Rightarrow> ('f, 'p, 'u) cpp_prog \<Rightarrow> ('f, 'p, 'u) cpp_sys \<Rightarrow> ('f, 'p, 'u) cpp_outcome" where
  "run_prog env (Return r) s = Inr (s\<lparr>cs_value := r\<rparr>, [])"
| "run_prog env (Local f k) s = Inr (s\<lparr>cs_user := f (cs_user s)\<rparr>, [Run (k (f (cs_user s)))])"
| "run_prog env (Call c k) s = seq (cpp_call_step env c s) (\<lambda>(s, frames). Inr (s, frames @ [Then k]))"

fun cpp_frame_step ::
    "('f, 'p, 'u) cpp_env \<Rightarrow> ('f, 'p, 'u) cpp_frame \<Rightarrow> ('f, 'p, 'u) cpp_sys \<Rightarrow> ('f, 'p, 'u) cpp_outcome" where
  "cpp_frame_step env (Run p) s = run_prog env p s"
| "cpp_frame_step env (Then k) s = Inr (s, [Run (k (cs_value s))])"
| "cpp_frame_step env (Label i label) s = port_update env i label s"
| "cpp_frame_step env (Invoke b) s = invoke env b s"
| "cpp_frame_step env (In_start a f) s = in_start a f s"
| "cpp_frame_step env (In_handle a f) s = in_handle env a f s"
| "cpp_frame_step env (In_flush a cid i) s = in_flush a cid i s"
| "cpp_frame_step env (In_trace a cid i) s = in_trace a cid i s"
| "cpp_frame_step env (In_finish a cid i) s = in_finish env a cid i s"
| "cpp_frame_step env (In_leave a cid i) s = in_leave a cid i s"
| "cpp_frame_step env (Raii_leave a) s = raii_leave a s"
| "cpp_frame_step env (Give r) s = Inr (s\<lparr>cs_value := r\<rparr>, [])"
| "cpp_frame_step env (Out_queue a f) s = out_queue env a f s"
| "cpp_frame_step env (Out_done cid i) s = out_done env cid i s"
| "cpp_frame_step env (Deferred_flush c) s = run_flush_closure c s"
| "cpp_frame_step env (Clear_update c) s = Inr (set_deferred_flush c None s, [])"
| "cpp_frame_step env (Flush c cid sync) s = cpp_flush c cid sync s"
| "cpp_frame_step env (Flush_loop c cid sync flushed) s = flush_loop c cid sync flushed s"
| "cpp_frame_step env (Flush_event c e) s = flush_event env c e s"
| "cpp_frame_step env (Run_deferred c f cid) s = defer_start env c f cid s"
| "cpp_frame_step env (Defer_flush c fid cid i) s = Inr (s, [Flush c fid False, Defer_done cid i])"
| "cpp_frame_step env (Defer_done cid i) s = defer_done cid i s"
| "cpp_frame_step env (Block_skip self c port) s = block_skip self c port s"
| "cpp_frame_step env (Block_resumed c) s = block_resumed c s"
| "cpp_frame_step env Worker s = pump_worker env s"
| "cpp_frame_step env Worker_deferred s = worker_deferred env s"
| "cpp_frame_step env Worker_now s = Inr (s, [Worker_timers (cs_clock s)])"
| "cpp_frame_step env (Worker_timers now) s = worker_timers env now s"
| "cpp_frame_step env Executed s = executed s"
| "cpp_frame_step env Context_begin s = context_begin s"
| "cpp_frame_step env (Context_loop self) s = context_loop self s"
| "cpp_frame_step env (Context_after self) s = context_after self s"
| "cpp_frame_step env Context_switch s = context_switch s"
| "cpp_frame_step env (Collateral_release self) s = collateral_release self s"
| "cpp_frame_step env Never s = Inl (AssertFailed ''we must never return here!!!'')"
| "cpp_frame_step env Pump_begin s = pump_begin s"
| "cpp_frame_step env Pump_loop s = pump_loop s"
| "cpp_frame_step env Pump_paused s = pump_paused s"
| "cpp_frame_step env Pump_called s = pump_called s"

text \<open>One step of the context that runs; \<open>Inr None\<close> when it has ended.\<close>

definition cpp_step :: "('f, 'p, 'u) cpp_env \<Rightarrow> ('f, 'p, 'u) cpp_sys \<Rightarrow> ('f, 'p, 'u) cpp_sys option result" where
  "cpp_step env s =
     (case cs_stacks s (cs_active s) of
        None \<Rightarrow> Inl UseAfterFree
      | Some [] \<Rightarrow> Inr None
      | Some (frame # rest) \<Rightarrow>
          seq (cpp_frame_step env frame s) (\<lambda>(s', frames).
            Inr (Some (s'\<lparr>cs_stacks := (cs_stacks s')(cs_active s := Some (frames @ rest))\<rparr>))))"

text \<open>Other threads post events, stop, pause and resume the pump; time passes.\<close>

inductive cpp_outside :: "('f, 'p, 'u) cpp_sys \<Rightarrow> ('f, 'p, 'u) cpp_sys \<Rightarrow> bool" where
  outside_post: "cs_pump s = Some p \<Longrightarrow> cpp_outside s (set_pump (pump_post f p) s)"
| outside_stop: "cs_pump s = Some p \<Longrightarrow> cpp_outside s (set_pump (pump_stop p) s)"
| outside_pause: "cs_pump s = Some p \<Longrightarrow> cpp_outside s (set_pump (pump_pause p) s)"
| outside_resume: "cs_pump s = Some p \<Longrightarrow> cpp_outside s (set_pump (pump_resume p) s)"
| outside_clock: "cs_clock s \<le> t \<Longrightarrow> cpp_outside s (s\<lparr>cs_clock := t\<rparr>)"

inductive cpp_reaches ::
    "('f, 'p, 'u) cpp_env \<Rightarrow> ('f, 'p, 'u) cpp_sys \<Rightarrow> ('f, 'p, 'u) cpp_sys \<Rightarrow> bool" for env start where
  cpp_reaches_start: "cpp_reaches env start start"
| cpp_reaches_step: "cpp_reaches env start s \<Longrightarrow> cpp_step env s = Inr (Some s') \<Longrightarrow> cpp_reaches env start s'"
| cpp_reaches_outside: "cpp_reaches env start s \<Longrightarrow> cpp_outside s s' \<Longrightarrow> cpp_reaches env start s'"

text \<open>Running for a number of steps.\<close>

fun cpp_run :: "nat \<Rightarrow> ('f, 'p, 'u) cpp_env \<Rightarrow> ('f, 'p, 'u) cpp_sys \<Rightarrow> ('f, 'p, 'u) cpp_sys result" where
  "cpp_run 0 env s = Inr s"
| "cpp_run (Suc n) env s =
     seq (cpp_step env s) (\<lambda>s'. case s' of None \<Rightarrow> Inr s | Some s' \<Rightarrow> cpp_run n env s')"

end
