(* ===== verification/Cpp_Laws.thy ===== *)
theory Cpp_Laws
  imports Cpp_Machine
begin

text \<open>
  How the C++ runtime runs: frames that complete, what a call of an in event does from its first trace to its
  last, what raising an out event does, and in which order a flush delivers.
\<close>

section \<open>Reading a state after a write\<close>

lemma cs_states_set_state [simp]:
  "cs_states (set_state c f s) d = (if d = c then f (cs_states s c) else cs_states s d)"
  by (simp add: set_state_def)

lemma set_state_fields [simp]:
  "cs_activity (set_state c f s) = cs_activity s" "cs_defer (set_state c f s) = cs_defer s"
  "cs_events (set_state c f s) = cs_events s" "cs_labels (set_state c f s) = cs_labels s"
  "cs_require (set_state c f s) = cs_require s" "cs_pump (set_state c f s) = cs_pump s"
  "cs_user (set_state c f s) = cs_user s" "cs_os (set_state c f s) = cs_os s" "cs_clock (set_state c f s) = cs_clock s"
  "cs_stacks (set_state c f s) = cs_stacks s" "cs_active (set_state c f s) = cs_active s"
  "cs_value (set_state c f s) = cs_value s"
  by (simp_all add: set_state_def)

lemma write_os_fields [simp]:
  "cs_states (write_os l s) = cs_states s" "cs_activity (write_os l s) = cs_activity s"
  "cs_defer (write_os l s) = cs_defer s" "cs_events (write_os l s) = cs_events s"
  "cs_labels (write_os l s) = cs_labels s" "cs_require (write_os l s) = cs_require s"
  "cs_pump (write_os l s) = cs_pump s" "cs_user (write_os l s) = cs_user s" "cs_os (write_os l s) = cs_os s @ l"
  "cs_clock (write_os l s) = cs_clock s" "cs_stacks (write_os l s) = cs_stacks s"
  "cs_active (write_os l s) = cs_active s" "cs_value (write_os l s) = cs_value s"
  by (simp_all add: write_os_def)

lemma set_activity_fields [simp]:
  "cs_states (set_activity k v s) = cs_states s" "cs_activity (set_activity k v s) = (cs_activity s)(k := v)"
  "cs_defer (set_activity k v s) = cs_defer s" "cs_events (set_activity k v s) = cs_events s"
  "cs_labels (set_activity k v s) = cs_labels s" "cs_require (set_activity k v s) = cs_require s"
  "cs_pump (set_activity k v s) = cs_pump s" "cs_user (set_activity k v s) = cs_user s"
  "cs_os (set_activity k v s) = cs_os s" "cs_clock (set_activity k v s) = cs_clock s"
  "cs_stacks (set_activity k v s) = cs_stacks s" "cs_active (set_activity k v s) = cs_active s"
  "cs_value (set_activity k v s) = cs_value s"
  by (simp_all add: set_activity_def)

lemma put_event_fields [simp]:
  "cs_states (put_event a ev s) = cs_states s" "cs_activity (put_event a ev s) = cs_activity s"
  "cs_defer (put_event a ev s) = cs_defer s" "cs_events (put_event a ev s) = set_obj a (Some ev) (cs_events s)"
  "cs_labels (put_event a ev s) = cs_labels s" "cs_require (put_event a ev s) = cs_require s"
  "cs_pump (put_event a ev s) = cs_pump s" "cs_user (put_event a ev s) = cs_user s"
  "cs_os (put_event a ev s) = cs_os s" "cs_clock (put_event a ev s) = cs_clock s"
  "cs_stacks (put_event a ev s) = cs_stacks s" "cs_active (put_event a ev s) = cs_active s"
  "cs_value (put_event a ev s) = cs_value s"
  by (simp_all add: put_event_def)

lemma set_pump_fields [simp]:
  "cs_states (set_pump p s) = cs_states s" "cs_activity (set_pump p s) = cs_activity s"
  "cs_defer (set_pump p s) = cs_defer s" "cs_events (set_pump p s) = cs_events s"
  "cs_labels (set_pump p s) = cs_labels s" "cs_require (set_pump p s) = cs_require s"
  "cs_pump (set_pump p s) = Some p" "cs_user (set_pump p s) = cs_user s"
  "cs_os (set_pump p s) = cs_os s" "cs_clock (set_pump p s) = cs_clock s"
  "cs_stacks (set_pump p s) = cs_stacks s" "cs_active (set_pump p s) = cs_active s"
  "cs_value (set_pump p s) = cs_value s"
  by (simp_all add: set_pump_def)

lemma setter_fields [simp]:
  "cs_active (set_handling c n s) = cs_active s" "cs_active (set_blocked c n s) = cs_active s"
  "cs_active (set_deferred_flush c d s) = cs_active s" "cs_active (set_deferred_target c t s) = cs_active s"
  "cs_active (set_queue c q s) = cs_active s" "cs_active (set_skip_block c port s) = cs_active s"
  "cs_active (reset_skip_block c s) = cs_active s"
  "cs_events (set_handling c n s) = cs_events s" "cs_events (set_blocked c n s) = cs_events s"
  "cs_events (set_deferred_flush c d s) = cs_events s" "cs_events (set_deferred_target c t s) = cs_events s"
  "cs_events (set_queue c q s) = cs_events s" "cs_events (set_skip_block c port s) = cs_events s"
  "cs_events (reset_skip_block c s) = cs_events s"
  "cs_pump (set_handling c n s) = cs_pump s" "cs_pump (set_blocked c n s) = cs_pump s"
  "cs_pump (set_deferred_flush c d s) = cs_pump s" "cs_pump (set_deferred_target c t s) = cs_pump s"
  "cs_pump (set_queue c q s) = cs_pump s" "cs_pump (set_skip_block c port s) = cs_pump s"
  "cs_pump (reset_skip_block c s) = cs_pump s"
  "cs_user (set_handling c n s) = cs_user s" "cs_user (set_blocked c n s) = cs_user s"
  "cs_user (set_deferred_flush c d s) = cs_user s" "cs_user (set_deferred_target c t s) = cs_user s"
  "cs_user (set_queue c q s) = cs_user s" "cs_user (set_skip_block c port s) = cs_user s"
  "cs_user (reset_skip_block c s) = cs_user s"
  "cs_os (set_handling c n s) = cs_os s" "cs_os (set_blocked c n s) = cs_os s"
  "cs_os (set_deferred_flush c d s) = cs_os s" "cs_os (set_deferred_target c t s) = cs_os s"
  "cs_os (set_queue c q s) = cs_os s" "cs_os (set_skip_block c port s) = cs_os s"
  "cs_os (reset_skip_block c s) = cs_os s"
  "cs_labels (set_handling c n s) = cs_labels s" "cs_labels (set_blocked c n s) = cs_labels s"
  "cs_labels (set_deferred_flush c d s) = cs_labels s" "cs_labels (set_deferred_target c t s) = cs_labels s"
  "cs_labels (set_queue c q s) = cs_labels s" "cs_labels (set_skip_block c port s) = cs_labels s"
  "cs_labels (reset_skip_block c s) = cs_labels s"
  "cs_activity (set_handling c n s) = cs_activity s" "cs_activity (set_blocked c n s) = cs_activity s"
  "cs_activity (set_deferred_flush c d s) = cs_activity s" "cs_activity (set_deferred_target c t s) = cs_activity s"
  "cs_activity (set_queue c q s) = cs_activity s" "cs_activity (set_skip_block c port s) = cs_activity s"
  "cs_activity (reset_skip_block c s) = cs_activity s"
  "cs_defer (set_handling c n s) = cs_defer s" "cs_defer (set_blocked c n s) = cs_defer s"
  "cs_defer (set_deferred_flush c d s) = cs_defer s" "cs_defer (set_deferred_target c t s) = cs_defer s"
  "cs_defer (set_queue c q s) = cs_defer s" "cs_defer (set_skip_block c port s) = cs_defer s"
  "cs_defer (reset_skip_block c s) = cs_defer s"
  "cs_value (set_handling c n s) = cs_value s" "cs_value (set_blocked c n s) = cs_value s"
  "cs_value (set_deferred_flush c d s) = cs_value s" "cs_value (set_deferred_target c t s) = cs_value s"
  "cs_value (set_queue c q s) = cs_value s" "cs_value (set_skip_block c port s) = cs_value s"
  "cs_value (reset_skip_block c s) = cs_value s"
  "cs_clock (set_handling c n s) = cs_clock s" "cs_clock (set_blocked c n s) = cs_clock s"
  "cs_clock (set_deferred_flush c d s) = cs_clock s" "cs_clock (set_deferred_target c t s) = cs_clock s"
  "cs_clock (set_queue c q s) = cs_clock s" "cs_clock (set_skip_block c port s) = cs_clock s"
  "cs_clock (reset_skip_block c s) = cs_clock s"
  "cs_stacks (set_handling c n s) = cs_stacks s" "cs_stacks (set_blocked c n s) = cs_stacks s"
  "cs_stacks (set_deferred_flush c d s) = cs_stacks s" "cs_stacks (set_deferred_target c t s) = cs_stacks s"
  "cs_stacks (set_queue c q s) = cs_stacks s" "cs_stacks (set_skip_block c port s) = cs_stacks s"
  "cs_stacks (reset_skip_block c s) = cs_stacks s"
  "cs_require (set_handling c n s) = cs_require s" "cs_require (set_blocked c n s) = cs_require s"
  "cs_require (set_deferred_flush c d s) = cs_require s" "cs_require (set_deferred_target c t s) = cs_require s"
  "cs_require (set_queue c q s) = cs_require s" "cs_require (set_skip_block c port s) = cs_require s"
  "cs_require (reset_skip_block c s) = cs_require s"
  by (simp_all add: set_handling_def set_blocked_def set_deferred_flush_def set_deferred_target_def set_queue_def
      set_skip_block_def reset_skip_block_def)

lemma deferred_flush_setters [simp]:
  "deferred_flush (set_queue c q s) d = deferred_flush s d" "deferred_flush (set_handling c n s) d = deferred_flush s d"
  "deferred_flush (set_deferred_target c t s) d = deferred_flush s d"
  "deferred_target (set_queue c q s) d = deferred_target s d"
  "deferred_target (set_handling c n s) d = deferred_target s d"
  "handling (set_deferred_target c t s) d = handling s d"
  "handling (set_handling c n s) d = (if d = c then n else handling s d)"
  "rt_queue_of (set_handling c n s) d = rt_queue_of s d"
  "rt_queue_of (set_deferred_target c t s) d = rt_queue_of s d"
  "rt_queue_of (set_deferred_flush c g s) d = rt_queue_of s d"
  "deferred_target (set_deferred_flush c g s) d = deferred_target s d"
  "deferred_flush (set_deferred_flush c g s) d = (if d = c then g else deferred_flush s d)"
  "deferred_target (set_deferred_target c t s) d = (if d = c then t else deferred_target s d)"
  "handling (set_queue c q s) d = handling s d" "handling (set_deferred_flush c g s) d = handling s d"
  "rt_queue_of (write_os l s) d = rt_queue_of s d" "handling (write_os l s) d = handling s d"
  "rt_queue_of (set_queue c q s) d = (if d = c then q else rt_queue_of s d)"
  by (simp_all add: set_handling_def set_deferred_flush_def set_deferred_target_def set_queue_def deferred_flush_def
      deferred_target_def handling_def rt_queue_of_def)

lemma write_os_Nil [simp]: "write_os [] s = s"
  by (simp add: write_os_def)

text \<open>The accessors only see the field they are about.\<close>

lemmas accessor_defs =
  handling_def blocked_def deferred_flush_def deferred_target_def rt_queue_of_def performs_flush_def native_def
  skip_block_def set_handling_def set_blocked_def set_deferred_flush_def set_deferred_target_def set_queue_def
  set_skip_block_def reset_skip_block_def

section \<open>Executions\<close>

inductive cpp_runs :: "('f, 'p, 'u) cpp_env \<Rightarrow> ('f, 'p, 'u) cpp_sys \<Rightarrow> ('f, 'p, 'u) cpp_sys \<Rightarrow> bool" for env where
  cpp_runs_refl: "cpp_runs env s s"
| cpp_runs_step: "cpp_step env s = Inr (Some s') \<Longrightarrow> cpp_runs env s' s'' \<Longrightarrow> cpp_runs env s s''"

lemma cpp_runs_trans [trans]: "cpp_runs env s s' \<Longrightarrow> cpp_runs env s' s'' \<Longrightarrow> cpp_runs env s s''"
  by (induction rule: cpp_runs.induct) (auto intro: cpp_runs_step)

lemma cpp_runs_reaches: "cpp_runs env s s' \<Longrightarrow> cpp_reaches env start s \<Longrightarrow> cpp_reaches env start s'"
  by (induction rule: cpp_runs.induct) (auto intro: cpp_reaches_step)

text \<open>The state with a stack for the context that runs.\<close>

definition on_stack :: "('f, 'p, 'u) cpp_frame list \<Rightarrow> ('f, 'p, 'u) cpp_sys \<Rightarrow> ('f, 'p, 'u) cpp_sys" where
  "on_stack st s = s\<lparr>cs_stacks := (cs_stacks s)(cs_active s := Some st)\<rparr>"

lemma on_stack_fields [simp]:
  "cs_states (on_stack st s) = cs_states s" "cs_activity (on_stack st s) = cs_activity s"
  "cs_defer (on_stack st s) = cs_defer s" "cs_events (on_stack st s) = cs_events s"
  "cs_labels (on_stack st s) = cs_labels s" "cs_require (on_stack st s) = cs_require s"
  "cs_pump (on_stack st s) = cs_pump s" "cs_user (on_stack st s) = cs_user s" "cs_os (on_stack st s) = cs_os s"
  "cs_clock (on_stack st s) = cs_clock s" "cs_active (on_stack st s) = cs_active s"
  "cs_value (on_stack st s) = cs_value s"
  by (simp_all add: on_stack_def)

lemma on_stack_updates [simp]:
  "set_state c f (on_stack st s) = on_stack st (set_state c f s)"
  "set_activity cid v (on_stack st s) = on_stack st (set_activity cid v s)"
  "write_os line (on_stack st s) = on_stack st (write_os line s)"
  "put_event a ev (on_stack st s) = on_stack st (put_event a ev s)"
  "set_pump p (on_stack st s) = on_stack st (set_pump p s)"
  "cs_value_update w (on_stack st s) = on_stack st (cs_value_update w s)"
  "cs_user_update u (on_stack st s) = on_stack st (cs_user_update u s)"
  "cs_labels_update l (on_stack st s) = on_stack st (cs_labels_update l s)"
  "cs_defer_update d (on_stack st s) = on_stack st (cs_defer_update d s)"
  by (simp_all add: on_stack_def set_state_def set_activity_def write_os_def put_event_def set_pump_def)

lemma on_stack_accessors [simp]:
  "handling (on_stack st s) c = handling s c" "blocked (on_stack st s) c = blocked s c"
  "deferred_flush (on_stack st s) c = deferred_flush s c" "deferred_target (on_stack st s) c = deferred_target s c"
  "rt_queue_of (on_stack st s) c = rt_queue_of s c" "performs_flush (on_stack st s) c = performs_flush s c"
  "native (on_stack st s) c = native s c" "skip_block (on_stack st s) c port = skip_block s c port"
  "cpp_coroutine_id (on_stack st s) = cpp_coroutine_id s" "port_blocked_p (on_stack st s) port = port_blocked_p s port"
  "blocked_p (on_stack st s) c = blocked_p s c" "get_cpp_pump (on_stack st s) = get_cpp_pump s"
  by (simp_all add: handling_def blocked_def deferred_flush_def deferred_target_def rt_queue_of_def
      performs_flush_def native_def skip_block_def cpp_coroutine_id_def port_blocked_p_def blocked_p_def get_cpp_pump_def split: option.split)

lemma on_stack_setters [simp]:
  "set_handling c n (on_stack st s) = on_stack st (set_handling c n s)"
  "set_blocked c n (on_stack st s) = on_stack st (set_blocked c n s)"
  "set_deferred_flush c d (on_stack st s) = on_stack st (set_deferred_flush c d s)"
  "set_deferred_target c t (on_stack st s) = on_stack st (set_deferred_target c t s)"
  "set_queue c q (on_stack st s) = on_stack st (set_queue c q s)"
  "set_skip_block c port (on_stack st s) = on_stack st (set_skip_block c port s)"
  "reset_skip_block c (on_stack st s) = on_stack st (reset_skip_block c s)"
  by (simp_all add: accessor_defs)

text \<open>A list of frames completes when it runs off the stack and leaves what is below untouched.\<close>

definition completes ::
    "('f, 'p, 'u) cpp_env \<Rightarrow> ('f, 'p, 'u) cpp_frame list \<Rightarrow> ('f, 'p, 'u) cpp_sys \<Rightarrow> ('f, 'p, 'u) cpp_sys \<Rightarrow> bool" where
  "completes env frames s s' \<longleftrightarrow> (\<forall>st. cpp_runs env (on_stack (frames @ st) s) (on_stack st s'))"

lemma completes_Nil [simp]: "completes env [] s s"
  by (simp add: completes_def cpp_runs_refl)

lemma completes_append:
  assumes "completes env xs s s1" and "completes env ys s1 s2"
  shows "completes env (xs @ ys) s s2"
  unfolding completes_def
proof
  fix st
  have "cpp_runs env (on_stack (xs @ ys @ st) s) (on_stack (ys @ st) s1)" using assms(1) by (simp add: completes_def)
  also have "cpp_runs env (on_stack (ys @ st) s1) (on_stack st s2)" using assms(2) by (simp add: completes_def)
  finally show "cpp_runs env (on_stack ((xs @ ys) @ st) s) (on_stack st s2)" by simp
qed

text \<open>One frame makes one step.  A frame that does not change the context is a function of the rest of the state.\<close>

definition steps_to ::
    "('f, 'p, 'u) cpp_env \<Rightarrow> ('f, 'p, 'u) cpp_frame \<Rightarrow> ('f, 'p, 'u) cpp_sys \<Rightarrow> ('f, 'p, 'u) cpp_sys \<Rightarrow>
       ('f, 'p, 'u) cpp_frame list \<Rightarrow> bool" where
  "steps_to env frame s s' frames \<longleftrightarrow>
     cs_active s' = cs_active s \<and>
     (\<forall>st. cpp_frame_step env frame (on_stack st s) = Inr (on_stack st s', frames))"

lemma completes_step:
  assumes "steps_to env frame s s' frames" and "completes env (frames @ rest) s' s''"
  shows "completes env (frame # rest) s s''"
  unfolding completes_def
proof
  fix st
  have "cpp_step env (on_stack (frame # rest @ st) s) = Inr (Some (on_stack (frames @ rest @ st) s'))"
    using assms(1) by (auto simp: steps_to_def cpp_step_def on_stack_def fun_upd_same)
  moreover have "cpp_runs env (on_stack (frames @ rest @ st) s') (on_stack st s'')"
    using assms(2) by (simp add: completes_def)
  ultimately show "cpp_runs env (on_stack ((frame # rest) @ st) s) (on_stack st s'')"
    by (auto intro: cpp_runs_step)
qed

lemma completes_last:
  assumes "steps_to env frame s s' []"
  shows "completes env [frame] s s'"
  using completes_step [OF assms, of "[]" s'] by simp

text \<open>A frame that calls \<open>xs\<close> first and goes on with \<open>ys\<close>.\<close>

lemma completes_calls:
  assumes "steps_to env frame s s1 (xs @ ys)" and "completes env xs s1 s2" and "completes env (ys @ rest) s2 s3"
  shows "completes env (frame # rest) s s3"
  using completes_step [OF assms(1), of rest s3] completes_append [OF assms(2,3)] by simp

lemma completes_calls_last:
  "steps_to env frame s s1 (xs @ ys) \<Longrightarrow> completes env xs s1 s2 \<Longrightarrow> completes env ys s2 s3 \<Longrightarrow>
     completes env [frame] s s3"
  using completes_calls [of env frame s s1 xs ys s2 "[]" s3] by simp

section \<open>Programs that only work on the user's state\<close>

definition prog_acts ::
    "('f, 'p, 'u) cpp_env \<Rightarrow> ('f, 'p, 'u) cpp_prog \<Rightarrow> ('u \<Rightarrow> 'u) \<Rightarrow> reply \<Rightarrow> bool" where
  "prog_acts env p eff r \<longleftrightarrow> (\<forall>s. completes env [Run p] s (s\<lparr>cs_user := eff (cs_user s), cs_value := r\<rparr>))"

lemma prog_acts_Return: "prog_acts env (Return r) (\<lambda>u. u) r"
  by (auto simp: prog_acts_def steps_to_def intro!: completes_last)

lemma prog_acts_Local:
  assumes "\<And>u. prog_acts env (k (f u)) (eff u) r"
  shows "prog_acts env (Local f k) (\<lambda>u. eff u (f u)) r"
  unfolding prog_acts_def
proof
  fix s
  have "steps_to env (Run (Local f k)) s (s\<lparr>cs_user := f (cs_user s)\<rparr>) [Run (k (f (cs_user s)))]"
    by (simp add: steps_to_def)
  moreover have "completes env [Run (k (f (cs_user s)))] (s\<lparr>cs_user := f (cs_user s)\<rparr>)
      (s\<lparr>cs_user := eff (cs_user s) (f (cs_user s)), cs_value := r\<rparr>)"
    using assms [of "cs_user s"]
    by (auto simp: prog_acts_def dest!: spec [of _ "s\<lparr>cs_user := f (cs_user s)\<rparr>"])
  ultimately show "completes env [Run (Local f k)] s (s\<lparr>cs_user := eff (cs_user s) (f (cs_user s)), cs_value := r\<rparr>)"
    by (auto intro: completes_step)
qed

lemma prog_actsD:
  "prog_acts env p eff r \<Longrightarrow> completes env [Run p] s (s\<lparr>cs_user := eff (cs_user s), cs_value := r\<rparr>)"
  by (simp add: prog_acts_def)

section \<open>Delivering events\<close>

text \<open>What an event in a queue needs to be delivered, and the line that is written.\<close>

fun deliverable ::
    "('f, 'p, 'u) cpp_env \<Rightarrow> ('f \<Rightarrow> 'u \<Rightarrow> 'u) \<Rightarrow> 'f cpp_event store \<Rightarrow> addr \<Rightarrow> 'f event_closure \<Rightarrow> bool" where
  "deliverable env eff events c (Event_closure this require f) \<longleftrightarrow>
     require = c \<and> prog_acts env (ce_body env f) (eff f) Void \<and>
     (\<exists>ev meta. load events this = Inr ev \<and> check_event ev = Inr meta)"

fun delivery_line :: "'f cpp_event store \<Rightarrow> 'f event_closure \<Rightarrow> string" where
  "delivery_line events (Event_closure this require f) =
     (if require = NULL then []
      else case load events this of Inl e \<Rightarrow> []
        | Inr ev \<Rightarrow> (case check_event ev of Inl e \<Rightarrow> [] | Inr meta \<Rightarrow> trace_qout meta (ev_name ev)))"

fun closure_function :: "'f event_closure \<Rightarrow> 'f" where
  "closure_function (Event_closure this require f) = f"

definition delivered ::
    "('f \<Rightarrow> 'u \<Rightarrow> 'u) \<Rightarrow> addr \<Rightarrow> 'f event_closure \<Rightarrow> 'f event_closure list \<Rightarrow> ('f, 'p, 'u) cpp_sys \<Rightarrow> ('f, 'p, 'u) cpp_sys" where
  "delivered eff c e es s =
     (write_os (delivery_line (cs_events s) e) (set_deferred_flush c None (set_queue c es s)))
       \<lparr>cs_user := eff (closure_function e) (cs_user s), cs_value := Void\<rparr>"

fun deliver ::
    "('f \<Rightarrow> 'u \<Rightarrow> 'u) \<Rightarrow> addr \<Rightarrow> 'f event_closure list \<Rightarrow> ('f, 'p, 'u) cpp_sys \<Rightarrow> ('f, 'p, 'u) cpp_sys" where
  "deliver eff c [] s = s"
| "deliver eff c (e # es) s = deliver eff c es (delivered eff c e es s)"

lemma flush_event_completes:
  assumes "deliverable env eff (cs_events s) c e"
  shows "completes env [Flush_event c e] (set_queue c es s) (delivered eff c e es s)"
proof (cases e)
  case (Event_closure this require f)
  with assms obtain ev meta where f: "prog_acts env (ce_body env f) (eff f) Void" and "require = c"
    and ev: "load (cs_events s) this = Inr ev" "check_event ev = Inr meta" by auto
  note meta = check_event_meta [OF ev(2)]
  let ?s = "write_os (delivery_line (cs_events s) e) (set_deferred_flush c None (set_queue c es s))"
  have "steps_to env (Flush_event c e) (set_queue c es s) ?s [Run (ce_body env f)]"
    using Event_closure \<open>require = c\<close> ev meta
    by (auto simp: steps_to_def flush_event_def accessor_defs simp del: load_Inr_iff)
  moreover have "completes env [Run (ce_body env f)] ?s (delivered eff c e es s)"
    using prog_actsD [OF f, of ?s] Event_closure by (simp add: delivered_def accessor_defs)
  ultimately show ?thesis using completes_step [where rest = "[]"] by fastforce
qed

lemma delivered_fields [simp]:
  "cs_events (delivered eff c e es s) = cs_events s" "cs_pump (delivered eff c e es s) = cs_pump s"
  "rt_queue_of (delivered eff c e es s) d = (if d = c then es else rt_queue_of s d)"
  "deferred_flush (delivered eff c e es s) d = (if d = c then None else deferred_flush s d)"
  "deferred_target (delivered eff c e es s) d = deferred_target s d"
  "handling (delivered eff c e es s) d = handling s d"
  "cs_activity (delivered eff c e es s) = cs_activity s" "cs_defer (delivered eff c e es s) = cs_defer s"
  "cs_labels (delivered eff c e es s) = cs_labels s" "cs_active (delivered eff c e es s) = cs_active s"
  "cs_user (delivered eff c e es s) = eff (closure_function e) (cs_user s)"
  "cs_os (delivered eff c e es s) = cs_os s @ delivery_line (cs_events s) e"
  "native (delivered eff c e es s) d = native s d"
  by (simp_all add: delivered_def accessor_defs)

lemma deliver_fields [simp]:
  "cs_events (deliver eff c es s) = cs_events s" "cs_pump (deliver eff c es s) = cs_pump s"
  "deferred_target (deliver eff c es s) d = deferred_target s d" "handling (deliver eff c es s) d = handling s d"
  "cs_activity (deliver eff c es s) = cs_activity s" "cs_defer (deliver eff c es s) = cs_defer s"
  "cs_labels (deliver eff c es s) = cs_labels s" "cs_active (deliver eff c es s) = cs_active s"
  "cs_user (deliver eff c es s) = fold (\<lambda>e. eff (closure_function e)) es (cs_user s)"
  "cs_os (deliver eff c es s) = cs_os s @ concat (map (delivery_line (cs_events s)) es)"
  "d \<noteq> c \<Longrightarrow> rt_queue_of (deliver eff c es s) d = rt_queue_of s d"
  "d \<noteq> c \<Longrightarrow> deferred_flush (deliver eff c es s) d = deferred_flush s d"
  "native (deliver eff c es s) d = native s d"
  by (induction es arbitrary: s) simp_all

lemma rt_queue_of_deliver: "rt_queue_of s c = es \<Longrightarrow> rt_queue_of (deliver eff c es s) c = []"
  by (induction es arbitrary: s) simp_all

lemma deferred_flush_deliver: "deferred_flush s c = None \<Longrightarrow> deferred_flush (deliver eff c es s) c = None"
  by (induction es arbitrary: s) simp_all

text \<open>The loop of a flush that makes no labels: it delivers the queue and goes on with its end.\<close>

lemma flush_loop_delivers:
  assumes "rt_queue_of s c = es" and "\<forall>e \<in> set es. deliverable env eff (cs_events s) c e"
    and "flushed \<or> sync_p \<or> deferred_flush s c = None"
    and "completes env [Flush_loop c cid sync_p flushed] (deliver eff c es s) s'"
  shows "completes env [Flush_loop c cid sync_p flushed] s s'"
  using assms
proof (induction es arbitrary: s)
  case (Cons e es)
  have "steps_to env (Flush_loop c cid sync_p flushed) s (set_queue c es s)
      ([Flush_event c e] @ [Flush_loop c cid sync_p flushed])"
    using Cons.prems(1,3) by (auto simp: steps_to_def flush_loop_def Let_def)
  moreover have "completes env [Flush_event c e] (set_queue c es s) (delivered eff c e es s)"
    using Cons.prems(2) by (simp add: flush_event_completes)
  moreover have "completes env [Flush_loop c cid sync_p flushed] (delivered eff c e es s) s'"
    using Cons.prems by (simp add: Cons.IH)
  ultimately show ?case by (rule completes_calls_last)
qed simp

section \<open>Labels\<close>

text \<open>\<open>dzn_update_state\<close> of every port only works on the user's state.\<close>

definition quiet ::
    "('f, 'p, 'u) cpp_env \<Rightarrow> (addr \<Rightarrow> string \<Rightarrow> 'u \<Rightarrow> 'u) \<Rightarrow> bool" where
  "quiet env upd \<longleftrightarrow> (\<forall>i label. prog_acts env (ce_update env i label) (upd i label) Void)"

definition labelled ::
    "(addr \<Rightarrow> string \<Rightarrow> 'u \<Rightarrow> 'u) \<Rightarrow> addr \<Rightarrow> string \<Rightarrow> ('f, 'p, 'u) cpp_sys \<Rightarrow> ('f, 'p, 'u) cpp_sys" where
  "labelled upd i label s =
     (if i = NULL then s
      else s\<lparr>cs_labels := (cs_labels s)(i := label), cs_user := upd i label (cs_user s), cs_value := Void\<rparr>)"

lemma labelled_fields [simp]:
  "cs_states (labelled upd i l s) = cs_states s" "cs_activity (labelled upd i l s) = cs_activity s"
  "cs_defer (labelled upd i l s) = cs_defer s" "cs_events (labelled upd i l s) = cs_events s"
  "cs_pump (labelled upd i l s) = cs_pump s" "cs_os (labelled upd i l s) = cs_os s"
  "cs_active (labelled upd i l s) = cs_active s"
  "cs_labels (labelled upd i l s) = (if i = NULL then cs_labels s else (cs_labels s)(i := l))"
  "cs_user (labelled upd i l s) = (if i = NULL then cs_user s else upd i l (cs_user s))"
  by (simp_all add: labelled_def)

lemma label_completes:
  assumes "quiet env upd"
  shows "completes env [Label i l] s (labelled upd i l s)"
proof (cases "i = NULL")
  case True
  then show ?thesis by (intro completes_last) (simp add: steps_to_def port_update_def labelled_def)
next
  case False
  then have "steps_to env (Label i l) s (s\<lparr>cs_labels := (cs_labels s)(i := l)\<rparr>) [Run (ce_update env i l)]"
    by (simp add: steps_to_def port_update_def)
  moreover have "completes env [Run (ce_update env i l)] (s\<lparr>cs_labels := (cs_labels s)(i := l)\<rparr>) (labelled upd i l s)"
    using assms False
      prog_actsD [of env "ce_update env i l" "upd i l" Void "s\<lparr>cs_labels := (cs_labels s)(i := l)\<rparr>"]
    by (simp add: quiet_def labelled_def)
  ultimately show ?thesis by (auto intro: completes_step)
qed

definition flush_labelled ::
    "(addr \<Rightarrow> string \<Rightarrow> 'u \<Rightarrow> 'u) \<Rightarrow> 'f cpp_event \<Rightarrow> ('f, 'p, 'u) cpp_sys \<Rightarrow> ('f, 'p, 'u) cpp_sys" where
  "flush_labelled upd ev s =
     (case ev_other ev of
        None \<Rightarrow> labelled upd (ev_port ev) ''<flush>'' s
      | Some other \<Rightarrow> labelled upd other ''<flush>'' (labelled upd (ev_port ev) ''<flush>'' s))"

lemma flush_labels_complete:
  assumes "quiet env upd"
  shows "completes env (flush_labels ev) s (flush_labelled upd ev s)"
proof (cases "ev_other ev")
  case None
  then show ?thesis using label_completes [OF assms] by (simp add: flush_labels_def flush_labelled_def)
next
  case (Some other)
  then show ?thesis
    using completes_append [OF label_completes [OF assms, of "ev_port ev"] label_completes [OF assms, of other]]
    by (simp add: flush_labels_def flush_labelled_def)
qed

lemma flush_labelled_fields [simp]:
  "cs_states (flush_labelled upd ev s) = cs_states s" "cs_activity (flush_labelled upd ev s) = cs_activity s"
  "cs_events (flush_labelled upd ev s) = cs_events s" "cs_pump (flush_labelled upd ev s) = cs_pump s"
  "cs_os (flush_labelled upd ev s) = cs_os s" "cs_active (flush_labelled upd ev s) = cs_active s"
  "cs_defer (flush_labelled upd ev s) = cs_defer s"
  by (simp_all add: flush_labelled_def split: option.split)

text \<open>The user's state and the labels after the label of a flush.\<close>

definition label_user :: "(addr \<Rightarrow> string \<Rightarrow> 'u \<Rightarrow> 'u) \<Rightarrow> addr \<Rightarrow> string \<Rightarrow> 'u \<Rightarrow> 'u" where
  "label_user upd i l u = (if i = NULL then u else upd i l u)"

definition flush_user :: "(addr \<Rightarrow> string \<Rightarrow> 'u \<Rightarrow> 'u) \<Rightarrow> 'f cpp_event \<Rightarrow> 'u \<Rightarrow> 'u" where
  "flush_user upd ev u =
     (case ev_other ev of None \<Rightarrow> label_user upd (ev_port ev) ''<flush>'' u
      | Some other \<Rightarrow> label_user upd other ''<flush>'' (label_user upd (ev_port ev) ''<flush>'' u))"

definition set_label :: "addr \<Rightarrow> string \<Rightarrow> (addr \<Rightarrow> string) \<Rightarrow> addr \<Rightarrow> string" where
  "set_label i l labels = (if i = NULL then labels else labels(i := l))"

definition flush_ports :: "'f cpp_event \<Rightarrow> (addr \<Rightarrow> string) \<Rightarrow> addr \<Rightarrow> string" where
  "flush_ports ev labels =
     (case ev_other ev of None \<Rightarrow> set_label (ev_port ev) ''<flush>'' labels
      | Some other \<Rightarrow> set_label other ''<flush>'' (set_label (ev_port ev) ''<flush>'' labels))"

lemma flush_labelled_user [simp]:
  "cs_user (flush_labelled upd ev s) = flush_user upd ev (cs_user s)"
  "cs_labels (flush_labelled upd ev s) = flush_ports ev (cs_labels s)"
  by (simp_all add: flush_labelled_def flush_user_def flush_ports_def label_user_def set_label_def split: option.split)

lemma accessors_same_states:
  assumes "cs_states s' = cs_states s"
  shows "rt_queue_of s' c = rt_queue_of s c" "handling s' c = handling s c" "deferred_flush s' c = deferred_flush s c"
    "deferred_target s' c = deferred_target s c" "native s' c = native s c"
  using assms by (simp_all add: accessor_defs)

lemmas labelled_accessors [simp] =
  accessors_same_states [OF labelled_fields(1)] accessors_same_states [OF flush_labelled_fields(1)]

section \<open>The flush\<close>

lemma flush_sync_completes:
  assumes "rt_queue_of s c = es" and "\<forall>e \<in> set es. deliverable env eff (cs_events s) c e"
  shows "completes env [Flush c cid True] s (set_handling c 0 (deliver eff c es (set_handling c cid s)))"
proof -
  let ?s = "set_handling c cid s"
  have "steps_to env (Flush_loop c cid True False) (deliver eff c es ?s) (set_handling c 0 (deliver eff c es ?s)) []"
    using rt_queue_of_deliver [of ?s c es eff] assms(1)
    by (simp add: steps_to_def flush_loop_def Let_def)
  then have "completes env [Flush_loop c cid True False] ?s (set_handling c 0 (deliver eff c es ?s))"
    using assms flush_loop_delivers [of ?s c es env eff False True cid "set_handling c 0 (deliver eff c es ?s)"]
    by (simp add: completes_last)
  moreover have "steps_to env (Flush c cid True) s ?s [Flush_loop c cid True False]"
    by (simp add: steps_to_def cpp_flush_def)
  ultimately show ?thesis by (auto intro: completes_step)
qed

lemma flush_delivers:
  assumes "rt_queue_of s c = e # es" and "\<forall>x \<in> set (e # es). deliverable env eff (cs_events s) c x"
    and "quiet env upd" and "cs_pump s = None" and "\<not> cs_defer s"
    and "deferred_flush s c = Some (Flush_closure this provide)" and "load (cs_events s) this = Inr ev"
    and "deferred_target s c = NULL" and "c = NULL \<or> deferred_flush s NULL = None"
  shows "completes env [Flush c cid False] s
    (set_handling c 0 (deliver eff c (e # es) (flush_labelled upd ev (set_handling c cid s))))"
proof -
  let ?q = "set_queue c es (set_handling c cid s)"
  let ?d = "delivered eff c e es (flush_labelled upd ev (set_handling c cid s))"
  let ?l = "set_queue c es (flush_labelled upd ev (set_handling c cid s))"
  let ?e = "deliver eff c es ?d"
  have swap: "flush_labelled upd ev ?q = ?l"
    by (simp add: flush_labelled_def labelled_def set_queue_def set_state_def split: option.split)
  have enter: "steps_to env (Flush c cid False) s (set_handling c cid s) [Flush_loop c cid False False]"
    by (simp add: steps_to_def cpp_flush_def)
  have loop: "steps_to env (Flush_loop c cid False False) (set_handling c cid s) ?q
      ([Deferred_flush (Flush_closure this provide), Flush_event c e] @ [Flush_loop c cid False True])"
    using assms(1,6) by (simp add: steps_to_def flush_loop_def Let_def)
  have label: "completes env [Deferred_flush (Flush_closure this provide)] ?q ?l"
  proof -
    have "steps_to env (Deferred_flush (Flush_closure this provide)) ?q ?q (flush_labels ev)"
      using assms(4,5,7) by (simp add: steps_to_def port_blocked_p_def del: load_Inr_iff)
    then show ?thesis
      using completes_step [of env _ ?q ?q "flush_labels ev" "[]"] flush_labels_complete [OF assms(3), of ev ?q] swap
      by simp
  qed
  have event: "completes env [Flush_event c e] ?l ?d"
    using assms(2) by (intro flush_event_completes) simp
  have others: "completes env [Flush_loop c cid False True] ?d (set_handling c 0 ?e)"
  proof (rule flush_loop_delivers [where es = es and eff = eff])
    have "deferred_flush ?e NULL = None"
    proof (cases "c = NULL")
      case True
      have "deferred_flush ?e c = None" by (rule deferred_flush_deliver) simp
      with True show ?thesis by simp
    qed (use assms(9) in simp)
    then have "steps_to env (Flush_loop c cid False True) ?e (set_handling c 0 ?e) []"
      using assms(8) rt_queue_of_deliver [of ?d c es eff] by (simp add: steps_to_def flush_loop_def Let_def)
    then show "completes env [Flush_loop c cid False True] ?e (set_handling c 0 ?e)" by (rule completes_last)
  qed (use assms(2) in simp_all)
  have "completes env ([Deferred_flush (Flush_closure this provide)] @ [Flush_event c e]) ?q ?d"
    by (rule completes_append [OF label event])
  then have "completes env [Flush_loop c cid False False] (set_handling c cid s) (set_handling c 0 ?e)"
    using completes_calls_last [OF loop _ others] by simp
  then show ?thesis using completes_step [OF enter, of "[]"] by simp
qed

text \<open>C7: a flush that is not synchronous, of a component with queued events and with a label pending, makes the
  label once, on the port and on its other end, before the first event; then it delivers every event in the order
  it was queued, writes one line for each, and leaves the queue empty and the component idle.\<close>

theorem cpp_flush_delivers:
  assumes "rt_queue_of s c = e # es" and "\<forall>x \<in> set (e # es). deliverable env eff (cs_events s) c x"
    and "quiet env upd" and "cs_pump s = None" and "\<not> cs_defer s"
    and "deferred_flush s c = Some (Flush_closure this provide)" and "load (cs_events s) this = Inr ev"
    and "deferred_target s c = NULL" and "c = NULL \<or> deferred_flush s NULL = None"
  shows "\<exists>s'. completes env [Flush c cid False] s s' \<and> rt_queue_of s' c = [] \<and> handling s' c = 0 \<and>
    cs_user s' = fold (\<lambda>x. eff (closure_function x)) (e # es) (flush_user upd ev (cs_user s)) \<and>
    cs_labels s' = flush_ports ev (cs_labels s) \<and>
    cs_os s' = cs_os s @ concat (map (delivery_line (cs_events s)) (e # es))"
proof -
  let ?e = "deliver eff c (e # es) (flush_labelled upd ev (set_handling c cid s))"
  have "completes env [Flush c cid False] s (set_handling c 0 ?e)" using assms by (rule flush_delivers)
  moreover have "rt_queue_of ?e c = []" by (intro rt_queue_of_deliver) (simp add: assms(1))
  ultimately show ?thesis
    by (intro exI [of _ "set_handling c 0 ?e"]) simp
qed

section \<open>A call of an in event\<close>

lemma check_event_simps [simp]:
  "check_event (ev\<lparr>ev_reply := r\<rparr>) = check_event ev"
  by (simp add: check_event_def)

lemma check_event_port: "check_event ev = Inr meta \<Longrightarrow> ev_port ev \<noteq> NULL"
  by (auto simp: check_event_def c_assert_def split: if_splits)

text \<open>Keeping a value in an event changes neither what can be delivered nor the lines.\<close>

lemma delivery_line_reply:
  assumes "load events a = Inr ev"
  shows "delivery_line (set_obj a (Some (ev\<lparr>ev_reply := r\<rparr>)) events) e = delivery_line events e"
  using assms by (cases e) (auto simp: load_def split: option.split sum.split)

lemma deliverable_reply:
  assumes "load events a = Inr ev"
  shows "deliverable env eff (set_obj a (Some (ev\<lparr>ev_reply := r\<rparr>)) events) c e = deliverable env eff events c e"
  using assms by (cases e) auto

definition reply_text :: "'f cpp_event \<Rightarrow> reply \<Rightarrow> string" where
  "reply_text ev r = (if ev_kind ev = In_typed then reply_string r else ''return'')"

definition in_handled ::
    "'f cpp_event \<Rightarrow> nat \<Rightarrow> ('f, 'p, 'u) cpp_sys \<Rightarrow> ('f, 'p, 'u) cpp_sys" where
  "in_handled ev cid s = snd (scoped_activity cid 1 (set_handling (ev_component ev) cid s))"

lemma in_handled_fields [simp]:
  "cs_active (in_handled ev cid s) = cs_active s" "cs_events (in_handled ev cid s) = cs_events s"
  "cs_pump (in_handled ev cid s) = cs_pump s" "cs_user (in_handled ev cid s) = cs_user s"
  "cs_os (in_handled ev cid s) = cs_os s" "cs_labels (in_handled ev cid s) = cs_labels s"
  "cs_activity (in_handled ev cid s) = (if cs_activity s cid = 0 then (cs_activity s)(cid := 1) else cs_activity s)"
  "rt_queue_of (in_handled ev cid s) c = rt_queue_of s c"
  by (simp_all add: in_handled_def scoped_activity_def rt_queue_of_def set_handling_def)

definition in_kept :: "addr \<Rightarrow> 'f cpp_event \<Rightarrow> reply \<Rightarrow> ('f, 'p, 'u) cpp_sys \<Rightarrow> ('f, 'p, 'u) cpp_sys" where
  "in_kept a ev r s = (if ev_kind ev = In_typed then put_event a (ev\<lparr>ev_reply := r\<rparr>) s else s)"

text \<open>The second half of a call, from the return of the handler.\<close>

lemma in_flush_completes:
  assumes ev: "load (cs_events s) a = Inr ev" "check_event ev = Inr meta" "ev_out_binding ev = None"
    and quiet: "quiet env upd" and pump: "cs_pump s = None" and kind: "ev_kind ev \<noteq> Out_void"
    and queue: "rt_queue_of s (provide_component meta) = es"
      "\<forall>e \<in> set es. deliverable env eff (cs_events s) (provide_component meta) e"
  shows "\<exists>s'. completes env [In_flush a cid i] s s' \<and>
    cs_os s' = cs_os s @ concat (map (delivery_line (cs_events s)) es) @ trace_out meta (reply_text ev (cs_value s)) \<and>
    cs_user s' = upd (ev_port ev) (reply_text ev (cs_value s)) (fold (\<lambda>e. eff (closure_function e)) es (cs_user s)) \<and>
    cs_labels s' = (cs_labels s)(ev_port ev := reply_text ev (cs_value s)) \<and>
    handling s' (ev_component ev) = 0 \<and> handling s' (provide_component meta) = 0 \<and>
    rt_queue_of s' (provide_component meta) = [] \<and>
    cs_activity s' = (if i = 0 then (cs_activity s)(cid := 0) else cs_activity s) \<and>
    cs_value s' = (if ev_kind ev = In_typed then cs_value s else Void)"
proof -
  let ?P = "provide_component meta" and ?t = "reply_text ev (cs_value s)"
  let ?k = "in_kept a ev (cs_value s) s"
  let ?f = "set_handling ?P 0 (deliver eff ?P es (set_handling ?P 1 ?k))"
  let ?w = "write_os (trace_out meta ?t) ?f"
  let ?l = "labelled upd (ev_port ev) ?t ?w"
  let ?r = "(set_handling (ev_component ev) 0 (scoped_activity_end cid i ?l))\<lparr>cs_value :=
    (if ev_kind ev = In_typed then cs_value s else Void)\<rparr>"
  have a: "a \<noteq> NULL" "objs (cs_events s) a = Some ev" using ev(1) by simp_all
  have kept [simp]: "cs_active ?k = cs_active s" "cs_pump ?k = None" "cs_user ?k = cs_user s" "cs_os ?k = cs_os s"
    "cs_labels ?k = cs_labels s" "cs_activity ?k = cs_activity s" "cs_states ?k = cs_states s"
    using pump by (simp_all add: in_kept_def)
  have event: "load (cs_events ?k) a = Inr (if ev_kind ev = In_typed then ev\<lparr>ev_reply := cs_value s\<rparr> else ev)"
    using a by (simp add: in_kept_def)
  have lines: "delivery_line (cs_events ?k) = delivery_line (cs_events s)"
    by (rule ext) (simp add: in_kept_def delivery_line_reply [OF ev(1)])
  have same: "deliverable env eff (cs_events ?k) c e = deliverable env eff (cs_events s) c e" for c e
    by (simp add: in_kept_def deliverable_reply [OF ev(1)])
  have queue_k: "rt_queue_of ?k ?P = es" using queue(1) by (simp add: accessors_same_states(1) [of ?k s])
  have "steps_to env (In_flush a cid i) s ?k ([Flush ?P 1 True] @ [In_trace a cid i])"
    using ev a pump by (simp add: steps_to_def in_flush_def cpp_coroutine_id_def in_kept_def Let_def)
  moreover have "completes env [Flush ?P 1 True] ?k ?f"
    using flush_sync_completes [OF queue_k, of env eff 1] queue(2) by (simp add: same)
  moreover have "completes env [In_trace a cid i] ?f ?r"
  proof (rule completes_calls_last)
    show "steps_to env (In_trace a cid i) ?f ?w ([Label (ev_port ev) ?t] @ [In_finish a cid i])"
      using ev event by (simp add: steps_to_def in_trace_def reply_text_def Let_def del: load_Inr_iff)
    show "completes env [Label (ev_port ev) ?t] ?w ?l" by (rule label_completes [OF quiet])
    have "steps_to env (In_finish a cid i) ?l ?l [In_leave a cid i]"
      using ev event by (simp add: steps_to_def in_finish_def prune_deferred_def del: load_Inr_iff)
    moreover have "steps_to env (In_leave a cid i) ?l ?r []"
      using ev event by (simp add: steps_to_def in_leave_def scoped_activity_end_def del: load_Inr_iff)
    ultimately show "completes env [In_finish a cid i] ?l ?r"
      using completes_step [of env "In_finish a cid i" ?l ?l "[In_leave a cid i]" "[]"] by (simp add: completes_last)
  qed
  ultimately have "completes env [In_flush a cid i] s ?r" by (rule completes_calls_last)
  moreover have "rt_queue_of (deliver eff ?P es (set_handling ?P 1 ?k)) ?P = []"
    by (intro rt_queue_of_deliver) (simp add: queue_k)
  moreover have "rt_queue_of ?r c = rt_queue_of (deliver eff ?P es (set_handling ?P 1 ?k)) c" for c
    by (simp add: rt_queue_of_def set_handling_def scoped_activity_end_def)
  ultimately show ?thesis
    using check_event_port [OF ev(2)]
    by (intro exI [of _ ?r]) (simp add: lines scoped_activity_end_def handling_def set_handling_def)
qed

text \<open>C3: without a pump, a call of a bound in event writes the call, runs the handler, delivers what was queued for
  the component that provides the port, and writes the return with the value; the port's label is the call while the
  handler runs and the value afterwards.  When it returns, the value is the handler's, the component and the
  provider handle nothing, the provider's queue is empty and the activity is what it was.\<close>

theorem in_event_returns:
  assumes "load (cs_events s) a = Inr ev" and "check_event ev = Inr meta" and "ev_out_binding ev = None"
    and "ev_strict ev" and "ev_kind ev \<noteq> Out_void" and "cs_pump s = None" and "quiet env upd"
    and "native s (provide_component meta) \<longrightarrow> handling s (provide_component meta) = 0"
    and "prog_acts env (ce_body env f) act r"
    and "rt_queue_of s (provide_component meta) = es"
    and "\<forall>e \<in> set es. deliverable env eff (cs_events s) (provide_component meta) e"
  shows "\<exists>s'. completes env [Invoke (Bound a f)] s s' \<and>
    cs_os s' = cs_os s @ trace_in meta (ev_name ev) @ concat (map (delivery_line (cs_events s)) es) @
      trace_out meta (reply_text ev r) \<and>
    cs_user s' = upd (ev_port ev) (reply_text ev r) (fold (\<lambda>e. eff (closure_function e)) es
      (act (upd (ev_port ev) (ev_name ev) (cs_user s)))) \<and>
    cs_labels s' = (cs_labels s)(ev_port ev := reply_text ev r) \<and>
    handling s' (ev_component ev) = 0 \<and> handling s' (provide_component meta) = 0 \<and>
    rt_queue_of s' (provide_component meta) = [] \<and> cs_activity s' = cs_activity s \<and>
    cs_value s' = (if ev_kind ev = In_typed then r else Void)"
proof -
  let ?w = "write_os (trace_in meta (ev_name ev)) (reset_skip_block (ev_component ev) s)"
  let ?l = "labelled upd (ev_port ev) (ev_name ev) ?w"
  let ?h = "in_handled ev 1 ?l"
  let ?b = "?h\<lparr>cs_user := act (cs_user ?h), cs_value := r\<rparr>"
  let ?i = "cs_activity s 1"
  note ev = assms(1,2)
  have port: "ev_port ev \<noteq> NULL" using ev(2) by (rule check_event_port)
  have "rt_queue_of ?b c = rt_queue_of s c" for c
    by (simp add: rt_queue_of_def in_handled_def scoped_activity_def set_handling_def reset_skip_block_def)
  then obtain s' where flush: "completes env [In_flush a 1 ?i] ?b s'"
    and result: "cs_os s' = cs_os s @ trace_in meta (ev_name ev) @ concat (map (delivery_line (cs_events s)) es) @
        trace_out meta (reply_text ev r)"
      "cs_user s' = upd (ev_port ev) (reply_text ev r) (fold (\<lambda>e. eff (closure_function e)) es
        (act (upd (ev_port ev) (ev_name ev) (cs_user s))))"
      "cs_labels s' = (cs_labels s)(ev_port ev := reply_text ev r)"
      "handling s' (ev_component ev) = 0" "handling s' (provide_component meta) = 0"
      "rt_queue_of s' (provide_component meta) = []"
      "cs_activity s' = (if ?i = 0 then (cs_activity ?h)(1 := 0) else cs_activity ?h)"
      "cs_value s' = (if ev_kind ev = In_typed then r else Void)"
    using in_flush_completes [of ?b a ev meta env upd es eff 1 ?i] assms port by auto
  have "steps_to env (Invoke (Bound a f)) s s [In_start a f]"
    using assms
    by (cases "handling s (provide_component meta) = 0")
      (simp_all add: steps_to_def in_call_def port_blocked_p_def del: load_Inr_iff seq_Inr_iff)
  moreover have "completes env [In_start a f] s s'"
  proof (rule completes_calls_last)
    show "steps_to env (In_start a f) s ?w ([Label (ev_port ev) (ev_name ev)] @ [In_handle a f])"
      using ev by (simp add: steps_to_def in_start_def del: load_Inr_iff)
    show "completes env [Label (ev_port ev) (ev_name ev)] ?w ?l" by (rule label_completes [OF assms(7)])
    show "completes env [In_handle a f] ?l s'"
    proof (rule completes_calls_last)
      show "steps_to env (In_handle a f) ?l ?h ([Run (ce_body env f)] @ [In_flush a 1 ?i])"
        using ev assms(6)
        by (simp add: steps_to_def in_handle_def cpp_coroutine_id_def in_handled_def scoped_activity_def Let_def
            del: load_Inr_iff)
      show "completes env [Run (ce_body env f)] ?h ?b" by (rule prog_actsD [OF assms(9)])
    qed (rule flush)
  qed
  ultimately have "completes env [Invoke (Bound a f)] s s'"
    using completes_step [of env "Invoke (Bound a f)" s s "[In_start a f]" "[]"] by simp
  moreover have "cs_activity s' = cs_activity s" using result(7) by auto
  ultimately show ?thesis using result by (intro exI [of _ s']) simp
qed

section \<open>An event from outside\<close>

lemma scoped_activity_fields [simp]:
  "fst (scoped_activity k v s) = cs_activity s k"
  "cs_active (snd (scoped_activity k v s)) = cs_active s" "cs_pump (snd (scoped_activity k v s)) = cs_pump s"
  "cs_events (snd (scoped_activity k v s)) = cs_events s" "cs_states (snd (scoped_activity k v s)) = cs_states s"
  "cs_defer (snd (scoped_activity k v s)) = cs_defer s" "cs_os (snd (scoped_activity k v s)) = cs_os s"
  "cs_user (snd (scoped_activity k v s)) = cs_user s" "cs_labels (snd (scoped_activity k v s)) = cs_labels s"
  "cs_activity (snd (scoped_activity k v s)) = (if cs_activity s k = 0 then (cs_activity s)(k := v) else cs_activity s)"
  by (simp_all add: scoped_activity_def)

lemmas scoped_activity_accessors [simp] = accessors_same_states [OF scoped_activity_fields(5)]

lemma scoped_activity_on_stack [simp]:
  "scoped_activity k v (on_stack st s) = (cs_activity s k, on_stack st (snd (scoped_activity k v s)))"
  by (simp add: scoped_activity_def)

text \<open>C8: an out event that comes from outside into an idle component is traced into its queue, labelled, flushed
  at once with the label \<open><flush>\<close> before the handler runs, and traced out of the queue; the component is idle
  afterwards, its queue is empty again and the activity is what it was.\<close>

theorem external_event_delivered:
  assumes "load (cs_events s) a = Inr ev" and "check_event ev = Inr meta" and "ev_strict ev" and "ev_kind ev = Out_void"
    and "cs_pump s = None" and "\<not> cs_defer s" and "quiet env upd"
    and "provide_component meta = NULL" and "require_component meta = ev_component ev"
    and "handling s (ev_component ev) = 0" and "\<not> performs_flush s (ev_component ev)"
    and "rt_queue_of s (ev_component ev) = []" and "deferred_target s (ev_component ev) = NULL"
    and "deferred_flush s NULL = None" and "cs_activity s 1 \<noteq> 1"
    and "prog_acts env (ce_body env f) act Void"
  shows "\<exists>s'. completes env [Invoke (Bound a f)] s s' \<and>
    cs_os s' = cs_os s @ trace_qin meta (ev_name ev) @ trace_qout meta (ev_name ev) \<and>
    cs_user s' = act (flush_user upd ev (upd (ev_port ev) (ev_name ev) (cs_user s))) \<and>
    cs_labels s' = flush_ports ev ((cs_labels s)(ev_port ev := ev_name ev)) \<and>
    rt_queue_of s' (ev_component ev) = [] \<and> handling s' (ev_component ev) = 0 \<and> cs_activity s' = cs_activity s"
proof -
  let ?R = "ev_component ev" and ?i = "cs_activity s 1"
  let ?c = "Event_closure a ?R f"
  let ?w = "write_os (trace_qin meta (ev_name ev)) s"
  let ?l = "labelled upd (ev_port ev) (ev_name ev) ?w"
  let ?a = "snd (scoped_activity 1 (-1) ?l)"
  let ?q = "set_queue ?R [?c] (set_deferred_target NULL ?R (set_deferred_flush ?R (Some (Flush_closure a NULL)) ?a))"
  let ?e = "deliver (\<lambda>_. act) ?R [?c] (flush_labelled upd ev (set_handling ?R 1 ?q))"
  let ?r = "(scoped_activity_end 1 ?i (set_handling ?R 0 ?e))\<lparr>cs_value := Void\<rparr>"
  note ev = assms(1,2)
  have R: "?R \<noteq> NULL" using ev(2) by (auto simp: check_event_def c_assert_def split: if_splits)
  have "steps_to env (Invoke (Bound a f)) s ?w ([Label (ev_port ev) (ev_name ev)] @ [Out_queue a f])"
    using ev assms(3,4) by (simp add: steps_to_def out_call_def del: load_Inr_iff)
  moreover have "completes env [Label (ev_port ev) (ev_name ev)] ?w ?l" by (rule label_completes [OF assms(7)])
  moreover have "completes env [Out_queue a f] ?l ?r"
  proof (rule completes_calls_last)
    have idle: "flush_now ?R NULL ?R (on_stack st ?q)" for st
      using assms(10,11) R by (simp add: flush_now_def accessor_defs)
    have "rt_queue_of ?a ?R = []" using assms(12) by (simp add: rt_queue_of_def)
    then show "steps_to env (Out_queue a f) ?l ?q ([Flush ?R 1 False] @ [Out_done 1 ?i])"
      using ev assms(5,8,9,15) R idle
      by (simp add: steps_to_def out_queue_def port_blocked_p_def cpp_coroutine_id_def Let_def
          del: load_Inr_iff)
    have "completes env [Flush ?R 1 False] ?q (set_handling ?R 0 ?e)"
      using assms R ev
      by (intro flush_delivers) (simp_all add: accessor_defs del: load_Inr_iff)
    then show "completes env [Flush ?R 1 False] ?q (set_handling ?R 0 ?e)" .
    have "steps_to env (Out_done 1 ?i) (set_handling ?R 0 ?e) ?r []"
      using assms(5) by (simp add: steps_to_def out_done_def prune_deferred_def scoped_activity_end_def)
    then show "completes env [Out_done 1 ?i] (set_handling ?R 0 ?e) ?r" by (rule completes_last)
  qed
  ultimately have "completes env [Invoke (Bound a f)] s ?r" by (rule completes_calls_last)
  moreover have "rt_queue_of ?r ?R = []"
    by (simp add: scoped_activity_end_def accessor_defs delivered_def)
  moreover have "handling ?r ?R = 0" by (simp add: scoped_activity_end_def handling_def set_handling_def)
  moreover have "cs_activity ?r = cs_activity s" by (auto simp: scoped_activity_end_def)
  moreover have "cs_os ?r = cs_os s @ trace_qin meta (ev_name ev) @ trace_qout meta (ev_name ev)"
    using ev R by (simp add: scoped_activity_end_def del: load_Inr_iff)
  moreover have "cs_user ?r = act (flush_user upd ev (upd (ev_port ev) (ev_name ev) (cs_user s)))"
    "cs_labels ?r = flush_ports ev ((cs_labels s)(ev_port ev := ev_name ev))"
    using check_event_port [OF ev(2)] by (simp_all add: scoped_activity_end_def)
  ultimately show ?thesis by (intro exI [of _ ?r]) simp
qed

end
