(* ===== verification/Cpp_Pump_Laws.thy ===== *)
theory Cpp_Pump_Laws
  imports Cpp_Laws "HOL-Library.Multiset"
begin

text \<open>
  The C++ pump: what every step keeps of its lists, contexts and timers; the order in which timers fire; what a
  release does to the coroutine that waits; and what happens when two calls wait for one component.
\<close>

section \<open>What every step keeps\<close>

definition coroutine_ids :: "('f, 'p) cpp_pump \<Rightarrow> nat list" where
  "coroutine_ids p = map co_id (pu_coroutines p @ pu_collateral p)"

definition timers_ok :: "('f, 'p) cpp_pump \<Rightarrow> bool" where
  "timers_ok p \<longleftrightarrow> sorted (map fst (pu_timers p)) \<and> distinct (map (\<lambda>t. dl_id (fst t)) (pu_timers p))"

definition contexts_ok :: "('f, 'p) cpp_pump \<Rightarrow> ('f, 'p, 'u) cpp_sys \<Rightarrow> bool" where
  "contexts_ok p s \<longleftrightarrow>
     distinct (coroutine_ids p) \<and> (\<forall>k \<in> set (coroutine_ids p). 0 < k \<and> k \<le> pu_current p \<and> cs_stacks s k \<noteq> None) \<and>
     (\<forall>k. cs_stacks s k \<noteq> None \<longrightarrow> k \<le> pu_current p) \<and> cs_active s \<le> pu_current p"

definition cpp_inv :: "('f, 'p, 'u) cpp_sys \<Rightarrow> bool" where
  "cpp_inv s \<longleftrightarrow> (case cs_pump s of None \<Rightarrow> True | Some p \<Rightarrow> timers_ok p \<and> contexts_ok p s)"

text \<open>A change that keeps it, keeps whether there is a pump, and does not count coroutines backwards.\<close>

definition evolves :: "('f, 'p, 'u) cpp_sys \<Rightarrow> ('f, 'p, 'u) cpp_sys \<Rightarrow> bool" where
  "evolves s s' \<longleftrightarrow>
     (case cs_pump s of
        None \<Rightarrow> cs_pump s' = None
      | Some p \<Rightarrow> (\<exists>p'. cs_pump s' = Some p' \<and> pu_current p \<le> pu_current p' \<and>
          (timers_ok p \<longrightarrow> timers_ok p') \<and> (contexts_ok p s \<longrightarrow> contexts_ok p' s')))"

named_theorems evolves_intros \<open>changes that keep the pump's invariant\<close>

lemma evolves_trans [trans]: "evolves s s' \<Longrightarrow> evolves s' s'' \<Longrightarrow> evolves s s''"
  by (fastforce simp: evolves_def split: option.splits)

lemma evolves_refl [simp, evolves_intros]: "evolves s s"
  by (simp add: evolves_def split: option.split)

lemma evolves_inv: "evolves s s' \<Longrightarrow> cpp_inv s \<Longrightarrow> cpp_inv s'"
  by (auto simp: evolves_def cpp_inv_def split: option.splits)

lemma evolves_same:
  "cs_pump s' = cs_pump s \<Longrightarrow> cs_stacks s' = cs_stacks s \<Longrightarrow> cs_active s' = cs_active s \<Longrightarrow> evolves s s'"
  by (auto simp: evolves_def contexts_ok_def split: option.split)

text \<open>The pump changes, the coroutines keep their ids and places.\<close>

lemma evolves_set_pump:
  assumes "cs_pump s = Some p" and "coroutine_ids p' = coroutine_ids p" and "pu_current p' = pu_current p"
    and "timers_ok p \<longrightarrow> timers_ok p'"
  shows "evolves s (set_pump p' s)"
  using assms by (simp add: evolves_def contexts_ok_def)

lemma coroutine_ids_same [simp]:
  "coroutine_ids (on_coroutine k f p) = coroutine_ids p" if "\<And>c. co_id (f c) = co_id c"
  using that by (simp add: coroutine_ids_def on_coroutine_def o_def if_distrib [of co_id] cong: if_cong)

lemma on_coroutine_fields [simp]:
  "pu_current (on_coroutine k f p) = pu_current p" "pu_timers (on_coroutine k f p) = pu_timers p"
  "pu_unblocked (on_coroutine k f p) = pu_unblocked p"
  by (simp_all add: on_coroutine_def)

lemma timers_ok_same: "pu_timers p' = pu_timers p \<Longrightarrow> timers_ok p' = timers_ok p"
  by (simp add: timers_ok_def)

lemma distinct_map_insort_key: "distinct (map g (insort_key k x xs)) \<longleftrightarrow> g x \<notin> g ` set xs \<and> distinct (map g xs)"
  by (induction xs) (auto simp: set_insort_key)

lemma timers_ok_handle [evolves_intros]:
  assumes "pump_handle now i ms f p = Inr p'" and "timers_ok p"
  shows "timers_ok p'"
proof -
  from assms(1) have "\<forall>(d, _) \<in> set (pu_timers p). dl_id d \<noteq> i"
    and p': "p' = p\<lparr>pu_timers := insort_key fst (Deadline (now + ms) i, f) (pu_timers p)\<rparr>"
    by (auto simp: pump_handle_def c_assert_def split: if_splits)
  then show ?thesis
    using assms(2) by (fastforce simp: timers_ok_def sorted_insort_key distinct_map_insort_key)
qed

lemma timers_ok_remove [evolves_intros]: "timers_ok p \<Longrightarrow> timers_ok (pump_remove i p)"
  by (auto simp: timers_ok_def pump_remove_def distinct_map_filter sorted_filter [where f = fst, simplified]
      split: option.split)

lemma timers_ok_tl: "timers_ok p \<Longrightarrow> pu_timers p = t # ts \<Longrightarrow> timers_ok (p\<lparr>pu_timers := ts, pu_executing := b\<rparr>)"
  by (simp add: timers_ok_def)

subsection \<open>Contexts\<close>

lemma distinct_coroutine_ids:
  "distinct (coroutine_ids p) \<longleftrightarrow> distinct (map co_id (pu_coroutines p)) \<and> distinct (map co_id (pu_collateral p)) \<and>
     co_id ` set (pu_coroutines p) \<inter> co_id ` set (pu_collateral p) = {}"
  "set (coroutine_ids p) = co_id ` set (pu_coroutines p) \<union> co_id ` set (pu_collateral p)"
  by (auto simp: coroutine_ids_def)

lemma evolves_create_context:
  assumes "cs_pump s = Some p0" and "set (coroutine_ids p) = set (coroutine_ids p0)"
    and "distinct (coroutine_ids p0) \<longrightarrow> distinct (coroutine_ids p)" and "pu_current p = pu_current p0"
    and "pu_timers p = pu_timers p0"
  shows "evolves s (create_context p s)"
proof -
  let ?k = "Suc (pu_current p0)"
  let ?c = "\<lparr>co_id = ?k, co_component = NULL, co_port = NULL, co_finished = False, co_skip_block = False\<rparr>"
  let ?q = "p\<lparr>pu_current := ?k, pu_coroutines := pu_coroutines p @ [?c]\<rparr>"
  have ids: "set (coroutine_ids ?q) = insert ?k (set (coroutine_ids p0))"
    using assms(2) by (auto simp: coroutine_ids_def)
  have "contexts_ok ?q (create_context p s)" if ok: "contexts_ok p0 s"
  proof -
    have "?k \<notin> set (coroutine_ids p0)" using ok by (auto simp: contexts_ok_def)
    then have "distinct (coroutine_ids ?q)"
      using ok assms(2,3) by (auto simp: contexts_ok_def distinct_coroutine_ids)
    then show ?thesis
      using ok assms(4) ids by (auto simp: contexts_ok_def create_context_def Let_def le_Suc_eq)
  qed
  then show ?thesis
    using assms(1,4,5) timers_ok_same [of ?q p0] by (simp add: evolves_def create_context_def Let_def)
qed

lemma evolves_remove_finished:
  assumes "cs_pump s = Some p"
  shows "evolves s (remove_finished_coroutines p s)"
proof -
  let ?p = "p\<lparr>pu_coroutines := filter (\<lambda>c. \<not> co_finished c) (pu_coroutines p)\<rparr>"
  have "contexts_ok ?p (remove_finished_coroutines p s)" if ok: "contexts_ok p s"
  proof -
    have ids: "set (coroutine_ids ?p) \<subseteq> set (coroutine_ids p)" by (auto simp: distinct_coroutine_ids)
    have "\<not> (\<exists>c \<in> set (pu_coroutines p). co_finished c \<and> co_id c = k)" if "k \<in> set (coroutine_ids ?p)" for k
    proof
      assume "\<exists>c \<in> set (pu_coroutines p). co_finished c \<and> co_id c = k"
      then obtain c where c: "c \<in> set (pu_coroutines p)" "co_finished c" "co_id c = k" by blast
      moreover have "inj_on co_id (set (pu_coroutines p))" "k \<notin> co_id ` set (pu_collateral p)"
        using ok c by (auto simp: contexts_ok_def distinct_coroutine_ids distinct_map)
      ultimately show False using that by (auto simp: distinct_coroutine_ids dest: inj_onD)
    qed
    moreover have "distinct (coroutine_ids ?p)"
      using ok by (auto simp: contexts_ok_def distinct_coroutine_ids distinct_map_filter)
    ultimately show ?thesis
      using ok ids by (auto simp: contexts_ok_def remove_finished_coroutines_def)
  qed
  then show ?thesis
    using assms timers_ok_same [of ?p p] by (simp add: evolves_def remove_finished_coroutines_def)
qed

lemma evolves_yield_to:
  assumes "cs_pump s = Some p" and "k = 0 \<or> k \<in> set (coroutine_ids p)"
  shows "evolves s (yield_to k s)"
  using assms by (auto simp: evolves_def yield_to_def contexts_ok_def)

lemma evolves_permute:
  assumes "cs_pump s = Some p" and "mset (coroutine_ids p') = mset (coroutine_ids p)"
    and "pu_current p' = pu_current p" and "pu_timers p' = pu_timers p"
  shows "evolves s (set_pump p' s)"
  using assms mset_eq_setD [OF assms(2)] mset_eq_imp_distinct_iff [OF assms(2)] timers_ok_same [OF assms(4)]
  by (simp add: evolves_def contexts_ok_def)

lemma get_cpp_pump_Inr [simp]: "get_cpp_pump s = Inr p \<longleftrightarrow> cs_pump s = Some p"
  by (auto simp: get_cpp_pump_def split: option.split)

lemma evolves_yield_back:
  assumes "cs_pump s = Some p" and "yield_to_back p s = Inr s'"
  shows "evolves s s'"
proof -
  from assms(2) have "pu_coroutines p \<noteq> []" and "s' = yield_to (co_id (last (pu_coroutines p))) s"
    by (auto simp: yield_to_back_def split: if_splits)
  then show ?thesis using assms(1) by (auto intro!: evolves_yield_to simp: coroutine_ids_def)
qed

text \<open>Splicing moves coroutines between the lists.\<close>

lemma splice_end_ids:
  assumes "splice_end P from to = (from', to')"
  shows "mset (map co_id from') + mset (map co_id to') = mset (map co_id from) + mset (map co_id to)"
proof (cases "find P from")
  case (Some c)
  then have "c \<in> set from" by (auto simp: find_Some_iff)
  then have "image_mset co_id (mset from) = image_mset co_id (add_mset c (mset (remove1 c from)))" by simp
  then have "mset (map co_id from) = add_mset (co_id c) (mset (map co_id (remove1 c from)))" by (simp del: mset_remove1)
  with Some assms show ?thesis by (auto simp: splice_end_def)
qed (use assms in \<open>simp add: splice_end_def\<close>)

lemma relay_loop_ids:
  assumes "relay_loop unblocked component cs moved have = (kept, moved', have')"
  shows "mset (map co_id kept) + mset (map co_id moved') = mset (map co_id cs) + mset (map co_id moved)"
  using assms
  by (induction unblocked component cs moved "have" arbitrary: kept moved' have' rule: relay_loop.induct)
    (auto split: if_splits prod.splits)

lemma skip_block_ids:
  assumes "collateral_release_skip_block component p = (p', b)"
  shows "mset (coroutine_ids p') = mset (coroutine_ids p) \<and> pu_current p' = pu_current p \<and> pu_timers p' = pu_timers p"
proof -
  obtain kept moved "have" where loop: "relay_loop (pu_unblocked p) component (rev (pu_collateral p)) (pu_coroutines p) False =
      (kept, moved, have)"
    by (cases "relay_loop (pu_unblocked p) component (rev (pu_collateral p)) (pu_coroutines p) False") auto
  with assms have "p' = p\<lparr>pu_coroutines := moved, pu_collateral := rev kept\<rparr>"
    by (simp add: collateral_release_skip_block_def)
  with relay_loop_ids [OF loop] show ?thesis
    by (simp add: coroutine_ids_def rev_map [symmetric] add.commute)
qed

lemma move_collateral_ids [simp]:
  "coroutine_ids (move_collateral port p) = coroutine_ids p" "pu_current (move_collateral port p) = pu_current p"
  "pu_timers (move_collateral port p) = pu_timers p"
  by (simp_all add: move_collateral_def split: option.split)

subsection \<open>Operations\<close>

lemma evolves_collateral_block [evolves_intros]:
  assumes "collateral_block component s = Inr s'"
  shows "evolves s s'"
proof -
  from assms obtain p self where p: "cs_pump s = Some p" and "find_self (pu_coroutines p) = Inr self"
    by (auto simp: collateral_block_def)
  obtain others collateral where splice:
      "splice_end (\<lambda>c. co_id c = self) (pu_coroutines p) (pu_collateral p) = (others, collateral)"
    by (cases "splice_end (\<lambda>c. co_id c = self) (pu_coroutines p) (pu_collateral p)")
  let ?q = "on_coroutine self (\<lambda>c. c\<lparr>co_component := component\<rparr>) (p\<lparr>pu_coroutines := others, pu_collateral := collateral\<rparr>)"
  have "\<exists>port p'. cs_pump (create_context (on_coroutine self (\<lambda>c. c\<lparr>co_port := port\<rparr>) ?q) s) = Some p' \<and>
      yield_to_back p' (create_context (on_coroutine self (\<lambda>c. c\<lparr>co_port := port\<rparr>) ?q) s) = Inr s'"
    using assms p \<open>find_self _ = _\<close> splice
    by (auto simp: collateral_block_def Let_def split: option.splits if_splits)
  then obtain port p' where
    p': "cs_pump (create_context (on_coroutine self (\<lambda>c. c\<lparr>co_port := port\<rparr>) ?q) s) = Some p'"
    and yield: "yield_to_back p' (create_context (on_coroutine self (\<lambda>c. c\<lparr>co_port := port\<rparr>) ?q) s) = Inr s'"
    by blast
  have ids: "mset (coroutine_ids ?q) = mset (coroutine_ids p)"
    using splice_end_ids [OF splice] by simp (simp add: coroutine_ids_def)
  have "evolves s (create_context (on_coroutine self (\<lambda>c. c\<lparr>co_port := port\<rparr>) ?q) s)"
    using p mset_eq_setD [OF ids] mset_eq_imp_distinct_iff [OF ids] by (intro evolves_create_context) simp_all
  also have "evolves \<dots> s'" using p' yield by (rule evolves_yield_back)
  finally show ?thesis .
qed

lemma evolves_prune [evolves_intros]: "evolves s (prune_deferred env s)"
  by (auto simp: prune_deferred_def pump_prune_deferred_def coroutine_ids_def timers_ok_def intro!: evolves_set_pump
      split: option.split)

lemma evolves_block_skip [evolves_intros]:
  assumes "block_skip self component port s = Inr (s', frames)"
  shows "evolves s s'"
proof (cases "skip_block s component port")
  case True
  with assms show ?thesis by (auto simp: block_skip_def intro!: evolves_same)
next
  case False
  with assms obtain p where p: "cs_pump s = Some p" by (auto simp: block_skip_def)
  let ?b = "on_coroutine self (\<lambda>c. c\<lparr>co_port := port\<rparr>) p"
  obtain q skip where relay: "collateral_release_skip_block component ?b = (q, skip)"
    by (cases "collateral_release_skip_block component ?b")
  let ?s = "if skip then set_pump q s else create_context (move_collateral port q) s"
  have ids: "mset (coroutine_ids q) = mset (coroutine_ids p)" and same: "pu_current q = pu_current p" "pu_timers q = pu_timers p"
    using skip_block_ids [OF relay] by simp_all
  have "evolves s ?s"
    using p same mset_eq_setD [OF ids] mset_eq_imp_distinct_iff [OF ids] ids
    by (auto intro: evolves_permute evolves_create_context)
  moreover from assms False p relay obtain p' where "cs_pump ?s = Some p'" and "yield_to_back p' ?s = Inr s'"
    by (auto simp: block_skip_def Let_def split: if_splits)
  ultimately show ?thesis using evolves_yield_back evolves_trans by blast
qed

lemma evolves_block_resumed [evolves_intros]:
  assumes "block_resumed component s = Inr (s', frames)"
  shows "evolves s s'"
proof -
  from assms obtain p where p: "cs_pump s = Some p"
    and s': "s' = set_blocked component 0 (reset_skip_block component (remove_finished_coroutines p s))"
    by (auto simp: block_resumed_def)
  have "evolves s (remove_finished_coroutines p s)" using p by (rule evolves_remove_finished)
  also have "evolves \<dots> s'" unfolding s' by (rule evolves_same) simp_all
  finally show ?thesis .
qed

lemma evolves_release [evolves_intros]:
  assumes "pump_release component port s = Inr (s', frames)"
  shows "evolves s s'"
proof -
  have "evolves (set_skip_block component port s) s'"
    using assms
    by (auto simp: pump_release_def Let_def coroutine_ids_def timers_ok_def intro!: evolves_set_pump split: option.splits)
  moreover have "evolves s (set_skip_block component port s)" by (rule evolves_same) simp_all
  ultimately show ?thesis using evolves_trans by blast
qed

lemma find_SomeD: "find P xs = Some x \<Longrightarrow> x \<in> set xs \<and> P x"
  by (induction xs) (auto split: if_splits)

lemma get_coroutine_id:
  assumes "get_coroutine k p = Inr c"
  shows "k \<in> set (coroutine_ids p)"
proof -
  have "find (\<lambda>c. co_id c = k) (pu_coroutines p @ pu_collateral p) = Some c"
    using assms by (simp add: get_coroutine_def split: option.splits)
  from find_SomeD [OF this] show ?thesis by (auto simp: coroutine_ids_def)
qed

lemma evolves_context_switch [evolves_intros]:
  assumes "context_switch s = Inr (s', frames)"
  shows "evolves s s'"
proof -
  from assms obtain p where p: "cs_pump s = Some p" by (auto simp: context_switch_def)
  show ?thesis
  proof (cases "pu_switch p")
    case Nil
    with p assms show ?thesis by (simp add: context_switch_def)
  next
    case (Cons k rest)
    with p assms obtain self c where "find_self (pu_coroutines p) = Inr self"
      and c: "get_coroutine k (p\<lparr>pu_switch := rest\<rparr>) = Inr c"
      by (auto simp: context_switch_def switch_to_def)
    define q where "q = on_coroutine self (\<lambda>c. c\<lparr>co_finished := True\<rparr>) (on_coroutine k
      (\<lambda>c. c\<lparr>co_component := NULL, co_port := NULL\<rparr>)
      (p\<lparr>pu_switch := rest, pu_unblocked := pu_unblocked p @ [co_port c]\<rparr>))"
    have s': "s' = yield_to k (set_pump q s)"
      using p assms Cons \<open>find_self _ = _\<close> c by (simp add: context_switch_def switch_to_def q_def Let_def)
    have "coroutine_ids (p\<lparr>pu_switch := rest, pu_unblocked := pu_unblocked p @ [co_port c]\<rparr>) = coroutine_ids p"
      "coroutine_ids (p\<lparr>pu_switch := rest\<rparr>) = coroutine_ids p"
      by (simp_all add: coroutine_ids_def)
    with get_coroutine_id [OF c] have k: "k \<in> set (coroutine_ids p)"
      and ids: "coroutine_ids q = coroutine_ids p" "pu_current q = pu_current p" "pu_timers q = pu_timers p"
      by (simp_all add: q_def)
    have "evolves s (set_pump q s)" using timers_ok_same [of q p] ids by (intro evolves_set_pump [OF p]) simp_all
    also have "evolves \<dots> s'" unfolding s' using k ids by (intro evolves_yield_to [where p = q]) simp_all
    finally show ?thesis .
  qed
qed

lemma evolves_collateral_release [evolves_intros]:
  assumes "collateral_release self s = Inr (s', frames)"
  shows "evolves s s'"
proof -
  from assms obtain p where p: "cs_pump s = Some p" by (auto simp: collateral_release_def)
  let ?P = "\<lambda>c. co_port c \<in> set (pu_unblocked p)"
  show ?thesis
  proof (cases "find ?P (pu_collateral p)")
    case None
    with p assms show ?thesis
      by (auto simp: collateral_release_def coroutine_ids_def timers_ok_def intro!: evolves_set_pump)
  next
    case (Some it)
    obtain collateral coroutines where splice:
      "splice_end ?P (pu_collateral p) (pu_coroutines p) = (collateral, coroutines)"
      by (cases "splice_end ?P (pu_collateral p) (pu_coroutines p)")
    let ?q = "on_coroutine self (\<lambda>c. c\<lparr>co_finished := True\<rparr>) (on_coroutine (co_id it) (\<lambda>c. c\<lparr>co_port := NULL\<rparr>)
      (p\<lparr>pu_coroutines := coroutines, pu_collateral := collateral\<rparr>))"
    from p assms Some splice have yield: "yield_to_back ?q (set_pump ?q s) = Inr s'"
      by (auto simp: collateral_release_def Let_def)
    have "mset (coroutine_ids ?q) = mset (coroutine_ids p)"
      using splice_end_ids [OF splice] by simp (simp add: coroutine_ids_def add.commute)
    then have "evolves s (set_pump ?q s)" using p by (intro evolves_permute) simp_all
    also have "evolves \<dots> s'" using yield by (intro evolves_yield_back [where p = ?q]) simp_all
    finally show ?thesis .
  qed
qed

text \<open>The worker takes from the pump's queue, deferred statements and timers.\<close>

lemma evolves_worker [evolves_intros]:
  assumes "pump_worker env s = Inr (s', frames)"
  shows "evolves s s'"
proof -
  from assms obtain p where "cs_pump s = Some p" by (auto simp: pump_worker_def)
  with assms show ?thesis
    by (cases "pu_queue p")
      (auto simp: pump_worker_def coroutine_ids_def timers_ok_def intro!: evolves_set_pump split: if_split_asm)
qed

lemma evolves_worker_deferred [evolves_intros]:
  assumes "worker_deferred env s = Inr (s', frames)"
  shows "evolves s s'"
proof -
  from assms obtain p where "cs_pump s = Some p" by (auto simp: worker_deferred_def)
  with assms show ?thesis
    by (cases "pu_deferred p")
      (auto simp: worker_deferred_def coroutine_ids_def timers_ok_def intro!: evolves_set_pump split: if_split_asm)
qed

lemma evolves_timers [evolves_intros]:
  assumes "worker_timers env now s = Inr (s', frames)"
  shows "evolves s s'"
proof -
  from assms obtain p where "cs_pump s = Some p" by (auto simp: worker_timers_def)
  with assms show ?thesis
    by (cases "pu_timers p")
      (auto simp: worker_timers_def coroutine_ids_def timers_ok_def intro!: evolves_set_pump split: if_split_asm)
qed

lemma evolves_executed [evolves_intros]: "executed s = Inr (s', frames) \<Longrightarrow> evolves s s'"
  by (auto simp: executed_def coroutine_ids_def timers_ok_def intro!: evolves_set_pump)

lemma evolves_context_loop [evolves_intros]:
  "context_loop self s = Inr (s', frames) \<Longrightarrow> evolves s s'"
  by (auto simp: context_loop_def intro!: evolves_yield_to split: if_split_asm)

lemma evolves_pump_thread [evolves_intros]:
  "pump_begin s = Inr (s', frames) \<Longrightarrow> evolves s s'"
  "pump_loop s = Inr (s', frames) \<Longrightarrow> evolves s s'"
  "pump_paused s = Inr (s', frames) \<Longrightarrow> evolves s s'"
  "pump_called s = Inr (s', frames) \<Longrightarrow> evolves s s'"
  by (auto simp: pump_begin_def pump_loop_def pump_paused_def pump_called_def c_assert_def
      intro: evolves_create_context evolves_remove_finished evolves_yield_back split: if_split_asm)

text \<open>The runtime's own functions only change the runtime, or prune.\<close>

lemma evolves_after_prune:
  assumes "cs_pump s' = cs_pump (prune_deferred env s)" and "cs_stacks s' = cs_stacks (prune_deferred env s)"
    and "cs_active s' = cs_active (prune_deferred env s)"
  shows "evolves s s'"
proof -
  have "evolves s (prune_deferred env s)" by (rule evolves_prune)
  also have "evolves \<dots> s'" using assms by (rule evolves_same)
  finally show ?thesis .
qed

lemma scoped_activity_pair: "scoped_activity k v s = (i, s') \<longleftrightarrow> i = cs_activity s k \<and> s' = snd (scoped_activity k v s)"
  by (auto simp: scoped_activity_def)

lemma scoped_activity_stacks [simp]: "cs_stacks (snd (scoped_activity k v s)) = cs_stacks s"
  by (simp add: scoped_activity_def)

lemma scoped_activity_end_context [simp]:
  "cs_pump (scoped_activity_end k v s) = cs_pump s" "cs_stacks (scoped_activity_end k v s) = cs_stacks s"
  "cs_active (scoped_activity_end k v s) = cs_active s"
  by (simp_all add: scoped_activity_end_def)

lemma evolves_in_event [evolves_intros]:
  "in_call a f s = Inr (s', frames) \<Longrightarrow> evolves s s'"
  "in_start a f s = Inr (s', frames) \<Longrightarrow> evolves s s'"
  "in_handle env a f s = Inr (s', frames) \<Longrightarrow> evolves s s'"
  "in_flush a cid i s = Inr (s', frames) \<Longrightarrow> evolves s s'"
  "in_trace a cid i s = Inr (s', frames) \<Longrightarrow> evolves s s'"
  "in_finish env a cid i s = Inr (s', frames) \<Longrightarrow> evolves s s'"
  "in_leave a cid i s = Inr (s', frames) \<Longrightarrow> evolves s s'"
  "raii_leave a s = Inr (s', frames) \<Longrightarrow> evolves s s'"
  subgoal by (auto simp: in_call_def intro: evolves_intros split: if_split_asm)
  subgoal by (auto simp: in_start_def intro!: evolves_same)
  subgoal by (auto simp: in_handle_def Let_def case_prod_unfold intro!: evolves_same)
  subgoal by (auto simp: in_flush_def Let_def intro!: evolves_same split: if_split_asm)
  subgoal by (auto simp: in_trace_def Let_def intro!: evolves_same split: if_split_asm)
  subgoal by (auto simp: in_finish_def intro: evolves_prune)
  subgoal by (auto simp: in_leave_def intro!: evolves_same)
  subgoal by (auto simp: raii_leave_def intro!: evolves_same split: if_split_asm)
  done

lemma evolves_out_event [evolves_intros]:
  "out_call a f s = Inr (s', frames) \<Longrightarrow> evolves s s'"
  "out_queue env a f s = Inr (s', frames) \<Longrightarrow> evolves s s'"
  "out_done env cid i s = Inr (s', frames) \<Longrightarrow> evolves s s'"
  "run_event_closure env c s = Inr (s', frames) \<Longrightarrow> evolves s s'"
  "run_flush_closure g s = Inr (s', frames) \<Longrightarrow> evolves s s'"
  subgoal by (auto simp: out_call_def intro!: evolves_same)
  subgoal by (auto simp: out_queue_def Let_def case_prod_unfold intro!: evolves_same split: if_split_asm)
  subgoal by (auto simp: out_done_def intro!: evolves_after_prune [of _ env])
  subgoal by (cases c) (auto intro!: evolves_same split: if_split_asm)
  subgoal by (cases g) auto
  done

lemma evolves_flush [evolves_intros]:
  "cpp_flush c cid sync s = Inr (s', frames) \<Longrightarrow> evolves s s'"
  "flush_loop c cid sync flushed s = Inr (s', frames) \<Longrightarrow> evolves s s'"
  "flush_event env c e s = Inr (s', frames) \<Longrightarrow> evolves s s'"
  subgoal by (auto simp: cpp_flush_def intro!: evolves_same)
  subgoal
    by (cases "rt_queue_of s c")
      (auto simp: flush_loop_def Let_def intro!: evolves_same split: if_split_asm option.split_asm)
  subgoal
    by (cases e) (auto simp: flush_event_def intro!: evolves_same split: if_split_asm)
  done

lemma evolves_other [evolves_intros]:
  "port_update env i label s = Inr (s', frames) \<Longrightarrow> evolves s s'"
  "defer_start env c f cid s = Inr (s', frames) \<Longrightarrow> evolves s s'"
  "defer_done cid j s = Inr (s', frames) \<Longrightarrow> evolves s s'"
  "pump_block c port s = Inr (s', frames) \<Longrightarrow> evolves s s'"
  "context_begin s = Inr (s', frames) \<Longrightarrow> evolves s s'"
  "context_after k s = Inr (s', frames) \<Longrightarrow> evolves s s'"
  subgoal by (auto simp: port_update_def intro!: evolves_same split: if_split_asm)
  subgoal by (auto simp: defer_start_def Let_def case_prod_unfold intro!: evolves_same)
  subgoal by (auto simp: defer_done_def intro!: evolves_same)
  subgoal by (auto simp: pump_block_def intro!: evolves_same)
  subgoal by (auto simp: context_begin_def)
  subgoal by (auto simp: context_after_def)
  done

lemma evolves_invoke [evolves_intros]: "invoke env b s = Inr (s', frames) \<Longrightarrow> evolves s s'"
  by (cases b) (auto intro: evolves_in_event evolves_out_event split: if_split_asm)

lemma evolves_call [evolves_intros]:
  assumes "cpp_call_step env c s = Inr (s', frames)"
  shows "evolves s s'"
proof (cases c)
  case (Handle ident milliseconds f)
  with assms obtain p p' where p: "cs_pump s = Some p" "pump_handle (cs_clock s) ident milliseconds f p = Inr p'"
    and s': "s' = set_pump p' s" by auto
  have "coroutine_ids p' = coroutine_ids p" "pu_current p' = pu_current p"
    using p(2) by (auto simp: pump_handle_def coroutine_ids_def)
  with p s' show ?thesis by (auto intro: evolves_set_pump timers_ok_handle)
next
  case (Remove ident)
  with assms obtain p where p: "cs_pump s = Some p" and s': "s' = set_pump (pump_remove ident p) s" by auto
  have "coroutine_ids (pump_remove ident p) = coroutine_ids p" "pu_current (pump_remove ident p) = pu_current p"
    by (auto simp: pump_remove_def coroutine_ids_def split: option.split)
  with p s' show ?thesis by (auto intro: evolves_set_pump timers_ok_remove)
next
  case (Set_out_binding a g)
  with assms show ?thesis by (auto intro!: evolves_same)
qed (use assms in \<open>auto simp: pump_defer_def pump_post_def coroutine_ids_def timers_ok_def
       intro: evolves_other evolves_release intro!: evolves_set_pump\<close>)

lemma evolves_updates [evolves_intros]:
  "evolves s (s\<lparr>cs_value := r\<rparr>)" "evolves s (s\<lparr>cs_user := u\<rparr>)" "evolves s (set_deferred_flush c d s)"
  by (rule evolves_same; simp)+

lemma evolves_frame: "cpp_frame_step env frame s = Inr (s', frames) \<Longrightarrow> evolves s s'"
proof (cases frame)
  case (Run p)
  then show "cpp_frame_step env frame s = Inr (s', frames) \<Longrightarrow> evolves s s'"
    by (cases p) (auto intro: evolves_intros)
qed (auto intro: evolves_intros)

lemma evolves_step:
  assumes "cpp_step env s = Inr (Some s')" and "cpp_inv s"
  shows "cpp_inv s'"
proof -
  from assms(1) obtain frame rest s1 frames where "cpp_frame_step env frame s = Inr (s1, frames)"
    and s': "s' = s1\<lparr>cs_stacks := (cs_stacks s1)(cs_active s := Some (frames @ rest))\<rparr>"
    by (auto simp: cpp_step_def split: option.split_asm list.split_asm)
  then have ev: "evolves s s1" by (auto intro: evolves_frame)
  with assms(2) have "cpp_inv s1" by (auto intro: evolves_inv)
  with ev assms(2) show ?thesis
    unfolding s' by (auto simp: cpp_inv_def contexts_ok_def evolves_def split: option.splits)
qed

lemma evolves_outside: "cpp_outside s s' \<Longrightarrow> evolves s s'"
proof (induction rule: cpp_outside.induct)
  case (outside_clock s t)
  show ?case by (rule evolves_same) simp_all
qed (auto simp: pump_post_def pump_stop_def pump_pause_def pump_resume_def coroutine_ids_def timers_ok_def
      intro!: evolves_set_pump)

text \<open>C4: in every reachable state the coroutines' ids are different, have been handed out and each has a context
  with a stack; nothing with a later id exists, so a new context replaces none; the timers are in the order of
  their deadlines, with one timer for an ident.\<close>

theorem pump_invariant:
  assumes "cpp_reaches env start s" and "cpp_inv start"
  shows "cpp_inv s"
  using assms by (induction rule: cpp_reaches.induct) (auto intro: evolves_step evolves_inv evolves_outside)

section \<open>Timers\<close>

lemma set_pump_twice [simp]: "set_pump p (set_pump q s) = set_pump p s"
  by (simp add: set_pump_def)

lemma timer_fires:
  assumes "cs_pump s = Some p" and "pu_timers p = (d, f) # rest" and "dl_expired d now"
    and "prog_acts env (ce_body env f) act Void"
    and "completes env [Worker_timers now]
      (set_pump (p\<lparr>pu_timers := rest, pu_executing := False\<rparr>) (s\<lparr>cs_user := act (cs_user s), cs_value := Void\<rparr>)) s'"
  shows "completes env [Worker_timers now] s s'"
proof -
  let ?q = "p\<lparr>pu_timers := rest, pu_executing := True\<rparr>"
  let ?s = "set_pump ?q s"
  let ?t = "?s\<lparr>cs_user := act (cs_user s), cs_value := Void\<rparr>"
  let ?e = "set_pump (p\<lparr>pu_timers := rest, pu_executing := False\<rparr>) ?t"
  have fire: "steps_to env (Worker_timers now) s ?s (([Run (ce_body env f)] @ [Executed]) @ [Worker_timers now])"
    using assms(1-3) by (simp add: steps_to_def worker_timers_def)
  have body: "completes env [Run (ce_body env f)] ?s ?t" using prog_actsD [OF assms(4), of ?s] by simp
  have "steps_to env Executed ?t ?e []" by (simp add: steps_to_def executed_def)
  then have "completes env ([Run (ce_body env f)] @ [Executed]) ?s ?e"
    by (intro completes_append [OF body] completes_last)
  moreover have "completes env [Worker_timers now] ?e s'" using assms(5) by (simp add: set_pump_def)
  ultimately show ?thesis by (rule completes_calls_last [OF fire])
qed

lemma timers_ok_Cons:
  "timers_ok p \<Longrightarrow> pu_timers p = (d, f) # rest \<Longrightarrow> \<not> dl_expired d now \<Longrightarrow> \<forall>t \<in> set rest. \<not> dl_expired (fst t) now"
  by (auto simp: timers_ok_def dl_expired_def deadline_order_defs)

text \<open>C9: the worker fires exactly the timers whose deadline has passed, each once, in the order of their deadlines
  and for one deadline in the order of their identifiers, and leaves the other timers as they were.\<close>

theorem timers_fire_in_order:
  assumes "cs_pump s = Some p" and "timers_ok p"
    and "\<forall>t \<in> set (pu_timers p). prog_acts env (ce_body env (snd t)) (eff (snd t)) Void"
  shows "\<exists>s' p'. completes env [Worker_timers now] s s' \<and>
    cs_user s' = fold (\<lambda>t. eff (snd t)) (filter (\<lambda>t. dl_expired (fst t) now) (pu_timers p)) (cs_user s) \<and>
    cs_pump s' = Some p' \<and> pu_timers p' = filter (\<lambda>t. \<not> dl_expired (fst t) now) (pu_timers p) \<and>
    sorted (map fst (filter (\<lambda>t. dl_expired (fst t) now) (pu_timers p)))"
  using assms
proof (induction "pu_timers p" arbitrary: s p)
  case Nil
  then have "steps_to env (Worker_timers now) s s []" by (simp add: steps_to_def worker_timers_def flip: Nil(1))
  with Nil show ?case by (intro exI [of _ s] exI [of _ p]) (simp add: completes_last flip: Nil(1))
next
  case (Cons t rest)
  obtain d f where t: "t = (d, f)" by fastforce
  have timers: "pu_timers p = (d, f) # rest" using Cons.hyps(2) t by simp
  have sorted: "sorted (map fst (filter (\<lambda>t. dl_expired (fst t) now) (pu_timers p)))"
    using Cons.prems(2) by (simp add: timers_ok_def sorted_filter)
  show ?case
  proof (cases "dl_expired d now")
    case True
    let ?p = "p\<lparr>pu_timers := rest, pu_executing := False\<rparr>"
    let ?s = "set_pump ?p (s\<lparr>cs_user := eff f (cs_user s), cs_value := Void\<rparr>)"
    have "timers_ok ?p" using timers_ok_tl [OF Cons.prems(2), of "(d, f)" rest] timers by simp
    then obtain s' p' where "completes env [Worker_timers now] ?s s'"
      and "cs_user s' = fold (\<lambda>t. eff (snd t)) (filter (\<lambda>t. dl_expired (fst t) now) rest) (eff f (cs_user s))"
      and "cs_pump s' = Some p'" and "pu_timers p' = filter (\<lambda>t. \<not> dl_expired (fst t) now) rest"
      using Cons.hyps(1) [of ?p ?s] Cons.prems(3) timers by auto
    moreover from this have "completes env [Worker_timers now] s s'"
      using Cons.prems timers True by (simp add: timer_fires [of s p d f rest now env "eff f"])
    ultimately show ?thesis using True timers sorted by (intro exI [of _ s'] exI [of _ p']) simp
  next
    case False
    have none: "\<forall>t \<in> set rest. \<not> dl_expired (fst t) now" by (rule timers_ok_Cons [OF Cons.prems(2) timers False])
    have "steps_to env (Worker_timers now) s s []"
      using Cons.prems(1) timers False by (simp add: steps_to_def worker_timers_def)
    with Cons.prems(1) False none timers show ?thesis
      by (intro exI [of _ s] exI [of _ p]) (simp add: completes_last filter_id_conv)
  qed
qed

section \<open>A release\<close>

lemma find_self_in:
  assumes "find_self cs = Inr k"
  obtains c where "c \<in> set cs" and "co_id c = k" and "co_port c = NULL" and "\<not> co_finished c"
  using assms by (auto simp: find_self_def self_p_def c_assert_def split: if_split_asm option.split_asm dest!: find_SomeD)

lemma remove_finished_stack:
  "c \<in> set (pu_coroutines p) \<Longrightarrow> co_finished c \<Longrightarrow> co_id c = k \<Longrightarrow> cs_stacks (remove_finished_coroutines p s) k = None"
  by (auto simp: remove_finished_coroutines_def)

text \<open>C6: when the coroutine that runs switches to one whose port it released, the released one goes on where it
  blocked: two steps later it runs behind its block, its component counts as not blocked, its port is free and is
  kept as unblocked for the calls that wait for it; the coroutine that released it is gone with its context.\<close>

theorem release_resumes_blocked:
  assumes "cs_pump s = Some p" and "contexts_ok p s" and "pu_switch p = a # rest"
    and "find_self (pu_coroutines p) = Inr b" and "cs_active s = b" and "cs_stacks s b = Some (Context_switch # below)"
    and "ca \<in> set (pu_coroutines p)" and "co_id ca = a" and "co_port ca = port" and "port \<noteq> NULL" and "\<not> co_finished ca"
    and "cs_stacks s a = Some (Block_resumed c # st)"
  shows "\<exists>s' p'. cpp_runs env s s' \<and> cs_active s' = a \<and> cs_stacks s' a = Some st \<and> cs_stacks s' b = None \<and>
    cs_pump s' = Some p' \<and> b \<notin> co_id ` set (pu_coroutines p') \<and> port \<in> set (pu_unblocked p') \<and>
    (\<exists>c' \<in> set (pu_coroutines p'). co_id c' = a \<and> co_port c' = NULL) \<and>
    pu_collateral p' = pu_collateral p \<and> blocked s' c = 0 \<and> skip_block s' c NULL"
proof -
  obtain cb where cb: "cb \<in> set (pu_coroutines p)" "co_id cb = b" "co_port cb = NULL" "\<not> co_finished cb"
    using find_self_in [OF assms(4)] .
  have inj: "inj_on co_id (set (pu_coroutines p))"
    and others: "co_id ` set (pu_coroutines p) \<inter> co_id ` set (pu_collateral p) = {}"
    using assms(2) by (auto simp: contexts_ok_def distinct_coroutine_ids distinct_map)
  have ne: "a \<noteq> b" using inj_onD [OF inj, of ca cb] assms(7-10) cb by auto
  let ?p1 = "p\<lparr>pu_switch := rest, pu_unblocked := pu_unblocked p @ [port]\<rparr>"
  let ?p2 = "on_coroutine b (\<lambda>c. c\<lparr>co_finished := True\<rparr>)
    (on_coroutine a (\<lambda>c. c\<lparr>co_component := NULL, co_port := NULL\<rparr>) ?p1)"
  let ?s1 = "(yield_to a (set_pump ?p2 s))\<lparr>cs_stacks := (cs_stacks s)(b := Some (Never # below))\<rparr>"
  let ?s2 = "set_blocked c 0 (reset_skip_block c (remove_finished_coroutines ?p2 ?s1))"
  let ?s3 = "?s2\<lparr>cs_stacks := (cs_stacks ?s2)(a := Some st)\<rparr>"
  have "get_coroutine a (p\<lparr>pu_switch := rest\<rparr>) = Inr ca"
  proof -
    have "find (\<lambda>c. co_id c = a) (pu_coroutines p @ pu_collateral p) \<noteq> None"
      using assms(7,8) by (auto simp: find_None_iff)
    then obtain c' where c': "find (\<lambda>c. co_id c = a) (pu_coroutines p @ pu_collateral p) = Some c'" by blast
    then have "c' = ca"
      using find_SomeD [OF c'] inj_onD [OF inj, of c' ca] others assms(7,8) by auto
    with c' show ?thesis by (simp add: get_coroutine_def)
  qed
  then have switch: "cpp_step env s = Inr (Some ?s1)"
    using assms by (simp add: cpp_step_def context_switch_def switch_to_def Let_def yield_to_def)
  have resume: "cpp_step env ?s1 = Inr (Some ?s3)"
    using assms(12) ne by (simp add: cpp_step_def block_resumed_def get_cpp_pump_def yield_to_def remove_finished_coroutines_def)
  have runs: "cpp_runs env s ?s3" by (rule cpp_runs_step [OF switch cpp_runs_step [OF resume cpp_runs_refl]])
  have "cb\<lparr>co_finished := True\<rparr> \<in> set (pu_coroutines ?p2)"
    using ne cb by (auto simp: on_coroutine_def image_image intro!: image_eqI [of _ _ cb])
  then have gone: "cs_stacks ?s3 b = None"
    using ne cb remove_finished_stack [of "cb\<lparr>co_finished := True\<rparr>" ?p2 b] by simp
  have "\<exists>p'. cs_pump ?s3 = Some p' \<and> b \<notin> co_id ` set (pu_coroutines p') \<and> port \<in> set (pu_unblocked p') \<and>
      (\<exists>c' \<in> set (pu_coroutines p'). co_id c' = a \<and> co_port c' = NULL) \<and> pu_collateral p' = pu_collateral p"
  proof -
    let ?p3 = "?p2\<lparr>pu_coroutines := filter (\<lambda>c. \<not> co_finished c) (pu_coroutines ?p2)\<rparr>"
    have "a \<notin> co_id ` set (pu_collateral p)" "b \<notin> co_id ` set (pu_collateral p)"
      using others assms(7,8) cb by auto
    then have "pu_collateral ?p3 = pu_collateral p"
      by (auto simp: on_coroutine_def o_def intro!: map_idI)
    moreover have "\<forall>c \<in> set (pu_coroutines ?p3). co_id c \<noteq> b" by (auto simp: on_coroutine_def split: if_splits)
    then have "b \<notin> co_id ` set (pu_coroutines ?p3)" by blast
    moreover have "ca\<lparr>co_component := NULL, co_port := NULL\<rparr> \<in> set (pu_coroutines ?p3)"
      using assms(7,8,11) ne by (auto simp: on_coroutine_def intro!: image_eqI [of _ _ ca])
    moreover have "cs_pump ?s3 = Some ?p3" by (simp add: remove_finished_coroutines_def)
    moreover have "port \<in> set (pu_unblocked ?p3)" by simp
    ultimately show ?thesis using assms(8) by (intro exI [of _ ?p3]) fastforce
  qed
  then obtain p' where lists: "cs_pump ?s3 = Some p'" "b \<notin> co_id ` set (pu_coroutines p')" "port \<in> set (pu_unblocked p')"
    "\<exists>c' \<in> set (pu_coroutines p'). co_id c' = a \<and> co_port c' = NULL" "pu_collateral p' = pu_collateral p"
    by blast
  have "cs_active ?s3 = a" by (simp add: remove_finished_coroutines_def yield_to_def)
  moreover have "cs_stacks ?s3 a = Some st" by simp
  moreover have "blocked ?s3 c = 0" "skip_block ?s3 c NULL"
    by (simp_all add: blocked_def skip_block_def set_blocked_def reset_skip_block_def)
  ultimately show ?thesis using runs gone lists by blast
qed

section \<open>Several calls waiting for one component\<close>

lemma relay_loop_filter:
  "relay_loop unblocked component cs moved have =
     (filter (\<lambda>c. \<not> relay_p unblocked component c) cs,
      moved @ map (\<lambda>c. c\<lparr>co_component := NULL, co_port := NULL\<rparr>) (filter (relay_p unblocked component) cs),
      have \<or> (\<exists>c \<in> set cs. relay_p unblocked component c))"
  by (induction unblocked component cs moved "have" rule: relay_loop.induct) auto

lemma find_self_two:
  assumes "2 \<le> length (filter self_p cs)"
  shows "find_self cs = Inl (AssertFailed ''count == 1'')"
  using assms by (simp add: find_self_def c_assert_def)

text \<open>C10: when a coroutine blocks in a component for which two or more calls wait on ports that have been unblocked,
  the block moves all of them among the coroutines that can run, and from then on the assertion that exactly one
  of those is the running one fails: whoever asks for the coroutine next is stopped.\<close>

theorem block_relays_two_fails:
  assumes "cs_pump s = Some p" and "\<not> skip_block s component port"
    and "2 \<le> length (filter (relay_p (pu_unblocked p) component) (pu_collateral p))"
    and "\<forall>c \<in> set (pu_collateral p). \<not> co_finished c \<and> co_id c \<noteq> self"
    and "block_skip self component port s = Inr (s', frames)"
  shows "cpp_coroutine_id s' = Inl (AssertFailed ''count == 1'')"
proof -
  let ?b = "on_coroutine self (\<lambda>c. c\<lparr>co_port := port\<rparr>) p"
  let ?relayed = "filter (relay_p (pu_unblocked p) component) (rev (pu_collateral p))"
  let ?moved = "map (\<lambda>c. c\<lparr>co_component := NULL, co_port := NULL\<rparr>) ?relayed"
  let ?q = "?b\<lparr>pu_coroutines := pu_coroutines ?b @ ?moved,
    pu_collateral := rev (filter (\<lambda>c. \<not> relay_p (pu_unblocked p) component c) (rev (pu_collateral p)))\<rparr>"
  have "map (\<lambda>c. if co_id c = self then c\<lparr>co_port := port\<rparr> else c) (pu_collateral p) = pu_collateral p"
    using assms(4) by (intro map_idI) auto
  then have same: "pu_collateral ?b = pu_collateral p" by (simp add: on_coroutine_def)
  have len: "2 \<le> length ?relayed" using assms(3) by (simp add: rev_filter [symmetric])
  then have "?relayed \<noteq> []" by auto
  then have "\<exists>c \<in> set (rev (pu_collateral p)). relay_p (pu_unblocked p) component c"
    by (simp add: filter_empty_conv)
  then have "collateral_release_skip_block component ?b = (?q, True)"
    by (simp add: collateral_release_skip_block_def relay_loop_filter same)
  then have "\<exists>s1. yield_to_back ?q (set_pump ?q s) = Inr s1 \<and> s' = s1"
    using assms(1,2,5) by (auto simp: block_skip_def Let_def)
  then have "cs_pump s' = Some ?q" by (auto simp: yield_to_back_def yield_to_def split: if_splits)
  moreover have "filter self_p ?moved = ?moved"
    using assms(4) by (auto simp: filter_id_conv self_p_def)
  then have "2 \<le> length (filter self_p (pu_coroutines ?q))" using len by simp
  ultimately show ?thesis by (simp add: cpp_coroutine_id_def find_self_two)
qed

end
