(* ===== verification/Cpp_Examples.thy ===== *)
theory Cpp_Examples
  imports Cpp_Pump_Laws
begin

text \<open>
  A component with a blocking port, run on the C++ runtime with and without a pump: concrete states for the
  properties of \<open>Cpp_Laws\<close> and \<open>Cpp_Pump_Laws\<close>, and the run in which four calls wait for one port.
\<close>

section \<open>A component\<close>

text \<open>Component 5 provides port 51; event 1 comes in on it, event 2 comes out of a port it requires.\<close>

definition provided :: cpp_port_meta where
  "provided = \<lparr>provide_name = ''p'', provide_port = 51, provide_component = 5, provide_meta = Some (Dzn_meta ''sut'' None),
     require_name = ''p'', require_port = 61, require_component = NULL, require_meta = None\<rparr>"

definition required :: cpp_port_meta where
  "required = \<lparr>provide_name = ''r'', provide_port = 62, provide_component = NULL, provide_meta = None,
     require_name = ''r'', require_port = 52, require_component = 5, require_meta = Some (Dzn_meta ''sut'' None)\<rparr>"

definition plain_event :: "event_kind \<Rightarrow> nat cpp_event" where
  "plain_event kind = \<lparr>ev_kind = kind, ev_binding = Unbound, ev_out_binding = None, ev_strict = False, ev_reply = Void,
     ev_port = NULL, ev_other = None, ev_meta = None, ev_component = NULL, ev_name = []\<rparr>"

definition in_event :: "nat cpp_event" where
  "in_event = event_assign 1 7 (event_set 5 51 provided ''e'' (plain_event In_typed))"

definition out_event :: "nat cpp_event" where
  "out_event = event_assign 2 3 (event_set 5 52 required ''a'' (plain_event Out_void))"

definition events :: "nat cpp_event store" where
  "events = set_obj 2 (Some out_event) (set_obj 1 (Some in_event) empty_store)"

text \<open>What functions do; the user's state is the list of the functions that ran.\<close>

definition blocking_body :: "nat \<Rightarrow> (nat, unit, nat list) cpp_prog" where
  "blocking_body f =
     (if f = 7 then Local (\<lambda>u. u @ [7]) (\<lambda>_. Call (Port_block 5 51) (\<lambda>_. Return (Bool_reply True)))
      else if f = 11 then Call (Call_event 1) (\<lambda>_. Return Void)
      else if f = 12 then Call (Port_release 5 51) (\<lambda>_. Return Void)
      else Local (\<lambda>u. u @ [f]) (\<lambda>_. Return Void))"

definition blocking_env :: "(nat, unit, nat list) cpp_env" where
  "blocking_env = \<lparr>ce_body = blocking_body, ce_holds = (\<lambda>_ _. True), ce_update = (\<lambda>_ _. Return Void)\<rparr>"

definition plain_env :: "(nat, unit, nat list) cpp_env" where
  "plain_env = \<lparr>ce_body = (\<lambda>f. Local (\<lambda>u. u @ [f]) (\<lambda>_. Return Void)), ce_holds = (\<lambda>_ _. True),
     ce_update = (\<lambda>_ _. Return Void)\<rparr>"

definition native_state :: "addr \<Rightarrow> nat rt_state" where
  "native_state c = (if c = 5 then empty_state\<lparr>st_native := True\<rparr> else empty_state)"

definition idle_sys :: "(nat, unit, nat list) cpp_sys" where
  "idle_sys = \<lparr>cs_states = native_state, cs_activity = (\<lambda>_. 0), cs_defer = False, cs_events = events, cs_labels = (\<lambda>_. []),
     cs_require = (\<lambda>_. []), cs_pump = None, cs_user = [], cs_os = [], cs_clock = 0,
     cs_stacks = (\<lambda>k. if k = 0 then Some [Pump_begin] else None), cs_active = 0, cs_value = Void\<rparr>"

definition idle_pump :: "nat list \<Rightarrow> (nat, unit) cpp_pump" where
  "idle_pump q = \<lparr>pu_wait_for_timeouts = False, pu_unblocked = [], pu_running = True, pu_executing = False, pu_paused = False,
     pu_coroutines = [], pu_collateral = [], pu_current = 0, pu_queue = q, pu_deferred = [], pu_timers = [], pu_switch = []\<rparr>"

lemmas example_defs =
  provided_def required_def plain_event_def in_event_def out_event_def events_def plain_env_def native_state_def
  idle_sys_def idle_pump_def empty_state_def event_assign_def event_set_def empty_store_def

lemma plain_acts: "prog_acts plain_env (ce_body plain_env f) (\<lambda>u. u @ [f]) Void"
  using prog_acts_Local [of plain_env "\<lambda>_. Return Void" "\<lambda>u. u @ [f]" "\<lambda>_ u. u" Void] prog_acts_Return [of plain_env Void]
  by (simp add: plain_env_def)

lemma plain_quiet: "quiet plain_env (\<lambda>_ _ u. u)"
  using prog_acts_Return [of plain_env Void] by (simp add: quiet_def plain_env_def)

lemma load_events: "load events 1 = Inr in_event" "load events 2 = Inr out_event"
  by (simp_all add: events_def)

lemma check_events: "check_event in_event = Inr provided" "check_event out_event = Inr required"
  by (simp_all add: check_event_def example_defs)

section \<open>Without a pump\<close>

text \<open>A typed handler: it returns \<open>true\<close>.\<close>

definition typed_env :: "(nat, unit, nat list) cpp_env" where
  "typed_env = plain_env\<lparr>ce_body := (\<lambda>f. Local (\<lambda>u. u @ [f]) (\<lambda>_. Return (Bool_reply True)))\<rparr>"

lemma typed_acts: "prog_acts typed_env (ce_body typed_env f) (\<lambda>u. u @ [f]) (Bool_reply True)"
  using prog_acts_Local [of typed_env "\<lambda>_. Return (Bool_reply True)" "\<lambda>u. u @ [f]" "\<lambda>_ u. u" "Bool_reply True"]
    prog_acts_Return [of typed_env "Bool_reply True"]
  by (simp add: typed_env_def)

lemma typed_quiet: "quiet typed_env (\<lambda>_ _ u. u)"
  using prog_acts_Return [of typed_env Void] by (simp add: quiet_def typed_env_def plain_env_def)

theorem in_event_returns_witness:
  "\<exists>s'. completes typed_env [Invoke (Bound 1 7)] idle_sys s' \<and>
     cs_os s' = ''<external>.p.e -> sut.p.e'' @ endl @ ''<external>.p.true <- sut.p.true'' @ endl \<and>
     cs_user s' = [7] \<and> cs_value s' = Bool_reply True"
proof -
  have "handling idle_sys (provide_component provided) = 0" "rt_queue_of idle_sys (provide_component provided) = []"
    by (simp_all add: handling_def rt_queue_of_def example_defs)
  then show ?thesis
    using in_event_returns [of idle_sys 1 in_event provided typed_env "\<lambda>_ _ u. u" 7 "\<lambda>u. u @ [7]" "Bool_reply True" "[]"
        "\<lambda>_ u. u"] load_events(1) check_events(1) typed_acts [of 7] typed_quiet
    by (auto simp: idle_sys_def in_event_def event_assign_def event_set_def plain_event_def provided_def trace_in_def
        trace_out_def reply_text_def bool_to_string_def endl_def simp del: load_Inr_iff)
qed

theorem external_event_delivered_witness:
  "\<exists>s'. completes plain_env [Invoke (Bound 2 3)] idle_sys s' \<and>
     cs_os s' = ''sut.<q> <- <external>.r.a'' @ endl @ ''sut.r.a <- sut.<q>'' @ endl \<and>
     cs_user s' = [3] \<and> cs_labels s' 52 = ''<flush>'' \<and> rt_queue_of s' 5 = []"
proof -
  have "handling idle_sys 5 = 0" "\<not> performs_flush idle_sys 5" "rt_queue_of idle_sys 5 = []" "deferred_target idle_sys 5 = NULL"
    "deferred_flush idle_sys NULL = None"
    by (simp_all add: accessor_defs example_defs)
  then show ?thesis
    using external_event_delivered [of idle_sys 2 out_event required plain_env "\<lambda>_ _ u. u" 3 "\<lambda>u. u @ [3]"]
      load_events(2) check_events(2) plain_acts [of 3] plain_quiet
    by (auto simp: idle_sys_def out_event_def event_assign_def event_set_def plain_event_def required_def trace_qin_def
        trace_qout_def endl_def flush_user_def flush_ports_def label_user_def set_label_def simp del: load_Inr_iff)
qed

text \<open>Two events wait in the queue of component 5, and the label of a flush is pending.\<close>

definition queued_sys :: "(nat, unit, nat list) cpp_sys" where
  "queued_sys = set_queue 5 [Event_closure 2 5 3, Event_closure 2 5 4]
     (set_deferred_flush 5 (Some (Flush_closure 2 NULL)) idle_sys)"

theorem cpp_flush_delivers_witness:
  "\<exists>s'. completes plain_env [Flush 5 1 False] queued_sys s' \<and> rt_queue_of s' 5 = [] \<and> cs_user s' = [3, 4] \<and>
     cs_labels s' 52 = ''<flush>'' \<and> cs_os s' = ''sut.r.a <- sut.<q>'' @ endl @ ''sut.r.a <- sut.<q>'' @ endl"
proof -
  let ?s = queued_sys
  have "rt_queue_of ?s 5 = [Event_closure 2 5 3, Event_closure 2 5 4]" "cs_pump ?s = None" "\<not> cs_defer ?s"
    "deferred_flush ?s 5 = Some (Flush_closure 2 NULL)" "cs_events ?s = events" "cs_user ?s = []" "cs_os ?s = []"
    "deferred_target ?s 5 = NULL" "deferred_flush ?s NULL = None" "cs_labels ?s = (\<lambda>_. [])"
    by (simp_all add: queued_sys_def accessor_defs idle_sys_def native_state_def empty_state_def)
  moreover have "\<forall>x \<in> {Event_closure 2 5 3, Event_closure 2 5 4}. deliverable plain_env (\<lambda>f u. u @ [f]) events 5 x"
    using plain_acts load_events(2) check_events(2) by (auto simp del: load_Inr_iff)
  ultimately show ?thesis
    using cpp_flush_delivers [of ?s 5 "Event_closure 2 5 3" "[Event_closure 2 5 4]" plain_env "\<lambda>f u. u @ [f]" "\<lambda>_ _ u. u" 2 NULL
        out_event 1] load_events(2) check_events(2) plain_quiet
    by (auto simp: out_event_def event_assign_def event_set_def plain_event_def required_def trace_qout_def endl_def
        flush_user_def flush_ports_def label_user_def set_label_def simp del: load_Inr_iff)
qed

section \<open>With a pump\<close>

definition pump_sys :: "nat list \<Rightarrow> (nat, unit, nat list) cpp_sys" where
  "pump_sys q = set_pump (idle_pump q) idle_sys"

lemma cpp_run_reaches:
  "cpp_reaches env start s \<Longrightarrow> cpp_run n env s = Inr s' \<Longrightarrow> cpp_reaches env start s'"
proof (induction n arbitrary: s)
  case (Suc n)
  then show ?case by (auto split: option.split_asm intro: cpp_reaches_step)
qed simp

lemma pump_sys_inv: "cpp_inv (pump_sys q)"
  by (simp add: cpp_inv_def timers_ok_def contexts_ok_def coroutine_ids_def pump_sys_def idle_sys_def idle_pump_def)

text \<open>Two calls; the first blocks, and the second waits for it in another coroutine.\<close>

lemma blocked_runs: "\<not> isl (cpp_run 33 blocking_env (pump_sys [11, 11]))"
  by code_simp

theorem pump_invariant_witness:
  "cpp_inv (projr (cpp_run 33 blocking_env (pump_sys [11, 11])))"
proof -
  obtain s where s: "cpp_run 33 blocking_env (pump_sys [11, 11]) = Inr s"
    using blocked_runs by (cases "cpp_run 33 blocking_env (pump_sys [11, 11])") auto
  then have "cpp_reaches blocking_env (pump_sys [11, 11]) s"
    by (rule cpp_run_reaches [OF cpp_reaches_start])
  then have "cpp_inv s" using pump_sys_inv by (rule pump_invariant)
  with s show ?thesis by simp
qed

text \<open>Three timers, of which two have expired at time 6.\<close>

definition timer_pump :: "(nat, unit) cpp_pump" where
  "timer_pump = (idle_pump [])\<lparr>pu_timers := [(Deadline 4 9, 2), (Deadline 5 3, 3), (Deadline 8 2, 4)]\<rparr>"

theorem timers_fire_in_order_witness:
  "\<exists>s'. completes plain_env [Worker_timers 6] (set_pump timer_pump idle_sys) s' \<and> cs_user s' = [2, 3]"
proof -
  have "timers_ok timer_pump"
    by (simp add: timers_ok_def timer_pump_def deadline_order_defs)
  moreover have "prog_acts plain_env (ce_body plain_env (snd t)) (\<lambda>u. u @ [snd t]) Void" for t :: "deadline \<times> nat"
    by (rule plain_acts)
  ultimately show ?thesis
    using timers_fire_in_order [of "set_pump timer_pump idle_sys" timer_pump plain_env "\<lambda>f u. u @ [f]" 6]
    by (auto simp: timer_pump_def dl_expired_def idle_sys_def)
qed

text \<open>Coroutine 1 is blocked on port 51 in component 5, coroutine 2 has released it.\<close>

definition waiting :: "nat \<Rightarrow> addr \<Rightarrow> addr \<Rightarrow> cpp_coroutine" where
  "waiting k c port = \<lparr>co_id = k, co_component = c, co_port = port, co_finished = False, co_skip_block = False\<rparr>"

definition released_pump :: "(nat, unit) cpp_pump" where
  "released_pump = (idle_pump [])\<lparr>pu_coroutines := [waiting 1 NULL 51, waiting 2 NULL NULL], pu_current := 2, pu_switch := [1]\<rparr>"

definition released_sys :: "(nat, unit, nat list) cpp_sys" where
  "released_sys = (set_pump released_pump idle_sys)\<lparr>cs_active := 2, cs_stacks := (\<lambda>k. if k = 0 then Some [Pump_called]
     else if k = 1 then Some [Block_resumed 5, Then (\<lambda>_. Return Void), Executed, Worker_deferred]
     else if k = 2 then Some [Context_switch, Context_loop 2] else None)\<rparr>"

theorem release_resumes_blocked_witness:
  "\<exists>s'. cpp_runs blocking_env released_sys s' \<and> cs_active s' = 1 \<and> cs_stacks s' 2 = None \<and> blocked s' 5 = 0"
proof -
  have "contexts_ok released_pump released_sys"
    by (auto simp: contexts_ok_def coroutine_ids_def released_pump_def released_sys_def waiting_def idle_pump_def)
  moreover have "find_self (pu_coroutines released_pump) = Inr 2" by code_simp
  ultimately show ?thesis
    using release_resumes_blocked [of released_sys released_pump 1 "[]" 2 "[Context_loop 2]" "waiting 1 NULL 51" 51 5
        "[Then (\<lambda>_. Return Void), Executed, Worker_deferred]" blocking_env]
    by (auto simp: released_sys_def released_pump_def waiting_def)
qed

text \<open>Coroutine 2 blocks in component 5 on port 51, which has been released; coroutines 3 and 4 waited for it.\<close>

definition relay_pump :: "(nat, unit) cpp_pump" where
  "relay_pump = (idle_pump [])\<lparr>pu_coroutines := [waiting 2 NULL NULL], pu_collateral := [waiting 3 5 51, waiting 4 5 51],
     pu_current := 4, pu_unblocked := [51]\<rparr>"

theorem block_relays_two_fails_witness:
  "\<exists>s'. block_skip 2 5 51 (set_pump relay_pump idle_sys) = Inr (s', [Block_resumed 5]) \<and>
     cpp_coroutine_id s' = Inl (AssertFailed ''count == 1'')"
proof -
  let ?s = "set_pump relay_pump idle_sys"
  have "\<not> skip_block ?s 5 51" by (simp add: skip_block_def idle_sys_def native_state_def empty_state_def)
  moreover have "2 \<le> length (filter (relay_p (pu_unblocked relay_pump) 5) (pu_collateral relay_pump))" by code_simp
  moreover have "\<forall>c \<in> set (pu_collateral relay_pump). \<not> co_finished c \<and> co_id c \<noteq> 2"
    by (simp add: relay_pump_def waiting_def)
  moreover obtain s' where block: "block_skip 2 5 51 ?s = Inr (s', [Block_resumed 5])"
    using \<open>\<not> skip_block ?s 5 51\<close>
    by (simp add: block_skip_def get_cpp_pump_def collateral_release_skip_block_def relay_pump_def on_coroutine_def
        waiting_def relay_p_def yield_to_back_def yield_to_def Let_def)
  ultimately show ?thesis
    using block_relays_two_fails [of ?s relay_pump 5 51 2 s' "[Block_resumed 5]"] by auto
qed

end
