(* ===== verification/Cpp_Context.thy ===== *)
theory Cpp_Context
  imports Prelude
begin

text \<open>
  \<open>runtime/c++/dzn/context.hh\<close>: a coroutine is a thread that hands control over with a mutex and a condition
  variable of its context.  Every thread is a program counter; a step of the system is a step of one thread
  between two operations on a mutex, so that the steps of all threads interleave.

  A thread that waits on the condition variable of a context stays there until it is notified, and then has to lock
  the mutex again: \<open>notify_one\<close> picks one of the threads that wait, and is lost when none does.  The standard also
  lets a thread wake for no reason; such a wake-up is a relation of its own, \<open>ctx_spurious\<close>.  What is safe is safe
  with these wake-ups (\<open>ctx_reaches\<close> has both); progress is made by \<open>ctx_step\<close> alone, so that it rests on the
  notifications.

  Context \<open>k\<close> is the one whose function thread \<open>k\<close> runs.  \<open>cx_owner k\<close> is the thread that holds the mutex of
  context \<open>k\<close>; \<open>cx_thrown\<close> is set when \<open>do_release\<close> throws.  Thread 0 is the pump's own, which only makes calls;
  the others yield, and leave when their function returns.
\<close>

section \<open>States and program counters\<close>

datatype ctx_state = INITIAL | RELEASED | BLOCKED | FINAL

datatype ctx_pc =
    Absent
  | Start_lock
  | Running
  | Yield_lock nat
  | Yield_target nat
  | Yield_release nat
  | Block_enter
  | Waiting
  | Notified
  | Woken
  | Call_lock nat
  | Call_release nat
  | Call_enter nat
  | Exit_lock nat
  | Leave_lock
  | Finish_lock nat
  | Finish_notify nat
  | Finish_wait nat
  | Create_lock nat
  | Create_wait nat
  | Ended

record ctx_sys =
  cx_state :: "nat \<Rightarrow> ctx_state"
  cx_owner :: "nat \<Rightarrow> nat option"
  cx_pc :: "nat \<Rightarrow> ctx_pc"
  cx_thrown :: bool

definition goto :: "nat \<Rightarrow> ctx_pc \<Rightarrow> ctx_sys \<Rightarrow> ctx_sys" where
  "goto k pc s = s\<lparr>cx_pc := (cx_pc s)(k := pc)\<rparr>"

definition lock :: "nat \<Rightarrow> nat \<Rightarrow> ctx_sys \<Rightarrow> ctx_sys" where
  "lock k m s = s\<lparr>cx_owner := (cx_owner s)(m := Some k)\<rparr>"

definition unlock :: "nat \<Rightarrow> ctx_sys \<Rightarrow> ctx_sys" where
  "unlock m s = s\<lparr>cx_owner := (cx_owner s)(m := None)\<rparr>"

definition set_ctx :: "nat \<Rightarrow> ctx_state \<Rightarrow> ctx_sys \<Rightarrow> ctx_sys" where
  "set_ctx k st s = s\<lparr>cx_state := (cx_state s)(k := st)\<rparr>"

definition free :: "ctx_sys \<Rightarrow> nat \<Rightarrow> bool" where
  "free s m \<longleftrightarrow> cx_owner s m = None"

text \<open>A context that can be resumed or finished: it exists and its thread has not ended.\<close>

definition alive :: "ctx_sys \<Rightarrow> nat \<Rightarrow> bool" where
  "alive s j \<longleftrightarrow> cx_state s j \<noteq> FINAL \<and> cx_pc s j \<noteq> Absent \<and> cx_pc s j \<noteq> Start_lock"

section \<open>Condition variables\<close>

text \<open>The context on whose condition variable thread \<open>i\<close> waits: its own, or the one it has just made.\<close>

fun waiting_for :: "nat \<Rightarrow> ctx_pc \<Rightarrow> nat option" where
  "waiting_for i Waiting = Some i"
| "waiting_for i (Create_wait j) = Some j"
| "waiting_for i _ = None"

fun woken_pc :: "ctx_pc \<Rightarrow> ctx_pc" where
  "woken_pc Waiting = Notified"
| "woken_pc (Create_wait j) = Create_lock j"
| "woken_pc pc = pc"

definition waits :: "ctx_sys \<Rightarrow> nat \<Rightarrow> nat \<Rightarrow> bool" where
  "waits s m i \<longleftrightarrow> waiting_for i (cx_pc s i) = Some m"

definition wake :: "nat \<Rightarrow> ctx_sys \<Rightarrow> ctx_sys" where
  "wake i s = goto i (woken_pc (cx_pc s i)) s"

text \<open>\<open>notify_one\<close> with the thread it picks, and which threads it may pick; \<open>notify_all\<close>.\<close>

definition notify_one :: "nat option \<Rightarrow> ctx_sys \<Rightarrow> ctx_sys" where
  "notify_one w s = (case w of None \<Rightarrow> s | Some i \<Rightarrow> wake i s)"

definition may_notify :: "ctx_sys \<Rightarrow> nat \<Rightarrow> nat option \<Rightarrow> bool" where
  "may_notify s m w \<longleftrightarrow> (case w of None \<Rightarrow> \<forall>i. \<not> waits s m i | Some i \<Rightarrow> waits s m i)"

definition notify_all :: "nat \<Rightarrow> ctx_sys \<Rightarrow> ctx_sys" where
  "notify_all m s = s\<lparr>cx_pc := (\<lambda>i. if waits s m i then woken_pc (cx_pc s i) else cx_pc s i)\<rparr>"

section \<open>Operations\<close>

text \<open>\<open>do_release\<close> of context \<open>j\<close>, with its mutex held.\<close>

definition do_release :: "nat option \<Rightarrow> nat \<Rightarrow> ctx_sys \<Rightarrow> ctx_sys" where
  "do_release w j s =
     (if cx_state s j \<noteq> BLOCKED then s\<lparr>cx_thrown := True\<rparr> else notify_one w (set_ctx j RELEASED s))"

text \<open>\<open>do_block\<close> up to the wait, which releases the mutex.\<close>

definition do_block :: "nat option \<Rightarrow> nat \<Rightarrow> ctx_sys \<Rightarrow> ctx_sys" where
  "do_block w k s = goto k Waiting (unlock k (notify_one w (set_ctx k BLOCKED s)))"

text \<open>The end of \<open>do_block\<close>, with the mutex held again: wait again, unwind, or go on.\<close>

definition do_block_woken :: "nat \<Rightarrow> ctx_sys \<Rightarrow> ctx_sys" where
  "do_block_woken k s =
     goto k (case cx_state s k of BLOCKED \<Rightarrow> Waiting | FINAL \<Rightarrow> Ended | _ \<Rightarrow> Running) (unlock k s)"

text \<open>\<open>do_finish\<close> of context \<open>j\<close> up to the notification: its mutex is locked and given up at once.\<close>

definition do_finish :: "nat \<Rightarrow> ctx_sys \<Rightarrow> ctx_sys" where
  "do_finish j s = set_ctx j FINAL s"

text \<open>A thread whose function has returned locks its mutex and waits to be used again, unless it was finished.\<close>

definition leave_locked :: "nat \<Rightarrow> ctx_sys \<Rightarrow> ctx_sys" where
  "leave_locked k s = (if cx_state s k = FINAL then goto k Ended s else goto k Block_enter (lock k k s))"

text \<open>\<open>yield\<close>, \<open>call\<close>, \<open>release\<close> and \<open>finish\<close>, each with the thread \<open>k\<close> that calls it and the other context \<open>j\<close>.\<close>

definition ctx_yield :: "nat \<Rightarrow> nat \<Rightarrow> ctx_sys \<Rightarrow> ctx_sys" where
  "ctx_yield k j s = (if j = k then s else goto k (Yield_lock j) s)"

definition yield_release :: "nat option \<Rightarrow> nat \<Rightarrow> nat \<Rightarrow> ctx_sys \<Rightarrow> ctx_sys" where
  "yield_release w k j s = goto k Block_enter (unlock j (do_release w j s))"

definition call_enter :: "nat \<Rightarrow> nat \<Rightarrow> ctx_sys \<Rightarrow> ctx_sys" where
  "call_enter k j s = goto k Waiting (unlock j (set_ctx k BLOCKED s))"

definition exit_release :: "nat option \<Rightarrow> nat \<Rightarrow> nat \<Rightarrow> ctx_sys \<Rightarrow> ctx_sys" where
  "exit_release w k j s = goto k Leave_lock (do_release w j s)"

text \<open>The constructor of context \<open>j\<close>, with its mutex held: it waits until the new thread blocks.\<close>

definition create_check :: "nat \<Rightarrow> nat \<Rightarrow> ctx_sys \<Rightarrow> ctx_sys" where
  "create_check k j s = goto k (if cx_state s j = BLOCKED then Running else Create_wait j) s"

inductive ctx_step :: "ctx_sys \<Rightarrow> ctx_sys \<Rightarrow> bool" where
  step_yield: "cx_pc s k = Running \<Longrightarrow> k \<noteq> 0 \<Longrightarrow> alive s j \<Longrightarrow> ctx_step s (ctx_yield k j s)"
| step_yield_lock: "cx_pc s k = Yield_lock j \<Longrightarrow> free s k \<Longrightarrow> ctx_step s (goto k (Yield_target j) (lock k k s))"
| step_yield_target: "cx_pc s k = Yield_target j \<Longrightarrow> free s j \<Longrightarrow> ctx_step s (goto k (Yield_release j) (lock k j s))"
| step_yield_release: "cx_pc s k = Yield_release j \<Longrightarrow> may_notify s j w \<Longrightarrow> ctx_step s (yield_release w k j s)"
| step_block: "cx_pc s k = Block_enter \<Longrightarrow> may_notify s k w \<Longrightarrow> ctx_step s (do_block w k s)"
| step_wake: "cx_pc s k = Notified \<Longrightarrow> free s k \<Longrightarrow> ctx_step s (goto k Woken (lock k k s))"
| step_woken: "cx_pc s k = Woken \<Longrightarrow> ctx_step s (do_block_woken k s)"
| step_call: "cx_pc s k = Running \<Longrightarrow> k = 0 \<Longrightarrow> alive s j \<Longrightarrow> j \<noteq> k \<Longrightarrow> ctx_step s (goto k (Call_lock j) s)"
| step_call_lock: "cx_pc s k = Call_lock j \<Longrightarrow> free s j \<Longrightarrow> ctx_step s (goto k (Call_release j) (lock k j s))"
| step_call_release: "cx_pc s k = Call_release j \<Longrightarrow> may_notify s j w \<Longrightarrow>
     ctx_step s (goto k (Call_enter j) (do_release w j s))"
| step_call_enter: "cx_pc s k = Call_enter j \<Longrightarrow> free s k \<Longrightarrow> ctx_step s (call_enter k j s)"
| step_exit: "cx_pc s k = Running \<Longrightarrow> k \<noteq> 0 \<Longrightarrow> alive s j \<Longrightarrow> j \<noteq> k \<Longrightarrow> ctx_step s (goto k (Exit_lock j) s)"
| step_exit_release: "cx_pc s k = Exit_lock j \<Longrightarrow> free s j \<Longrightarrow> may_notify s j w \<Longrightarrow> ctx_step s (exit_release w k j s)"
| step_leave: "cx_pc s k = Leave_lock \<Longrightarrow> free s k \<Longrightarrow> ctx_step s (leave_locked k s)"
| step_finish: "cx_pc s k = Running \<Longrightarrow> alive s j \<Longrightarrow> j \<noteq> 0 \<Longrightarrow> j \<noteq> k \<Longrightarrow> ctx_step s (goto k (Finish_lock j) s)"
| step_finish_lock: "cx_pc s k = Finish_lock j \<Longrightarrow> free s j \<Longrightarrow> ctx_step s (goto k (Finish_notify j) (do_finish j s))"
| step_finish_notify: "cx_pc s k = Finish_notify j \<Longrightarrow> ctx_step s (goto k (Finish_wait j) (notify_all j s))"
| step_finish_wait: "cx_pc s k = Finish_wait j \<Longrightarrow> cx_pc s j = Ended \<Longrightarrow> ctx_step s (goto k Running s)"
| step_create: "cx_pc s k = Running \<Longrightarrow> cx_pc s j = Absent \<Longrightarrow>
     ctx_step s (goto k (Create_lock j) (goto j Start_lock s))"
| step_start: "cx_pc s k = Start_lock \<Longrightarrow> free s k \<Longrightarrow> ctx_step s (goto k Block_enter (lock k k s))"
| step_created: "cx_pc s k = Create_lock j \<Longrightarrow> free s j \<Longrightarrow> ctx_step s (create_check k j s)"

inductive ctx_spurious :: "ctx_sys \<Rightarrow> ctx_sys \<Rightarrow> bool" where
  spurious_wake: "waits s m i \<Longrightarrow> ctx_spurious s (wake i s)"

inductive ctx_reaches :: "ctx_sys \<Rightarrow> ctx_sys \<Rightarrow> bool" for start where
  ctx_reaches_start: "ctx_reaches start start"
| ctx_reaches_step: "ctx_reaches start s \<Longrightarrow> ctx_step s s' \<Longrightarrow> ctx_reaches start s'"
| ctx_reaches_spurious: "ctx_reaches start s \<Longrightarrow> ctx_spurious s s' \<Longrightarrow> ctx_reaches start s'"

text \<open>The thread of the pump runs, no other context exists.\<close>

definition ctx_init :: ctx_sys where
  "ctx_init = \<lparr>cx_state = (\<lambda>_. INITIAL), cx_owner = (\<lambda>_. None), cx_pc = (\<lambda>k. if k = 0 then Running else Absent),
     cx_thrown = False\<rparr>"

section \<open>Exactly one runs\<close>

text \<open>What the program counter of thread \<open>k\<close> says when \<open>t\<close> is the one that runs or has been told to run.
  A finish can meet a context that is leaving; it then waits for it to block and unwind.\<close>

definition active_state :: "ctx_sys \<Rightarrow> nat \<Rightarrow> bool" where
  "active_state s k \<longleftrightarrow> cx_state s k = INITIAL \<or> cx_state s k = RELEASED"

fun pc_ok :: "ctx_sys \<Rightarrow> nat \<Rightarrow> nat \<Rightarrow> ctx_pc \<Rightarrow> bool" where
  "pc_ok s t k Absent \<longleftrightarrow> k \<noteq> t \<and> cx_state s k = INITIAL"
| "pc_ok s t k Start_lock \<longleftrightarrow> k \<noteq> t \<and> cx_state s k = INITIAL \<and> cx_pc s t \<in> {Create_lock k, Create_wait k}"
| "pc_ok s t k Running \<longleftrightarrow> k = t \<and> active_state s k"
| "pc_ok s t k (Yield_lock j) \<longleftrightarrow> k = t \<and> active_state s k \<and> j \<noteq> k \<and> alive s j"
| "pc_ok s t k (Yield_target j) \<longleftrightarrow> k = t \<and> active_state s k \<and> j \<noteq> k \<and> alive s j \<and> cx_owner s k = Some k"
| "pc_ok s t k (Yield_release j) \<longleftrightarrow>
     k = t \<and> active_state s k \<and> j \<noteq> k \<and> alive s j \<and> cx_owner s k = Some k \<and> cx_owner s j = Some k"
| "pc_ok s t k Block_enter \<longleftrightarrow> k \<noteq> t \<and> cx_state s k \<noteq> BLOCKED \<and> cx_owner s k = Some k"
| "pc_ok s t k Waiting \<longleftrightarrow>
     k \<noteq> t \<and> (cx_state s k = BLOCKED \<or> (cx_state s k = FINAL \<and> cx_pc s t = Finish_notify k))"
| "pc_ok s t k Notified \<longleftrightarrow> cx_state s k \<noteq> INITIAL \<and> (k = t \<longleftrightarrow> cx_state s k = RELEASED)"
| "pc_ok s t k Woken \<longleftrightarrow> cx_state s k \<noteq> INITIAL \<and> (k = t \<longleftrightarrow> cx_state s k = RELEASED) \<and> cx_owner s k = Some k"
| "pc_ok s t k (Call_lock j) \<longleftrightarrow> k = t \<and> active_state s k \<and> j \<noteq> k \<and> alive s j"
| "pc_ok s t k (Call_release j) \<longleftrightarrow> k = t \<and> active_state s k \<and> j \<noteq> k \<and> alive s j \<and> cx_owner s j = Some k"
| "pc_ok s t k (Call_enter j) \<longleftrightarrow>
     k \<noteq> t \<and> j = t \<and> active_state s k \<and> cx_owner s j = Some k \<and> cx_pc s j = Notified"
| "pc_ok s t k (Exit_lock j) \<longleftrightarrow> k = t \<and> active_state s k \<and> j \<noteq> k \<and> alive s j"
| "pc_ok s t k Leave_lock \<longleftrightarrow> k \<noteq> t \<and> cx_state s k \<noteq> BLOCKED"
| "pc_ok s t k (Finish_lock j) \<longleftrightarrow> k = t \<and> active_state s k \<and> j \<noteq> k \<and> alive s j"
| "pc_ok s t k (Finish_notify j) \<longleftrightarrow> k = t \<and> active_state s k \<and> j \<noteq> k \<and> cx_state s j = FINAL \<and>
     cx_pc s j \<in> {Waiting, Notified, Woken, Leave_lock, Ended}"
| "pc_ok s t k (Finish_wait j) \<longleftrightarrow> k = t \<and> active_state s k \<and> j \<noteq> k \<and> cx_state s j = FINAL \<and>
     cx_pc s j \<in> {Notified, Woken, Leave_lock, Ended}"
| "pc_ok s t k (Create_lock j) \<longleftrightarrow> k = t \<and> active_state s k \<and> j \<noteq> k \<and>
     (cx_pc s j \<in> {Start_lock, Block_enter} \<or> (cx_pc s j \<in> {Waiting, Notified, Woken} \<and> cx_state s j = BLOCKED))"
| "pc_ok s t k (Create_wait j) \<longleftrightarrow> k = t \<and> active_state s k \<and> j \<noteq> k \<and> cx_pc s j \<in> {Start_lock, Block_enter}"
| "pc_ok s t k Ended \<longleftrightarrow> k \<noteq> t \<and> cx_state s k = FINAL"

definition ctx_ok :: "nat \<Rightarrow> ctx_sys \<Rightarrow> bool" where
  "ctx_ok t s \<longleftrightarrow> (\<forall>k. pc_ok s t k (cx_pc s k))"

lemma ctx_okD: "ctx_ok t s \<Longrightarrow> cx_pc s k = pc \<Longrightarrow> pc_ok s t k pc"
  by (auto simp: ctx_ok_def)

lemma ctx_ok_allI: "(\<And>i. pc_ok s t i (cx_pc s i)) \<Longrightarrow> ctx_ok t s"
  by (simp add: ctx_ok_def)

lemma goto_simps [simp]:
  "cx_pc (goto k pc s) i = (if i = k then pc else cx_pc s i)" "cx_state (goto k pc s) = cx_state s"
  "cx_owner (goto k pc s) = cx_owner s" "cx_thrown (goto k pc s) = cx_thrown s"
  "cx_pc (lock k m s) = cx_pc s" "cx_state (lock k m s) = cx_state s"
  "cx_owner (lock k m s) i = (if i = m then Some k else cx_owner s i)" "cx_thrown (lock k m s) = cx_thrown s"
  "cx_pc (unlock m s) = cx_pc s" "cx_state (unlock m s) = cx_state s"
  "cx_owner (unlock m s) i = (if i = m then None else cx_owner s i)" "cx_thrown (unlock m s) = cx_thrown s"
  "cx_pc (set_ctx k st s) = cx_pc s" "cx_state (set_ctx k st s) i = (if i = k then st else cx_state s i)"
  "cx_owner (set_ctx k st s) = cx_owner s" "cx_thrown (set_ctx k st s) = cx_thrown s"
  by (simp_all add: goto_def lock_def unlock_def set_ctx_def)

lemma wake_simps [simp]:
  "cx_pc (wake j s) i = (if i = j then woken_pc (cx_pc s j) else cx_pc s i)" "cx_state (wake j s) = cx_state s"
  "cx_owner (wake j s) = cx_owner s" "cx_thrown (wake j s) = cx_thrown s"
  "cx_state (notify_one w s) = cx_state s" "cx_owner (notify_one w s) = cx_owner s"
  "cx_thrown (notify_one w s) = cx_thrown s"
  "cx_pc (notify_one w s) i = (if w = Some i then woken_pc (cx_pc s i) else cx_pc s i)"
  "cx_state (notify_all m s) = cx_state s" "cx_owner (notify_all m s) = cx_owner s"
  "cx_thrown (notify_all m s) = cx_thrown s"
  "cx_pc (notify_all m s) i = (if waits s m i then woken_pc (cx_pc s i) else cx_pc s i)"
  by (auto simp: wake_def notify_one_def notify_all_def split: option.split)

lemma waiting_for_iff [simp]:
  "waiting_for i pc = Some m \<longleftrightarrow> (pc = Waiting \<and> i = m) \<or> pc = Create_wait m"
  by (cases pc) auto

lemma may_notify_exists: "\<exists>w. may_notify s m w"
proof (cases "\<exists>i. waits s m i")
  case True
  then obtain i where "waits s m i" ..
  then show ?thesis by (intro exI [of _ "Some i"]) (simp add: may_notify_def)
next
  case False
  then show ?thesis by (intro exI [of _ None]) (simp add: may_notify_def)
qed

text \<open>When the one in control is not making the context \<open>j\<close>, only its own thread hears a notification of \<open>j\<close>.\<close>

lemma notified_self:
  assumes "ctx_ok t s" and "may_notify s j w" and "cx_pc s t \<noteq> Create_wait j"
  shows "w = (if cx_pc s j = Waiting then Some j else None)"
proof -
  have "cx_pc s i \<noteq> Create_wait j" for i
    using ctx_okD [OF assms(1), of i "Create_wait j"] assms(3) by auto
  then have "waits s j i \<longleftrightarrow> i = j \<and> cx_pc s j = Waiting" for i by (auto simp: waits_def)
  with assms(2) show ?thesis by (auto simp: may_notify_def split: option.splits)
qed

text \<open>The context that a holder of its mutex releases is waiting, unless it is leaving.\<close>

lemma released_waits:
  assumes "ctx_ok t s" and "cx_owner s j \<noteq> Some j" and "cx_state s j = BLOCKED"
  shows "cx_pc s j \<in> {Waiting, Notified}"
proof -
  have "pc_ok s t j (cx_pc s j)" using assms(1) by (simp add: ctx_ok_def)
  with assms(2,3) show ?thesis by (cases "cx_pc s j") (auto simp: active_state_def)
qed

text \<open>A step of one thread leaves the others as they were.\<close>

definition others_same :: "nat \<Rightarrow> ctx_sys \<Rightarrow> ctx_sys \<Rightarrow> bool" where
  "others_same k s s' \<longleftrightarrow>
     (\<forall>i. i \<noteq> k \<longrightarrow> cx_pc s' i = cx_pc s i \<and> (\<forall>m. cx_owner s m = Some i \<longrightarrow> cx_owner s' m = Some i))"

text \<open>What the others rely on in the thread in control.\<close>

definition relied :: "nat \<Rightarrow> ctx_sys \<Rightarrow> ctx_sys \<Rightarrow> bool" where
  "relied t s s' \<longleftrightarrow> cx_pc s' t = cx_pc s t \<or>
     ((cx_pc s t = Notified \<longrightarrow> free s t) \<and>
      (\<forall>i. cx_pc s t \<in> {Create_lock i, Create_wait i} \<longrightarrow>
         cx_pc s i \<noteq> Start_lock \<or> cx_pc s' t \<in> {Create_lock i, Create_wait i}) \<and>
      (\<forall>i. cx_pc s t \<noteq> Finish_notify i))"

lemma pc_ok_other:
  assumes ok: "ctx_ok t s" and i: "i \<noteq> t" and pc: "cx_pc s' i = cx_pc s i" and st: "cx_state s' i = cx_state s i"
    and own: "\<forall>m. cx_owner s m = Some i \<longrightarrow> cx_owner s' m = Some i" and keeps: "relied t s s'"
  shows "pc_ok s' t i (cx_pc s' i)"
proof -
  have "pc_ok s t i (cx_pc s i)" using ok by (simp add: ctx_ok_def)
  with i pc own st keeps show ?thesis
    by (cases "cx_pc s i") (auto simp: active_state_def relied_def free_def)
qed

lemma ctx_ok_local:
  assumes ok: "ctx_ok t s" and k: "pc_ok s' t k (cx_pc s' k)" and same: "others_same k s s'"
    and states: "\<And>i. i \<noteq> k \<Longrightarrow> cx_state s' i = cx_state s i"
    and t: "k = t \<or> pc_ok s' t t (cx_pc s' t)" and keeps: "k \<noteq> t \<or> relied t s s'"
  shows "ctx_ok t s'"
proof (rule ctx_ok_allI)
  fix i
  have rel: "relied t s s'" using keeps same by (auto simp: relied_def others_same_def)
  consider "i = k" | "i = t" "i \<noteq> k" | "i \<noteq> k" "i \<noteq> t" by blast
  then show "pc_ok s' t i (cx_pc s' i)"
  proof cases
    case 3
    then show ?thesis using pc_ok_other [OF ok 3(2) _ states _ rel] same by (auto simp: others_same_def)
  qed (use k t in auto)
qed

lemma ctx_ok_aside:
  assumes ok: "ctx_ok t s" and kt: "k \<noteq> t" and k: "pc_ok s' t k (cx_pc s' k)" and same: "others_same k s s'"
    and states: "\<And>i. i \<noteq> k \<Longrightarrow> cx_state s' i = cx_state s i"
    and alive: "alive s k \<Longrightarrow> alive s' k"
    and finish: "\<And>j. pc_ok s t t (cx_pc s t) \<Longrightarrow> cx_pc s t \<in> {Finish_notify k, Finish_wait k, Create_lock k, Create_wait k} \<Longrightarrow>
      pc_ok s' t t (cx_pc s t)"
  shows "ctx_ok t s'"
proof (rule ctx_ok_local [OF ok k same states])
  have t: "pc_ok s t t (cx_pc s t)" using ok by (simp add: ctx_ok_def)
  have pc: "cx_pc s' t = cx_pc s t" and own: "\<And>m. cx_owner s m = Some t \<Longrightarrow> cx_owner s' m = Some t"
    and st: "cx_state s' t = cx_state s t"
    using same states kt by (auto simp: others_same_def)
  have others: "cx_pc s' j = cx_pc s j \<and> cx_state s' j = cx_state s j" if "j \<noteq> k" for j
    using that same states by (simp add: others_same_def)
  have alive: "alive s' j" if "alive s j" for j
    using that alive others [of j] by (cases "j = k") (simp_all add: alive_def)
  have "pc_ok s' t t (cx_pc s t)"
  proof (cases "cx_pc s t \<in> {Finish_notify k, Finish_wait k, Create_lock k, Create_wait k}")
    case True
    then show ?thesis using finish t by blast
  next
    case False
    then show ?thesis
      using t st own alive others by (cases "cx_pc s t") (auto simp: active_state_def)
  qed
  then show "k = t \<or> pc_ok s' t t (cx_pc s' t)" using pc by simp
qed (use kt in simp_all)

text \<open>Control passes to the context that is released.\<close>

lemma ctx_ok_moves:
  assumes ok: "ctx_ok t s" and t: "pc_ok s' j t (cx_pc s' t)" and j: "j \<noteq> t" "cx_pc s' j = Notified"
    and same: "\<And>i. i \<notin> {t, j} \<Longrightarrow> cx_pc s' i = cx_pc s i \<and> (\<forall>m. cx_owner s m = Some i \<longrightarrow> cx_owner s' m = Some i)"
    and states: "cx_state s' = (cx_state s)(j := RELEASED)"
    and pc: "\<And>i. cx_pc s t \<notin> {Create_lock i, Create_wait i, Finish_notify i}" "cx_pc s t \<noteq> Notified"
  shows "ctx_ok j s'"
proof (rule ctx_ok_allI)
  fix i
  have i: "pc_ok s t i (cx_pc s i)" using ok by (simp add: ctx_ok_def)
  consider "i = t" | "i = j" | "i \<notin> {t, j}" by blast
  then show "pc_ok s' j i (cx_pc s' i)"
  proof cases
    case 2
    then show ?thesis using j states by simp
  next
    case 3
    then have "cx_pc s' i = cx_pc s i" and "\<forall>m. cx_owner s m = Some i \<longrightarrow> cx_owner s' m = Some i" and "cx_state s' i = cx_state s i"
      using same [of i] states by auto
    then show ?thesis using 3 i pc by (cases "cx_pc s i") (auto simp: active_state_def)
  qed (use t in simp)
qed

text \<open>A context whose mutex is free, seen by the running thread, is waiting or leaving.\<close>

lemma free_target:
  assumes ok: "ctx_ok t s" and "alive s j" and "j \<noteq> t" and "cx_owner s j \<noteq> Some j" and "cx_pc s t \<noteq> Notified"
  shows "cx_pc s j = Leave_lock \<or> (cx_pc s j \<in> {Waiting, Notified} \<and> cx_state s j = BLOCKED)"
proof -
  have "pc_ok s t j (cx_pc s j)" using ok by (simp add: ctx_ok_def)
  with assms(2-5) show ?thesis
    by (cases "cx_pc s j"; cases "cx_state s j") (auto simp: alive_def active_state_def)
qed

lemma ctx_step_ok:
  assumes step: "ctx_step s s'" and ok: "ctx_ok t s" and thrown: "\<not> cx_thrown s'"
  shows "\<exists>t'. ctx_ok t' s'"
proof -
  note local = ctx_ok_local [OF ok] and aside = ctx_ok_aside [OF ok]
  note simps = do_finish_def others_same_def relied_def alive_def active_state_def free_def
  have t: "pc_ok s t t (cx_pc s t)" using ok by (simp add: ctx_ok_def)
  from step show ?thesis
  proof cases
    case (step_yield k j)
    with ctx_okD [OF ok, of k Running] show ?thesis
      by (cases "j = k") (use ok in \<open>auto simp: ctx_yield_def simps intro!: exI [of _ t] local [where k = k]\<close>)
  next
    case (step_yield_lock k j)
    with ctx_okD [OF ok, of k "Yield_lock j"] show ?thesis
      by (auto simp: simps intro!: exI [of _ t] local [where k = k])
  next
    case (step_yield_target k j)
    with ctx_okD [OF ok, of k "Yield_target j"] show ?thesis
      by (auto simp: simps intro!: exI [of _ t] local [where k = k])
  next
    case (step_yield_release k j w)
    then have k: "pc_ok s t k (Yield_release j)" and blocked: "cx_state s j = BLOCKED"
      using ctx_okD [OF ok, of k "Yield_release j"] thrown by (auto simp: yield_release_def do_release_def split: if_splits)
    then have waits: "cx_pc s j \<in> {Waiting, Notified}"
      using step_yield_release by (intro released_waits [OF ok]) (auto simp: free_def)
    have "w = (if cx_pc s j = Waiting then Some j else None)"
      using step_yield_release k by (intro notified_self [OF ok]) auto
    with step_yield_release k blocked waits show ?thesis
      by (intro exI [of _ j] ctx_ok_moves [OF ok]) (auto simp: yield_release_def do_release_def simps fun_eq_iff)
  next
    case (step_block k w)
    have k: "pc_ok s t k Block_enter" by (rule ctx_okD [OF ok step_block(2)])
    have wt: "i = t \<and> cx_pc s t = Create_wait k" if "w = Some i" for i
      using step_block(2,3) that ctx_okD [OF ok refl, of i] by (auto simp: may_notify_def waits_def)
    have none: "cx_pc s t \<noteq> Create_wait k" if "w = None"
      using step_block(3) that by (auto simp: may_notify_def waits_def)
    have "pc_ok s' t i (cx_pc s' i)" for i
    proof (cases "i = t")
      case True
      with t k wt none step_block show ?thesis
        by (cases w; cases "cx_pc s t") (auto simp: simps do_block_def)
    next
      case False
      with k wt step_block ctx_okD [OF ok refl, of i] show ?thesis
        by (cases w; cases "cx_pc s i") (auto simp: simps do_block_def)
    qed
    then show ?thesis by (auto simp: ctx_ok_def)
  next
    case (step_wake k)
    show ?thesis
    proof (cases "k = t")
      case True
      with step_wake ctx_okD [OF ok, of k Notified] show ?thesis
        by (auto simp: simps intro!: exI [of _ t] local [where k = k])
    next
      case False
      with step_wake ctx_okD [OF ok, of k Notified] t show ?thesis
        by (auto simp: simps intro!: exI [of _ t] aside [where k = k])
    qed
  next
    case (step_woken k)
    show ?thesis
    proof (cases "k = t")
      case True
      with step_woken ctx_okD [OF ok, of k Woken] show ?thesis
        by (auto simp: simps do_block_woken_def intro!: exI [of _ t] local [where k = k])
    next
      case False
      with step_woken ctx_okD [OF ok, of k Woken] t show ?thesis
        by (cases "cx_state s k") (auto simp: simps do_block_woken_def intro!: exI [of _ t] aside [where k = k])
    qed
  next
    case (step_call k j)
    with ctx_okD [OF ok, of k Running] have "ctx_ok t s'"
      by (intro local [where k = k]) (auto simp: simps)
    then show ?thesis ..
  next
    case (step_call_lock k j)
    with ctx_okD [OF ok, of k "Call_lock j"] show ?thesis
      by (auto simp: simps intro!: exI [of _ t] local [where k = k])
  next
    case (step_call_release k j w)
    then have k: "pc_ok s t k (Call_release j)" and blocked: "cx_state s j = BLOCKED"
      using ctx_okD [OF ok, of k "Call_release j"] thrown by (auto simp: do_release_def split: if_splits)
    then have waits: "cx_pc s j \<in> {Waiting, Notified}"
      using step_call_release by (intro released_waits [OF ok]) (auto simp: free_def)
    have "w = (if cx_pc s j = Waiting then Some j else None)"
      using step_call_release k by (intro notified_self [OF ok]) auto
    with step_call_release k blocked waits show ?thesis
      by (intro exI [of _ j] ctx_ok_moves [OF ok]) (auto simp: do_release_def simps fun_eq_iff)
  next
    case (step_call_enter k j)
    with ctx_okD [OF ok, of k "Call_enter j"] t show ?thesis
      by (auto simp: simps call_enter_def intro!: exI [of _ t] aside [where k = k])
  next
    case (step_exit k j)
    with ctx_okD [OF ok, of k Running] show ?thesis
      by (auto simp: simps intro!: exI [of _ t] local [where k = k])
  next
    case (step_exit_release k j w)
    then have k: "pc_ok s t k (Exit_lock j)" and blocked: "cx_state s j = BLOCKED"
      using ctx_okD [OF ok, of k "Exit_lock j"] thrown by (auto simp: exit_release_def do_release_def split: if_splits)
    then have waits: "cx_pc s j \<in> {Waiting, Notified}"
      using step_exit_release by (intro released_waits [OF ok]) (auto simp: free_def)
    have "w = (if cx_pc s j = Waiting then Some j else None)"
      using step_exit_release k by (intro notified_self [OF ok]) auto
    with step_exit_release k blocked waits show ?thesis
      by (intro exI [of _ j] ctx_ok_moves [OF ok]) (auto simp: exit_release_def do_release_def simps fun_eq_iff)
  next
    case (step_leave k)
    with ctx_okD [OF ok, of k Leave_lock] t show ?thesis
      by (auto simp: simps leave_locked_def intro!: exI [of _ t] aside [where k = k])
  next
    case (step_finish k j)
    with ctx_okD [OF ok, of k Running] show ?thesis
      by (auto simp: simps intro!: exI [of _ t] local [where k = k])
  next
    case (step_finish_lock k j)
    have k: "pc_ok s t k (Finish_lock j)" by (rule ctx_okD [OF ok step_finish_lock(2)])
    then have j: "cx_pc s j \<in> {Waiting, Notified, Leave_lock}"
      using free_target [OF ok, of j] step_finish_lock by (simp add: free_def) blast
    have "pc_ok s' t i (cx_pc s' i)" for i
      using ctx_okD [OF ok refl, of i] k j step_finish_lock by (cases "cx_pc s i") (auto simp: simps)
    then show ?thesis by (auto simp: ctx_ok_def)
  next
    case (step_finish_notify k j)
    have k: "pc_ok s t k (Finish_notify j)" by (rule ctx_okD [OF ok step_finish_notify(2)])
    have "pc_ok s' t i (cx_pc s' i)" for i
      using ctx_okD [OF ok refl, of i] k step_finish_notify by (cases "cx_pc s i") (auto simp: simps waits_def)
    then show ?thesis by (auto simp: ctx_ok_def)
  next
    case (step_finish_wait k j)
    with ctx_okD [OF ok, of k "Finish_wait j"] show ?thesis
      by (auto simp: simps intro!: exI [of _ t] local [where k = k])
  next
    case (step_create k j)
    have "pc_ok s' t i (cx_pc s' i)" for i
      using ctx_okD [OF ok refl, of i] ctx_okD [OF ok step_create(2)] ctx_okD [OF ok step_create(3)] step_create
      by (cases "cx_pc s i") (auto simp: simps)
    then show ?thesis by (auto simp: ctx_ok_def)
  next
    case (step_start k)
    with ctx_okD [OF ok, of k Start_lock] t show ?thesis
      by (auto simp: simps intro!: exI [of _ t] aside [where k = k])
  next
    case (step_created k j)
    with ctx_okD [OF ok, of k "Create_lock j"] ctx_okD [OF ok, of j "cx_pc s j"] show ?thesis
      by (auto simp: simps create_check_def intro!: exI [of _ t] local [where k = k])
  qed
qed

lemma ctx_spurious_ok:
  assumes "ctx_spurious s s'" and ok: "ctx_ok t s"
  shows "ctx_ok t s'"
  using assms(1)
proof cases
  case (spurious_wake m j)
  have "pc_ok s' t i (cx_pc s' i)" for i
    using ctx_okD [OF ok refl, of i] ctx_okD [OF ok refl, of j] spurious_wake
    by (cases "cx_pc s i") (auto simp: waits_def active_state_def alive_def)
  then show ?thesis by (simp add: ctx_ok_def)
qed

end
