(* ===== verification/Cpp_Context_Laws.thy ===== *)
theory Cpp_Context_Laws
  imports Cpp_Context
begin

text \<open>
  What the interleaving threads of \<open>runtime/c++/dzn/context.hh\<close> guarantee.  Preservation: in every reachable
  state exactly one thread is in control (\<open>contexts_exclude\<close>).  Progress: a mutex is held by a thread that is
  about to give it up, and a thread that is released or finished while it waits has been or is about to be notified,
  so that from every reachable state some thread gets to run by the code's own steps, without a wake-up for no reason
  (\<open>contexts_progress\<close>).  The one way out is a release of a thread whose function has returned and that is not
  waiting again yet (\<open>release_refused_only_leaving\<close>), and that way is open (\<open>call_after_exit_throws\<close>).
\<close>

section \<open>Who holds a mutex\<close>

fun held :: "nat \<Rightarrow> ctx_pc \<Rightarrow> nat set" where
  "held i (Yield_target j) = {i}"
| "held i (Yield_release j) = {i, j}"
| "held i Block_enter = {i}"
| "held i Woken = {i}"
| "held i (Call_release j) = {j}"
| "held i (Call_enter j) = {j}"
| "held i _ = {}"

definition owner_ok :: "ctx_sys \<Rightarrow> bool" where
  "owner_ok s \<longleftrightarrow> (\<forall>m i. cx_owner s m = Some i \<longrightarrow> m \<in> held i (cx_pc s i))"

lemma owner_okD: "owner_ok s \<Longrightarrow> cx_owner s m = Some i \<Longrightarrow> m \<in> held i (cx_pc s i)"
  by (simp add: owner_ok_def)

lemma do_release_simps [simp]:
  "cx_owner (do_release w j s) = cx_owner s"
  "cx_pc (do_release w j s) i = (if cx_state s j = BLOCKED \<and> w = Some i then woken_pc (cx_pc s i) else cx_pc s i)"
  "cx_thrown (do_release w j s) \<longleftrightarrow> cx_thrown s \<or> cx_state s j \<noteq> BLOCKED"
  by (auto simp: do_release_def)

lemmas step_defs =
  ctx_yield_def yield_release_def do_block_def do_block_woken_def do_finish_def call_enter_def exit_release_def leave_locked_def create_check_def

lemma held_woken [simp]: "held i (woken_pc pc) = held i pc"
  by (cases pc) simp_all

lemma ctx_step_owner_ok:
  assumes "ctx_step s s'" and ok: "owner_ok s"
  shows "owner_ok s'"
proof -
  have "m \<in> held i (cx_pc s' i)" if "cx_owner s' m = Some i" for m i
    using assms(1)
  proof cases
    case (step_woken k)
    with that owner_okD [OF ok, of m i] show ?thesis
      by (cases "cx_state s k") (auto simp: step_defs split: if_splits)
  next
    case (step_call k j)
    with that owner_okD [OF ok, of m i] show ?thesis by (cases "i = k") simp_all
  qed (use that owner_okD [OF ok, of m i] in \<open>auto simp: step_defs split: if_splits\<close>)
  then show ?thesis by (simp add: owner_ok_def)
qed

lemma ctx_step_thrown: "ctx_step s s' \<Longrightarrow> cx_thrown s \<Longrightarrow> cx_thrown s'"
  by (induction rule: ctx_step.induct)
    (auto simp: step_defs)

lemma ctx_spurious_keeps:
  assumes "ctx_spurious s s'"
  shows "owner_ok s \<Longrightarrow> owner_ok s'" and "cx_thrown s' = cx_thrown s"
  using assms by (auto elim!: ctx_spurious.cases simp: owner_ok_def)

section \<open>Every reachable state\<close>

lemma ctx_init_ok: "ctx_ok 0 ctx_init" "owner_ok ctx_init" "\<not> cx_thrown ctx_init"
  by (auto simp: ctx_ok_def owner_ok_def ctx_init_def active_state_def)

lemma ctx_reaches_owner_ok: "ctx_reaches ctx_init s \<Longrightarrow> owner_ok s"
  by (induction rule: ctx_reaches.induct) (auto simp: ctx_init_ok ctx_step_owner_ok ctx_spurious_keeps)

lemma ctx_reaches_ok: "ctx_reaches ctx_init s \<Longrightarrow> \<not> cx_thrown s \<Longrightarrow> \<exists>t. ctx_ok t s"
proof (induction rule: ctx_reaches.induct)
  case (ctx_reaches_step s s')
  then have "\<not> cx_thrown s" using ctx_step_thrown by blast
  with ctx_reaches_step obtain t where "ctx_ok t s" by blast
  from ctx_step_ok [OF ctx_reaches_step(2) this ctx_reaches_step(4)] show ?case .
next
  case (ctx_reaches_spurious s s')
  then show ?case using ctx_spurious_ok ctx_spurious_keeps(2) by blast
qed (use ctx_init_ok in blast)

text \<open>The thread that runs, is on its way to hand control over, or has been released.\<close>

fun pc_in_control :: "ctx_state \<Rightarrow> ctx_pc \<Rightarrow> bool" where
  "pc_in_control st pc \<longleftrightarrow>
     (case pc of
        Waiting \<Rightarrow> st = RELEASED | Notified \<Rightarrow> st = RELEASED | Woken \<Rightarrow> st = RELEASED
      | Absent \<Rightarrow> False | Start_lock \<Rightarrow> False | Block_enter \<Rightarrow> False | Call_enter j \<Rightarrow> False | Leave_lock \<Rightarrow> False
      | Ended \<Rightarrow> False | _ \<Rightarrow> True)"

definition in_control :: "ctx_sys \<Rightarrow> nat \<Rightarrow> bool" where
  "in_control s k \<longleftrightarrow> pc_in_control (cx_state s k) (cx_pc s k)"

lemma ctx_ok_in_control: "ctx_ok t s \<Longrightarrow> in_control s k \<longleftrightarrow> k = t"
  using ctx_okD [of t s k "cx_pc s k"] by (cases "cx_pc s k") (auto simp: in_control_def)

text \<open>C1: in every state the threads can reach without a refused release, exactly one context is in control: it
  runs, is handing control over or has been released; no two run at once and control is never lost.\<close>

theorem contexts_exclude:
  assumes "ctx_reaches ctx_init s" and "\<not> cx_thrown s"
  shows "\<exists>!t. in_control s t"
proof -
  obtain t where "ctx_ok t s" using ctx_reaches_ok assms by blast
  then show ?thesis by (intro ex1I [of _ t]) (simp_all add: ctx_ok_in_control)
qed

section \<open>Progress\<close>

text \<open>The steps of the code, without wake-ups for no reason, lead to a state in which a thread runs.\<close>

definition can_run :: "ctx_sys \<Rightarrow> bool" where
  "can_run s \<longleftrightarrow> (\<exists>s' k. ctx_step\<^sup>*\<^sup>* s s' \<and> \<not> cx_thrown s' \<and> cx_pc s' k = Running)"

lemma can_run_now: "\<not> cx_thrown s \<Longrightarrow> cx_pc s k = Running \<Longrightarrow> can_run s"
  by (auto simp: can_run_def)

lemma can_run_step: "ctx_step s s' \<Longrightarrow> can_run s' \<Longrightarrow> can_run s"
  unfolding can_run_def by (meson converse_rtranclp_into_rtranclp)

lemma can_run_steps: "ctx_step\<^sup>*\<^sup>* s s' \<Longrightarrow> can_run s' \<Longrightarrow> can_run s"
  unfolding can_run_def by (meson rtranclp_trans)

text \<open>A released thread that was notified and whose mutex is free wakes and runs.\<close>

lemma can_run_released:
  assumes "cx_pc s t = Notified" and "cx_state s t = RELEASED" and "free s t" and "\<not> cx_thrown s"
  shows "can_run s"
proof (rule can_run_step [OF step_wake [OF assms(1,3)]], rule can_run_step [OF step_woken [where k = t]])
  show "can_run (do_block_woken t (goto t Woken (lock t t s)))"
    by (rule can_run_now [where k = t]) (simp_all add: do_block_woken_def assms)
qed simp

text \<open>A thread that waits, or has been woken, is notified by a release.\<close>

lemma release_notifies:
  assumes "cx_state s j = BLOCKED" and "cx_pc s j \<in> {Waiting, Notified}"
  obtains w where "may_notify s j w" and "cx_pc (do_release w j s) j = Notified"
    and "\<And>t. cx_pc s t \<notin> {Waiting, Create_wait j} \<Longrightarrow> cx_pc (do_release w j s) t = cx_pc s t"
    and "cx_state (do_release w j s) = (cx_state s)(j := RELEASED)"
    and "cx_thrown (do_release w j s) = cx_thrown s"
proof (cases "cx_pc s j = Waiting")
  case True
  with assms(1) show ?thesis
    by (intro that [of "Some j"]) (auto simp: may_notify_def waits_def do_release_def fun_eq_iff)
next
  case False
  obtain w where "may_notify s j w" using may_notify_exists by blast
  with False assms show ?thesis
    by (intro that [of w]) (auto simp: may_notify_def waits_def do_release_def fun_eq_iff split: option.splits)
qed

lemma can_run_yield_release:
  assumes "cx_pc s t = Yield_release j" and "cx_state s j = BLOCKED" "cx_pc s j \<in> {Waiting, Notified}" and "j \<noteq> t"
    and "\<not> cx_thrown s"
  shows "can_run s"
proof -
  obtain w where w: "may_notify s j w" "cx_pc (do_release w j s) j = Notified"
      "cx_state (do_release w j s) = (cx_state s)(j := RELEASED)" "cx_thrown (do_release w j s) = cx_thrown s"
    using release_notifies [OF assms(2,3)] by metis
  from assms(4,5) w(2-4) have "can_run (yield_release w t j s)"
    by (intro can_run_released [of _ j]) (simp_all add: yield_release_def free_def del: do_release_simps)
  with step_yield_release [OF assms(1) w(1)] show ?thesis by (rule can_run_step)
qed

lemma can_run_exit:
  assumes "cx_pc s t = Exit_lock j" and "free s j" and "cx_state s j = BLOCKED" "cx_pc s j \<in> {Waiting, Notified}"
    and "j \<noteq> t" and "\<not> cx_thrown s"
  shows "can_run s"
proof -
  obtain w where w: "may_notify s j w" "cx_pc (do_release w j s) j = Notified"
      "cx_state (do_release w j s) = (cx_state s)(j := RELEASED)" "cx_thrown (do_release w j s) = cx_thrown s"
    using release_notifies [OF assms(3,4)] by metis
  from assms(2,5,6) w(2-4) have "can_run (exit_release w t j s)"
    by (intro can_run_released [of _ j]) (simp_all add: exit_release_def free_def del: do_release_simps(2,3))
  with step_exit_release [OF assms(1,2) w(1)] show ?thesis by (rule can_run_step)
qed

lemma can_run_call_enter:
  assumes "cx_pc s t = Call_enter j" and "free s t" and "cx_state s j = RELEASED" "cx_pc s j = Notified" and "j \<noteq> t"
    and "\<not> cx_thrown s"
  shows "can_run s"
  by (rule can_run_step [OF step_call_enter [OF assms(1,2)]], rule can_run_released [of _ j])
    (use assms in \<open>simp_all add: call_enter_def free_def\<close>)

lemma can_run_call_release:
  assumes "cx_pc s t = Call_release j" and "free s t" and "cx_state s j = BLOCKED" "cx_pc s j \<in> {Waiting, Notified}"
    and "j \<noteq> t" and "\<not> cx_thrown s"
  shows "can_run s"
proof -
  obtain w where w: "may_notify s j w" "cx_pc (do_release w j s) j = Notified"
      "cx_state (do_release w j s) = (cx_state s)(j := RELEASED)" "cx_thrown (do_release w j s) = cx_thrown s"
    using release_notifies [OF assms(3,4)] by metis
  from assms(2,5,6) w(2-4) have "can_run (goto t (Call_enter j) (do_release w j s))"
    by (intro can_run_call_enter [of _ t j]) (simp_all add: free_def del: do_release_simps(2,3))
  with step_call_release [OF assms(1) w(1)] show ?thesis by (rule can_run_step)
qed

lemma can_run_finish_wait:
  assumes t: "cx_pc s t = Finish_wait j" and j: "cx_state s j = FINAL" "j \<noteq> t" "free s j \<or> cx_pc s j \<in> {Woken, Ended}"
    and pc: "cx_pc s j \<in> {Notified, Woken, Leave_lock, Ended}" and fine: "\<not> cx_thrown s"
  shows "can_run s"
proof -
  have ended: "can_run s" if "cx_pc s t = Finish_wait j" "cx_pc s j = Ended" "\<not> cx_thrown s" for s
    by (rule can_run_step [OF step_finish_wait [OF that(1,2)]], rule can_run_now [where k = t]) (simp_all add: that)
  have woken: "can_run s" if "cx_pc s t = Finish_wait j" "cx_pc s j = Woken" "cx_state s j = FINAL" "\<not> cx_thrown s" for s
    by (rule can_run_step [OF step_woken [OF that(2)]], rule ended) (use that j in \<open>auto simp: do_block_woken_def\<close>)
  consider "cx_pc s j = Notified" "free s j" | "cx_pc s j = Woken" | "cx_pc s j = Leave_lock" "free s j" | "cx_pc s j = Ended"
    using j(3) pc by auto
  then show ?thesis
  proof cases
    case 1
    from can_run_step [OF step_wake [OF this]] show ?thesis using woken [of "goto j Woken (lock j j s)"] t j fine by simp
  next
    case 3
    from can_run_step [OF step_leave [OF this]] show ?thesis
      using ended [of "leave_locked j s"] t j fine by (simp add: leave_locked_def)
  qed (use ended woken t j fine in auto)
qed

lemma can_run_finish_notify:
  assumes t: "cx_pc s t = Finish_notify j" and j: "cx_state s j = FINAL" "j \<noteq> t" "free s j \<or> cx_pc s j \<in> {Woken, Ended}"
    and pc: "cx_pc s j \<in> {Waiting, Notified, Woken, Leave_lock, Ended}" and fine: "\<not> cx_thrown s"
  shows "can_run s"
proof (rule can_run_step [OF step_finish_notify [OF t]])
  show "can_run (goto t (Finish_wait j) (notify_all j s))"
    using assms by (intro can_run_finish_wait [of _ t j]) (auto simp: free_def waits_def)
qed

text \<open>The constructor of a context: its thread starts and blocks, which wakes the constructor if it waits.\<close>

lemma can_run_create:
  assumes t: "cx_pc s t \<in> {Create_lock j, Create_wait j}" and "j \<noteq> t" and fine: "\<not> cx_thrown s"
    and pc: "(cx_pc s j = Start_lock \<and> free s j) \<or> cx_pc s j = Block_enter \<or>
      (cx_pc s t = Create_lock j \<and> cx_state s j = BLOCKED \<and> (free s j \<or> cx_pc s j = Woken))"
  shows "can_run s"
proof -
  have blocked: "can_run s" if "cx_pc s t = Create_lock j" "free s j" "cx_state s j = BLOCKED" "\<not> cx_thrown s" for s
    by (rule can_run_step [OF step_created [OF that(1,2)]], rule can_run_now [where k = t])
      (simp_all add: that create_check_def)
  have enter: "can_run s" if s: "cx_pc s t \<in> {Create_lock j, Create_wait j}" "cx_pc s j = Block_enter" "\<not> cx_thrown s" for s
  proof -
    obtain w where w: "may_notify s j w" "cx_pc (do_block w j s) t = Create_lock j"
    proof (cases "cx_pc s t = Create_wait j")
      case True
      with \<open>j \<noteq> t\<close> show ?thesis
        by (intro that [of "Some t"]) (simp_all add: may_notify_def waits_def do_block_def)
    next
      case False
      obtain w where "may_notify s j w" using may_notify_exists by blast
      with False s(1) \<open>j \<noteq> t\<close> show ?thesis
        by (intro that [of w]) (auto simp: do_block_def)
    qed
    have "can_run (do_block w j s)"
      by (rule blocked [OF w(2)]) (use s(3) in \<open>simp_all add: do_block_def free_def\<close>)
    with step_block [OF s(2) w(1)] show ?thesis by (rule can_run_step)
  qed
  from pc consider "cx_pc s j = Start_lock" "free s j" | "cx_pc s j = Block_enter"
    | "cx_pc s t = Create_lock j" "free s j" "cx_state s j = BLOCKED"
    | "cx_pc s t = Create_lock j" "cx_pc s j = Woken" "cx_state s j = BLOCKED" by blast
  then show ?thesis
  proof cases
    case 1
    from can_run_step [OF step_start [OF this]] show ?thesis
      using enter [of "goto j Block_enter (lock j j s)"] t assms(2) fine by simp
  next
    case 4
    from can_run_step [OF step_woken [OF 4(2)]] show ?thesis
      using blocked [of "do_block_woken j s"] 4 assms(2) fine by (simp add: do_block_woken_def free_def)
  qed (use enter blocked t fine in auto)
qed

text \<open>The target of the thread in control gives up its mutex; one that is leaving locks it and waits.\<close>

lemma blocks:
  assumes "cx_pc s j = Block_enter" and "cx_pc s t \<notin> {Waiting, Create_wait j}" and "j \<noteq> t"
  obtains w where "may_notify s j w" and "cx_pc (do_block w j s) t = cx_pc s t"
proof -
  obtain w where w: "may_notify s j w" using may_notify_exists by blast
  moreover have "w \<noteq> Some t" using w assms(2,3) by (auto simp: may_notify_def waits_def)
  ultimately show ?thesis using assms(3) by (intro that [of w]) (auto simp: do_block_def)
qed

lemma settle:
  assumes ok: "ctx_ok t s" and own: "owner_ok s" and j: "alive s j" "j \<noteq> t" and fine: "\<not> cx_thrown s"
    and t: "cx_pc s t \<notin> {Notified, Waiting, Create_wait j}" "j \<notin> held t (cx_pc s t)"
  shows "\<exists>s'. ctx_step\<^sup>*\<^sup>* s s' \<and> free s' j \<and> cx_pc s' t = cx_pc s t \<and> cx_owner s' t = cx_owner s t \<and>
    cx_state s' j = BLOCKED \<and> cx_pc s' j \<in> {Waiting, Notified} \<and> \<not> cx_thrown s'"
proof -
  have enter: "\<exists>s'. ctx_step\<^sup>*\<^sup>* s1 s' \<and> free s' j \<and> cx_pc s' t = cx_pc s1 t \<and> cx_owner s' t = cx_owner s1 t \<and>
      cx_state s' j = BLOCKED \<and> cx_pc s' j \<in> {Waiting, Notified} \<and> \<not> cx_thrown s'"
    if s1: "cx_pc s1 j = Block_enter" "cx_pc s1 t = cx_pc s t" "\<not> cx_thrown s1" for s1
  proof -
    obtain w where w: "may_notify s1 j w" "cx_pc (do_block w j s1) t = cx_pc s1 t"
      using blocks [OF s1(1), of t] s1(2) t(1) j(2) by auto
    with step_block [OF s1(1) w(1)] s1(3) j(2) show ?thesis
      by (intro exI [of _ "do_block w j s1"]) (auto simp: do_block_def free_def)
  qed
  show ?thesis
  proof (cases "cx_owner s j")
    case None
    then consider "cx_pc s j = Leave_lock" | "cx_pc s j \<in> {Waiting, Notified}" "cx_state s j = BLOCKED"
      using free_target [OF ok j] t(1) by auto
    then show ?thesis
    proof cases
      case 1
      let ?s1 = "leave_locked j s"
      have step: "ctx_step s ?s1" using 1 None by (intro step_leave) (simp_all add: free_def)
      have "cx_state s j \<noteq> FINAL" using j(1) by (simp add: alive_def)
      then have s1: "cx_pc ?s1 j = Block_enter" "cx_pc ?s1 t = cx_pc s t" "\<not> cx_thrown ?s1" "cx_owner ?s1 t = cx_owner s t"
        using j(2) fine by (simp_all add: leave_locked_def)
      from enter [OF s1(1-3)] s1(2,4) step show ?thesis by (metis converse_rtranclp_into_rtranclp)
    next
      case 2
      with None fine show ?thesis by (intro exI [of _ s]) (simp add: free_def)
    qed
  next
    case (Some i)
    then have held: "j \<in> held i (cx_pc s i)" by (rule owner_okD [OF own])
    have "i \<noteq> t" using held t(2) by blast
    with held ctx_okD [OF ok, of i "cx_pc s i"] t(1) have i: "i = j" and pc: "cx_pc s j = Block_enter \<or> cx_pc s j = Woken"
      by (cases "cx_pc s i"; simp)+
    show ?thesis
    proof (cases "cx_pc s j = Block_enter")
      case True
      from enter [OF this refl fine] show ?thesis .
    next
      case False
      with pc have woken: "cx_pc s j = Woken" by simp
      with ctx_okD [OF ok woken] j have "cx_state s j = BLOCKED"
        by (cases "cx_state s j") (auto simp: alive_def)
      with step_woken [OF woken] j(2) fine show ?thesis
        by (intro exI [of _ "do_block_woken j s"]) (auto simp: do_block_woken_def free_def)
    qed
  qed
qed

lemma own_mutex_free:
  assumes ok: "ctx_ok t s" and own: "owner_ok s" and "t \<notin> held t (cx_pc s t)" and "cx_pc s t \<noteq> Notified"
  shows "free s t"
proof (cases "cx_owner s t")
  case (Some i)
  with own have held: "t \<in> held i (cx_pc s i)" by (rule owner_okD)
  with assms(3) have "i \<noteq> t" by blast
  with held ctx_okD [OF ok, of i "cx_pc s i"] assms(4) show ?thesis by (cases "cx_pc s i") simp_all
qed (simp add: free_def)

lemma can_run_notified:
  assumes ok: "ctx_ok t s" and own: "owner_ok s" and t: "cx_pc s t = Notified" and fine: "\<not> cx_thrown s"
  shows "can_run s"
proof (cases "cx_owner s t")
  case None
  with t fine ctx_okD [OF ok t] show ?thesis by (intro can_run_released [of _ t]) (auto simp: free_def)
next
  case (Some i)
  with own have held: "t \<in> held i (cx_pc s i)" by (rule owner_okD)
  then have "i \<noteq> t" using t by auto
  with held ctx_okD [OF ok, of i "cx_pc s i"] have i: "cx_pc s i = Call_enter t" by (cases "cx_pc s i") simp_all
  have "free s i"
  proof (cases "cx_owner s i")
    case (Some l)
    then have l: "i \<in> held l (cx_pc s l)" by (rule owner_okD [OF own])
    then have "l \<noteq> i" and "l \<noteq> t" using i t \<open>i \<noteq> t\<close> by auto
    with l ctx_okD [OF ok, of l "cx_pc s l"] \<open>i \<noteq> t\<close> show ?thesis by (cases "cx_pc s l") simp_all
  qed (simp add: free_def)
  with i t fine ctx_okD [OF ok t] \<open>i \<noteq> t\<close> show ?thesis by (intro can_run_call_enter [of _ i t]) auto
qed

lemma can_run_yield:
  assumes pc: "cx_pc s t = Yield_target j" and j: "j \<noteq> t" "free s j" "cx_state s j = BLOCKED" "cx_pc s j \<in> {Waiting, Notified}"
    and fine: "\<not> cx_thrown s"
  shows "can_run s"
  by (rule can_run_step [OF step_yield_target [OF pc j(2)]], rule can_run_yield_release [of _ t j]) (use j fine in auto)

text \<open>A thread that holds the mutex of a context that is leaving and is about to release it.\<close>

definition refused :: "ctx_sys \<Rightarrow> bool" where
  "refused s \<longleftrightarrow> (\<exists>k j. cx_pc s k \<in> {Yield_release j, Call_release j} \<and> cx_pc s j = Leave_lock)"

lemma can_run_ok:
  assumes ok: "ctx_ok t s" and own: "owner_ok s" and fine: "\<not> cx_thrown s" and granted: "\<not> refused s"
  shows "can_run s"
proof -
  have t: "pc_ok s t t (cx_pc s t)" using ok by (simp add: ctx_ok_def)
  note settle = settle [OF ok own _ _ fine] and free = own_mutex_free [OF ok own]
  have target: "cx_state s j = BLOCKED \<and> cx_pc s j \<in> {Waiting, Notified}"
    if "cx_pc s t \<in> {Yield_release j, Call_release j}" for j
  proof -
    have "cx_pc s j \<noteq> Leave_lock" using that granted by (auto simp: refused_def)
    with that t free_target [OF ok, of j] show ?thesis by auto
  qed
  have mutex: "free s j" if "cx_pc s t \<in> {Finish_notify j, Finish_wait j, Create_lock j, Create_wait j}"
    "cx_pc s j \<in> {Waiting, Notified, Leave_lock, Start_lock}" for j
  proof (cases "cx_owner s j")
    case (Some i)
    with own have "j \<in> held i (cx_pc s i)" by (rule owner_okD)
    with that ctx_okD [OF ok, of i "cx_pc s i"] show ?thesis by (cases "cx_pc s i") auto
  qed (simp add: free_def)
  show ?thesis
  proof (cases "cx_pc s t")
    case (Yield_lock j)
    then have j: "alive s j" "j \<noteq> t" and "free s t" using t free by auto
    from settle [OF j] Yield_lock j obtain s' where s': "ctx_step\<^sup>*\<^sup>* s s'" "free s' j" "cx_pc s' t = Yield_lock j"
        "cx_owner s' t = cx_owner s t" "cx_state s' j = BLOCKED" "cx_pc s' j \<in> {Waiting, Notified}" "\<not> cx_thrown s'" by auto
    then have "ctx_step s' (goto t (Yield_target j) (lock t t s'))"
      using \<open>free s t\<close> by (intro step_yield_lock) (simp_all add: free_def)
    moreover have "can_run (goto t (Yield_target j) (lock t t s'))"
      by (rule can_run_yield [of _ t j]) (use s' j in \<open>auto simp: free_def\<close>)
    ultimately show ?thesis by (meson can_run_step can_run_steps s'(1))
  next
    case (Yield_target j)
    then have j: "alive s j" "j \<noteq> t" using t by auto
    from settle [OF j] Yield_target j show ?thesis by (auto intro: can_run_steps can_run_yield)
  next
    case (Yield_release j)
    with t target [of j] fine show ?thesis by (intro can_run_yield_release [of s t j]) auto
  next
    case (Call_lock j)
    then have j: "alive s j" "j \<noteq> t" and "free s t" using t free by auto
    from settle [OF j] Call_lock j obtain s' where s': "ctx_step\<^sup>*\<^sup>* s s'" "free s' j" "cx_pc s' t = Call_lock j"
        "cx_owner s' t = cx_owner s t" "cx_state s' j = BLOCKED" "cx_pc s' j \<in> {Waiting, Notified}" "\<not> cx_thrown s'" by auto
    have "can_run (goto t (Call_release j) (lock t j s'))"
      by (rule can_run_call_release [of _ t j]) (use s' j \<open>free s t\<close> in \<open>auto simp: free_def\<close>)
    with step_call_lock [OF s'(3,2)] show ?thesis by (meson can_run_step can_run_steps s'(1))
  next
    case (Call_release j)
    with t target [of j] free fine show ?thesis by (intro can_run_call_release [of s t j]) auto
  next
    case (Exit_lock j)
    then have j: "alive s j" "j \<noteq> t" using t by auto
    from settle [OF j] Exit_lock j show ?thesis by (auto intro: can_run_steps can_run_exit)
  next
    case (Finish_lock j)
    then have j: "alive s j" "j \<noteq> t" using t by auto
    from settle [OF j] Finish_lock j obtain s' where s': "ctx_step\<^sup>*\<^sup>* s s'" "free s' j" "cx_pc s' t = Finish_lock j"
        "cx_pc s' j \<in> {Waiting, Notified}" "\<not> cx_thrown s'" by auto
    have "can_run (goto t (Finish_notify j) (do_finish j s'))"
      by (rule can_run_finish_notify [of _ t j]) (use s' j in \<open>auto simp: free_def do_finish_def\<close>)
    with step_finish_lock [OF s'(3,2)] show ?thesis by (meson can_run_step can_run_steps s'(1))
  next
    case (Finish_notify j)
    with t mutex [of j] fine show ?thesis by (intro can_run_finish_notify [of s t j]) auto
  next
    case (Finish_wait j)
    with t mutex [of j] fine show ?thesis by (intro can_run_finish_wait [of s t j]) auto
  next
    case (Create_lock j)
    with t mutex [of j] fine show ?thesis by (intro can_run_create [of s t j]) auto
  next
    case (Create_wait j)
    with t mutex [of j] fine show ?thesis by (intro can_run_create [of s t j]) auto
  next
    case Woken
    from t Woken fine have "can_run (do_block_woken t s)"
      by (intro can_run_now [of _ t]) (simp_all add: do_block_woken_def)
    with step_woken [OF Woken] show ?thesis by (rule can_run_step)
  qed (use t fine can_run_now [of s t] can_run_notified [OF ok own] in simp_all)
qed

text \<open>C2: no deadlock and no lost notification.  In every state that the threads can reach, wake-ups for no reason
  included, in which no release was refused and none is about to be (a thread holds the mutex of a context whose
  function has returned, and releases it next), the threads can go on to a state in which one of them runs, by steps
  of the code alone, without a wake-up for no reason and without a refused release.\<close>

theorem contexts_progress:
  assumes reach: "ctx_reaches ctx_init s" and fine: "\<not> cx_thrown s"
    and granted: "\<And>k j. cx_pc s k \<in> {Yield_release j, Call_release j} \<Longrightarrow> cx_pc s j \<noteq> Leave_lock"
  shows "\<exists>s' k. ctx_step\<^sup>*\<^sup>* s s' \<and> \<not> cx_thrown s' \<and> cx_pc s' k = Running"
proof -
  from ctx_reaches_ok reach fine obtain t where "ctx_ok t s" by blast
  moreover have "\<not> refused s" using granted by (auto simp: refused_def)
  ultimately show ?thesis using can_run_ok ctx_reaches_owner_ok [OF reach] fine by (simp add: can_run_def)
qed

text \<open>C11: the handshake itself never fails: a step that throws is the release of a context whose function has
  returned, by a yield, a call or a last release, before that context waits again.\<close>

theorem release_refused_only_leaving:
  assumes reach: "ctx_reaches ctx_init s" and fine: "\<not> cx_thrown s" and step: "ctx_step s s'" and thrown: "cx_thrown s'"
  shows "\<exists>k j. cx_pc s k \<in> {Yield_release j, Call_release j, Exit_lock j} \<and> cx_pc s j = Leave_lock"
proof -
  obtain t where ok: "ctx_ok t s" using ctx_reaches_ok reach fine by blast
  have leaving: "cx_pc s j = Leave_lock"
    if "cx_pc s k = pc" "pc_ok s t k pc \<Longrightarrow> alive s j \<and> j \<noteq> k \<and> k = t" "cx_owner s j \<noteq> Some j" "pc \<noteq> Notified"
      "cx_state s j \<noteq> BLOCKED" for k j pc
    using free_target [OF ok, of j] ctx_okD [OF ok that(1)] that by auto
  from step fine thrown show ?thesis
  proof cases
    case (step_yield_release k j)
    with thrown fine ctx_okD [OF ok, of k "Yield_release j"] leaving [of k "Yield_release j" j]
    show ?thesis by (auto simp: step_defs)
  next
    case (step_call_release k j)
    with thrown fine ctx_okD [OF ok, of k "Call_release j"] leaving [of k "Call_release j" j]
    show ?thesis by auto
  next
    case (step_exit_release k j)
    with thrown fine leaving [of k "Exit_lock j" j] show ?thesis by (auto simp: step_defs free_def)
  qed (auto simp: step_defs split: if_splits)
qed

text \<open>An execution: the pump's thread creates a coroutine, waits until it blocks and calls it; the coroutine
  releases the pump and returns; the pump calls it again before it has locked its mutex.\<close>

definition created_sys :: ctx_sys where
  "created_sys = create_check 0 1 (do_block (Some 0) 1 (goto 1 Block_enter (lock 1 1
     (create_check 0 1 (goto 0 (Create_lock 1) (goto 1 Start_lock ctx_init))))))"

definition calling_sys :: ctx_sys where
  "calling_sys = goto 0 (Call_release 1) (lock 0 1 (goto 0 (Call_lock 1) created_sys))"

definition called_sys :: ctx_sys where
  "called_sys = do_block_woken 1 (goto 1 Woken (lock 1 1 (call_enter 0 1 (goto 0 (Call_enter 1)
     (do_release (Some 1) 1 calling_sys)))))"

definition left_sys :: ctx_sys where
  "left_sys = do_block_woken 0 (goto 0 Woken (lock 0 0 (exit_release (Some 0) 1 0 (goto 1 (Exit_lock 0) called_sys))))"

definition race_sys :: ctx_sys where
  "race_sys = goto 0 (Call_release 1) (lock 0 1 (goto 0 (Call_lock 1) left_sys))"

lemmas race_defs = created_sys_def calling_sys_def called_sys_def left_sys_def race_sys_def
lemmas race_steps = ctx_init_def do_release_def alive_def free_def step_defs create_check_def may_notify_def waits_def

lemma created_reached: "ctx_reaches ctx_init created_sys"
proof -
  let ?s1 = "goto 0 (Create_lock 1) (goto 1 Start_lock ctx_init)"
  let ?s2 = "create_check 0 1 ?s1"
  let ?s3 = "goto 1 Block_enter (lock 1 1 ?s2)"
  let ?s4 = "do_block (Some 0) 1 ?s3"
  have "ctx_reaches ctx_init ?s1"
    by (rule ctx_reaches_step [OF ctx_reaches_start step_create]) (simp_all add: race_steps)
  then have "ctx_reaches ctx_init ?s2" by (rule ctx_reaches_step [OF _ step_created]) (simp_all add: race_steps)
  then have "ctx_reaches ctx_init ?s3" by (rule ctx_reaches_step [OF _ step_start]) (simp_all add: race_steps)
  then have "ctx_reaches ctx_init ?s4" by (rule ctx_reaches_step [OF _ step_block]) (simp_all add: race_steps)
  then show ?thesis
    unfolding race_defs by (rule ctx_reaches_step [OF _ step_created]) (simp_all add: race_steps)
qed

lemma created_simps:
  "cx_pc created_sys = (\<lambda>i. if i = 0 then Running else if i = 1 then Waiting else Absent)"
  "cx_state created_sys = (\<lambda>i. if i = 1 then BLOCKED else INITIAL)" "cx_owner created_sys = (\<lambda>_. None)"
  "\<not> cx_thrown created_sys"
  by (rule ext | simp add: race_steps created_sys_def)+

lemma calling_reached: "ctx_reaches ctx_init calling_sys"
proof -
  have "ctx_reaches ctx_init (goto 0 (Call_lock 1) created_sys)"
    by (rule ctx_reaches_step [OF created_reached step_call]) (simp_all add: created_simps alive_def)
  then show ?thesis
    unfolding calling_sys_def by (rule ctx_reaches_step [OF _ step_call_lock]) (simp_all add: created_simps free_def)
qed

lemma calling_simps:
  "cx_pc calling_sys = (\<lambda>i. if i = 0 then Call_release 1 else if i = 1 then Waiting else Absent)"
  "cx_state calling_sys = (\<lambda>i. if i = 1 then BLOCKED else INITIAL)"
  "cx_owner calling_sys = (\<lambda>i. if i = 1 then Some 0 else None)" "\<not> cx_thrown calling_sys"
  by (rule ext | simp add: calling_sys_def created_simps)+

lemma called_reached: "ctx_reaches ctx_init called_sys"
proof -
  let ?s1 = "goto 0 (Call_enter 1) (do_release (Some 1) 1 calling_sys)"
  let ?s2 = "call_enter 0 1 ?s1"
  let ?s3 = "goto 1 Woken (lock 1 1 ?s2)"
  have "ctx_reaches ctx_init ?s1"
    by (rule ctx_reaches_step [OF calling_reached step_call_release]) (simp_all add: calling_simps race_steps)
  then have "ctx_reaches ctx_init ?s2"
    by (rule ctx_reaches_step [OF _ step_call_enter]) (simp_all add: calling_simps race_steps)
  then have "ctx_reaches ctx_init ?s3"
    by (rule ctx_reaches_step [OF _ step_wake]) (simp_all add: calling_simps race_steps)
  then show ?thesis
    unfolding called_sys_def by (rule ctx_reaches_step [OF _ step_woken]) (simp_all add: calling_simps race_steps)
qed

lemma called_simps:
  "cx_pc called_sys = (\<lambda>i. if i = 0 then Waiting else if i = 1 then Running else Absent)"
  "cx_state called_sys = (\<lambda>i. if i = 1 then RELEASED else if i = 0 then BLOCKED else INITIAL)"
  "cx_owner called_sys = (\<lambda>_. None)" "\<not> cx_thrown called_sys"
  by (rule ext | simp add: called_sys_def calling_simps race_steps)+

lemma left_reached: "ctx_reaches ctx_init left_sys"
proof -
  let ?s1 = "goto 1 (Exit_lock 0) called_sys"
  let ?s2 = "exit_release (Some 0) 1 0 ?s1"
  let ?s3 = "goto 0 Woken (lock 0 0 ?s2)"
  have "ctx_reaches ctx_init ?s1"
    by (rule ctx_reaches_step [OF called_reached step_exit]) (simp_all add: called_simps alive_def)
  then have "ctx_reaches ctx_init ?s2"
    by (rule ctx_reaches_step [OF _ step_exit_release]) (simp_all add: called_simps race_steps)
  then have "ctx_reaches ctx_init ?s3"
    by (rule ctx_reaches_step [OF _ step_wake]) (simp_all add: called_simps race_steps)
  then show ?thesis
    unfolding left_sys_def by (rule ctx_reaches_step [OF _ step_woken]) (simp_all add: called_simps race_steps)
qed

lemma left_simps:
  "cx_pc left_sys = (\<lambda>i. if i = 0 then Running else if i = 1 then Leave_lock else Absent)"
  "cx_state left_sys = (\<lambda>i. if i = 1 \<or> i = 0 then RELEASED else INITIAL)"
  "cx_owner left_sys = (\<lambda>_. None)" "\<not> cx_thrown left_sys"
  by (rule ext | simp add: left_sys_def called_simps race_steps)+

lemma race_reached: "ctx_reaches ctx_init race_sys"
proof -
  have "ctx_reaches ctx_init (goto 0 (Call_lock 1) left_sys)"
    by (rule ctx_reaches_step [OF left_reached step_call]) (simp_all add: left_simps alive_def)
  then show ?thesis
    unfolding race_sys_def by (rule ctx_reaches_step [OF _ step_call_lock]) (simp_all add: left_simps free_def)
qed

lemma race_simps:
  "cx_pc race_sys 0 = Call_release 1" "cx_pc race_sys 1 = Leave_lock" "cx_state race_sys 1 = RELEASED"
  "\<not> cx_thrown race_sys"
  by (simp_all add: race_sys_def left_simps)

lemma race_step: "ctx_step race_sys (goto 0 (Call_enter 1) (do_release None 1 race_sys))"
  by (rule step_call_release) (auto simp: race_sys_def left_simps race_steps)

lemma race_thrown: "cx_thrown (goto 0 (Call_enter 1) (do_release None 1 race_sys))"
  using race_simps(3) by (simp add: do_release_def)

theorem contexts_exclude_witness: "\<exists>!t. in_control race_sys t"
  by (rule contexts_exclude) (simp_all add: race_reached race_simps)

text \<open>The pump's thread is about to release the coroutine it calls, which waits.\<close>

theorem contexts_progress_witness: "\<exists>s' k. ctx_step\<^sup>*\<^sup>* calling_sys s' \<and> \<not> cx_thrown s' \<and> cx_pc s' k = Running"
  by (rule contexts_progress [OF calling_reached]) (auto simp: calling_simps split: if_splits)

theorem release_refused_only_leaving_witness:
  "\<exists>k j. cx_pc race_sys k \<in> {Yield_release j, Call_release j, Exit_lock j} \<and> cx_pc race_sys j = Leave_lock"
  by (rule release_refused_only_leaving [OF race_reached race_simps(4) race_step race_thrown])

text \<open>A call can fail so: a coroutine that releases the pump's own thread and returns is called again before it has
  locked its mutex.\<close>

lemma call_after_exit_throws:
  "\<exists>s s'. ctx_reaches ctx_init s \<and> \<not> cx_thrown s \<and> cx_pc s 0 = Call_release 1 \<and> cx_pc s 1 = Leave_lock \<and>
     ctx_step s s' \<and> cx_thrown s'"
  using race_reached race_step race_simps race_thrown by blast

end
