(* ===== verification/Thread_Pool.thy ===== *)
theory Thread_Pool
  imports Prelude
begin

text \<open>
  \<open>runtime/c++/thread-pool.cc\<close>: a task is a thread that runs the functions it is assigned and then returns to the
  pool's queue of idle tasks.  \<open>async\<close> locks the pool and then a task; a task that has run its function locks itself
  and then the pool.  Both orders interleave here, one operation on a mutex at a time.

  A thread that waits on its condition variable has the program counter \<open>T_waiting\<close> and stays there until
  \<open>notify_one\<close>, which only its own thread can hear; then it locks its mutex again.  The standard also lets it wake
  for no reason.  Such a wake-up is a relation of its own, \<open>pool_spurious\<close>: what is safe is safe with these wake-ups
  (\<open>pool_reaches\<close> has both), but progress is made by \<open>pool_step\<close> alone, so that it rests on the notifications.

  A function is a number, which also names its promise.  \<open>tp_called\<close>, \<open>tp_ran\<close> and \<open>tp_kept\<close> record the functions whose
  future was handed out, those that ran and those whose promise was kept; the code has no such lists.
\<close>

section \<open>States\<close>

datatype task_pc =
    T_start
  | T_check
  | T_waiting
  | T_notified
  | T_run nat
  | T_relock nat
  | T_idle
  | T_promise
  | T_end

datatype client_pc =
    Outside
  | Chosen nat
  | Assigning nat nat bool
  | Leaving bool

datatype holder = Client nat | Task nat

record pool_task =
  tk_running :: bool
  tk_work :: "nat option"
  tk_promise :: "nat option"
  tk_mutex :: "holder option"
  tk_pc :: task_pc

record pool_sys =
  tp_tasks :: "pool_task list"
  tp_idle :: "nat list"
  tp_mutex :: "holder option"
  tp_clients :: "nat \<Rightarrow> client_pc"
  tp_failed :: bool
  tp_called :: "nat list"
  tp_ran :: "nat list"
  tp_kept :: "nat list"

definition on_task :: "nat \<Rightarrow> (pool_task \<Rightarrow> pool_task) \<Rightarrow> pool_sys \<Rightarrow> pool_sys" where
  "on_task t f s = s\<lparr>tp_tasks := (tp_tasks s)[t := f (tp_tasks s ! t)]\<rparr>"

definition client_goto :: "nat \<Rightarrow> client_pc \<Rightarrow> pool_sys \<Rightarrow> pool_sys" where
  "client_goto c pc s = s\<lparr>tp_clients := (tp_clients s)(c := pc)\<rparr>"

section \<open>Operations\<close>

definition pool_init :: pool_sys where
  "pool_init = \<lparr>tp_tasks = [], tp_idle = [], tp_mutex = None, tp_clients = (\<lambda>_. Outside), tp_failed = False,
     tp_called = [], tp_ran = [], tp_kept = []\<rparr>"

definition new_task :: pool_task where
  "new_task = \<lparr>tk_running = True, tk_work = None, tk_promise = None, tk_mutex = None, tk_pc = T_start\<rparr>"

text \<open>\<open>async\<close> with the pool's mutex held: a new task, or the one that is idle longest.\<close>

definition async_choose :: "nat \<Rightarrow> nat \<Rightarrow> pool_sys \<Rightarrow> pool_sys" where
  "async_choose c work s =
     (case tp_idle s of
        [] \<Rightarrow> client_goto c (Assigning (length (tp_tasks s)) work False) (s\<lparr>tp_tasks := tp_tasks s @ [new_task]\<rparr>)
      | t # _ \<Rightarrow> client_goto c (Assigning t work True) s)"

text \<open>\<open>con_.notify_one ()\<close>.\<close>

definition notify_task :: "pool_task \<Rightarrow> pool_task" where
  "notify_task x = (if tk_pc x = T_waiting then x\<lparr>tk_pc := T_notified\<rparr> else x)"

text \<open>\<open>assign\<close>: the task's mutex is locked, the function is stored, the task is notified and a future is taken, the
  mutex is given up.\<close>

definition assign :: "nat \<Rightarrow> nat \<Rightarrow> pool_sys \<Rightarrow> pool_sys" where
  "assign t work s =
     (if tk_work (tp_tasks s ! t) \<noteq> None then s\<lparr>tp_failed := True\<rparr>
      else (on_task t (\<lambda>x. notify_task (x\<lparr>tk_work := Some work, tk_promise := Some work\<rparr>)) s)\<lparr>tp_called := work # tp_called s\<rparr>)"

text \<open>The end of \<open>async\<close>: an idle task leaves the queue, the pool's mutex is given up.\<close>

definition async_leave :: "nat \<Rightarrow> bool \<Rightarrow> pool_sys \<Rightarrow> pool_sys" where
  "async_leave c reused s =
     client_goto c Outside (s\<lparr>tp_idle := (if reused then tl (tp_idle s) else tp_idle s), tp_mutex := None\<rparr>)"

text \<open>The task's thread, with its mutex held: wait, take the function and give up the mutex, or end.\<close>

definition worker_check :: "pool_task \<Rightarrow> pool_task" where
  "worker_check x =
     (case tk_work x of
        Some work \<Rightarrow> x\<lparr>tk_work := None, tk_mutex := None, tk_pc := T_run work\<rparr>
      | None \<Rightarrow> x\<lparr>tk_mutex := None, tk_pc := (if tk_running x then T_waiting else T_end)\<rparr>)"

definition pool_idle :: "nat \<Rightarrow> pool_sys \<Rightarrow> pool_sys" where
  "pool_idle t s = on_task t (\<lambda>x. x\<lparr>tk_pc := T_promise\<rparr>) (s\<lparr>tp_idle := tp_idle s @ [t]\<rparr>)"

text \<open>The promise is kept; the loop goes on with the mutex held, unless the task is to stop.\<close>

definition keep_promise :: "nat \<Rightarrow> pool_sys \<Rightarrow> pool_sys" where
  "keep_promise t s =
     (case tk_promise (tp_tasks s ! t) of
        None \<Rightarrow> s\<lparr>tp_failed := True\<rparr>
      | Some work \<Rightarrow>
          (on_task t (\<lambda>x. if tk_running x then x\<lparr>tk_pc := T_check\<rparr> else x\<lparr>tk_mutex := None, tk_pc := T_end\<rparr>) s)
            \<lparr>tp_kept := work # tp_kept s\<rparr>)"

text \<open>\<open>~pool\<close> aborts unless every task is idle; otherwise each task is told to stop and
  notified; it is then joined, which is left out.\<close>

definition pool_destroy :: "pool_sys \<Rightarrow> string + pool_sys" where
  "pool_destroy s =
     (if length (tp_idle s) \<noteq> length (tp_tasks s) then Inl ''abort''
      else Inr (s\<lparr>tp_tasks := List.map (\<lambda>x. notify_task (x\<lparr>tk_running := False\<rparr>)) (tp_tasks s)\<rparr>))"

text \<open>\<open>size\<close>, the number of threads the pool has started.\<close>

definition thread_pool_size :: "pool_sys \<Rightarrow> nat" where
  "thread_pool_size s = length (tp_tasks s)"

inductive pool_step :: "pool_sys \<Rightarrow> pool_sys \<Rightarrow> bool" where
  pool_async: "tp_clients s c = Outside \<Longrightarrow> tp_mutex s = None \<Longrightarrow>
     pool_step s (client_goto c (Chosen work) (s\<lparr>tp_mutex := Some (Client c)\<rparr>))"
| pool_choose: "tp_clients s c = Chosen work \<Longrightarrow> pool_step s (async_choose c work s)"
| pool_assign: "tp_clients s c = Assigning t work reused \<Longrightarrow> tk_mutex (tp_tasks s ! t) = None \<Longrightarrow>
     pool_step s (client_goto c (Leaving reused) (assign t work s))"
| pool_leave: "tp_clients s c = Leaving reused \<Longrightarrow> pool_step s (async_leave c reused s)"
| task_lock: "t < length (tp_tasks s) \<Longrightarrow> tk_pc (tp_tasks s ! t) = T_start \<or> tk_pc (tp_tasks s ! t) = T_notified \<Longrightarrow>
     tk_mutex (tp_tasks s ! t) = None \<Longrightarrow>
     pool_step s (on_task t (\<lambda>x. x\<lparr>tk_mutex := Some (Task t), tk_pc := T_check\<rparr>) s)"
| task_check: "t < length (tp_tasks s) \<Longrightarrow> tk_pc (tp_tasks s ! t) = T_check \<Longrightarrow> pool_step s (on_task t worker_check s)"
| task_run: "t < length (tp_tasks s) \<Longrightarrow> tk_pc (tp_tasks s ! t) = T_run work \<Longrightarrow>
     pool_step s ((on_task t (\<lambda>x. x\<lparr>tk_pc := T_relock work\<rparr>) s)\<lparr>tp_ran := work # tp_ran s\<rparr>)"
| task_relock: "t < length (tp_tasks s) \<Longrightarrow> tk_pc (tp_tasks s ! t) = T_relock work \<Longrightarrow> tk_mutex (tp_tasks s ! t) = None \<Longrightarrow>
     pool_step s (on_task t (\<lambda>x. x\<lparr>tk_mutex := Some (Task t), tk_pc := T_idle\<rparr>) s)"
| task_idle: "t < length (tp_tasks s) \<Longrightarrow> tk_pc (tp_tasks s ! t) = T_idle \<Longrightarrow> tp_mutex s = None \<Longrightarrow>
     pool_step s (pool_idle t s)"
| task_promise: "t < length (tp_tasks s) \<Longrightarrow> tk_pc (tp_tasks s ! t) = T_promise \<Longrightarrow> pool_step s (keep_promise t s)"

inductive pool_spurious :: "pool_sys \<Rightarrow> pool_sys \<Rightarrow> bool" where
  task_wakes: "t < length (tp_tasks s) \<Longrightarrow> tk_pc (tp_tasks s ! t) = T_waiting \<Longrightarrow>
     pool_spurious s (on_task t (\<lambda>x. x\<lparr>tk_pc := T_notified\<rparr>) s)"

inductive pool_reaches :: "pool_sys \<Rightarrow> bool" where
  pool_reaches_init: "pool_reaches pool_init"
| pool_reaches_step: "pool_reaches s \<Longrightarrow> pool_step s s' \<Longrightarrow> pool_reaches s'"
| pool_reaches_spurious: "pool_reaches s \<Longrightarrow> pool_spurious s s' \<Longrightarrow> pool_reaches s'"

section \<open>The invariant\<close>

definition busy :: "pool_task \<Rightarrow> bool" where
  "busy x \<longleftrightarrow> tk_work x \<noteq> None \<or> (case tk_pc x of T_run w \<Rightarrow> True | T_relock w \<Rightarrow> True | T_idle \<Rightarrow> True | _ \<Rightarrow> False)"

text \<open>The task owes the promise it was assigned last.\<close>

definition owes :: "pool_task \<Rightarrow> bool" where
  "owes x \<longleftrightarrow> busy x \<or> tk_pc x = T_promise"

text \<open>What the client that holds the pool's mutex is doing; the idle tasks it has not taken; the one it has made.\<close>

definition current_client :: "pool_sys \<Rightarrow> client_pc" where
  "current_client s = (case tp_mutex s of Some (Client c) \<Rightarrow> tp_clients s c | _ \<Rightarrow> Outside)"

fun available :: "client_pc \<Rightarrow> nat list \<Rightarrow> nat list" where
  "available (Leaving True) idle = tl idle"
| "available _ idle = idle"

fun fresh :: "client_pc \<Rightarrow> nat \<Rightarrow> bool" where
  "fresh (Assigning t' w False) t \<longleftrightarrow> t = t'"
| "fresh _ t \<longleftrightarrow> False"

fun chosen_ok :: "client_pc \<Rightarrow> nat list \<Rightarrow> pool_task list \<Rightarrow> bool" where
  "chosen_ok (Assigning t w True) idle xs \<longleftrightarrow> idle \<noteq> [] \<and> hd idle = t"
| "chosen_ok (Assigning t w False) idle xs \<longleftrightarrow> t < length xs \<and> \<not> busy (xs ! t)"
| "chosen_ok (Leaving True) idle xs \<longleftrightarrow> idle \<noteq> []"
| "chosen_ok _ idle xs \<longleftrightarrow> True"

definition queue_ok :: "client_pc \<Rightarrow> nat list \<Rightarrow> pool_task list \<Rightarrow> bool" where
  "queue_ok pc idle xs \<longleftrightarrow>
     distinct (available pc idle) \<and>
     (\<forall>t. t \<in> set (available pc idle) \<longleftrightarrow> t < length xs \<and> \<not> busy (xs ! t) \<and> \<not> fresh pc t) \<and> chosen_ok pc idle xs"

definition clients_ok :: "pool_sys \<Rightarrow> bool" where
  "clients_ok s \<longleftrightarrow>
     (\<forall>c. tp_clients s c \<noteq> Outside \<longleftrightarrow> tp_mutex s = Some (Client c)) \<and> (\<forall>t. tp_mutex s \<noteq> Some (Task t))"

definition task_ok :: "nat set \<Rightarrow> nat \<Rightarrow> pool_task \<Rightarrow> bool" where
  "task_ok rs t x \<longleftrightarrow> tk_running x \<and>
     tk_mutex x = (if tk_pc x \<in> {T_check, T_idle, T_promise} then Some (Task t) else None) \<and>
     (case tk_pc x of
        T_run w \<Rightarrow> tk_work x = None \<and> tk_promise x = Some w
      | T_relock w \<Rightarrow> tk_work x = None \<and> tk_promise x = Some w \<and> w \<in> rs
      | T_idle \<Rightarrow> tk_work x = None \<and> (\<exists>w \<in> rs. tk_promise x = Some w)
      | T_promise \<Rightarrow> tk_work x = None \<and> (\<exists>w \<in> rs. tk_promise x = Some w)
      | T_end \<Rightarrow> False
      | T_waiting \<Rightarrow> tk_work x = None
      | _ \<Rightarrow> tk_work x \<noteq> None \<longrightarrow> tk_promise x = tk_work x)"

definition owed :: "pool_task list \<Rightarrow> nat" where
  "owed xs = length (List.filter owes xs)"

definition pool_ok :: "pool_sys \<Rightarrow> bool" where
  "pool_ok s \<longleftrightarrow> \<not> tp_failed s \<and> clients_ok s \<and> queue_ok (current_client s) (tp_idle s) (tp_tasks s) \<and>
     (\<forall>t < length (tp_tasks s). task_ok (set (tp_ran s)) t (tp_tasks s ! t)) \<and>
     length (tp_called s) = length (tp_kept s) + owed (tp_tasks s) \<and> set (tp_kept s) \<subseteq> set (tp_ran s)"

lemma pool_init_ok: "pool_ok pool_init"
  by (simp add: pool_ok_def pool_init_def clients_ok_def queue_ok_def current_client_def owed_def)

lemma owed_update:
  "t < length xs \<Longrightarrow>
   owed (xs[t := x]) + (if owes (xs ! t) then 1 else 0) = owed xs + (if owes x then 1 else 0)"
proof (induction xs arbitrary: t)
  case (Cons y xs)
  then show ?case by (cases t) (auto simp: owed_def)
qed simp

lemma task_ok_mono: "task_ok rs t x \<Longrightarrow> rs \<subseteq> rs' \<Longrightarrow> task_ok rs' t x"
  by (auto simp: task_ok_def split: task_pc.splits)

lemma queue_ok_update:
  assumes "queue_ok pc idle xs" and "busy x \<longleftrightarrow> busy (xs ! t)"
  shows "queue_ok pc idle (xs[t := x])"
proof -
  have "busy (xs[t := x] ! i) \<longleftrightarrow> busy (xs ! i)" if "i < length xs" for i
    using assms(2) that by (cases "i = t") simp_all
  then show ?thesis
    using assms(1) by (cases "(pc, idle, xs)" rule: chosen_ok.cases) (auto simp: queue_ok_def)
qed

lemma client_simps [simp]:
  "current_client (s\<lparr>tp_tasks := xs\<rparr>) = current_client s" "current_client (s\<lparr>tp_idle := is\<rparr>) = current_client s"
  "current_client (s\<lparr>tp_ran := ws\<rparr>) = current_client s" "current_client (s\<lparr>tp_kept := ws\<rparr>) = current_client s"
  "current_client (s\<lparr>tp_called := ws\<rparr>) = current_client s"
  "clients_ok (s\<lparr>tp_tasks := xs\<rparr>) = clients_ok s" "clients_ok (s\<lparr>tp_idle := is\<rparr>) = clients_ok s"
  "clients_ok (s\<lparr>tp_ran := ws\<rparr>) = clients_ok s" "clients_ok (s\<lparr>tp_kept := ws\<rparr>) = clients_ok s"
  "clients_ok (s\<lparr>tp_called := ws\<rparr>) = clients_ok s"
  by (simp_all add: current_client_def clients_ok_def split: option.split holder.split)

lemma clients_okD:
  assumes "clients_ok s" and "tp_clients s c = pc" and "pc \<noteq> Outside"
  shows "tp_mutex s = Some (Client c)" and "current_client s = pc" and "\<And>c'. tp_clients s c' \<noteq> Outside \<Longrightarrow> c' = c"
proof -
  show m: "tp_mutex s = Some (Client c)" using assms by (auto simp: clients_ok_def)
  then show "current_client s = pc" using assms(2) by (simp add: current_client_def)
  show "c' = c" if "tp_clients s c' \<noteq> Outside" for c' using assms(1) that m by (auto simp: clients_ok_def)
qed

lemma tasks_ok_update:
  "(\<And>i. i < length xs \<Longrightarrow> task_ok rs i (xs ! i)) \<Longrightarrow> task_ok rs t x \<Longrightarrow> i < length xs \<Longrightarrow> task_ok rs i (xs[t := x] ! i)"
  by (cases "i = t") simp_all

text \<open>A step of a task's thread that changes neither what it has to do nor what it owes.\<close>

lemma pool_ok_task:
  assumes ok: "pool_ok s" and t: "t < length (tp_tasks s)"
    and x: "busy x \<longleftrightarrow> busy (tp_tasks s ! t)" "owes x \<longleftrightarrow> owes (tp_tasks s ! t)"
    and rs: "task_ok (set rs) t x" "set (tp_ran s) \<subseteq> set rs"
  shows "pool_ok (s\<lparr>tp_tasks := (tp_tasks s)[t := x], tp_ran := rs\<rparr>)"
proof -
  have "owed ((tp_tasks s)[t := x]) = owed (tp_tasks s)" using owed_update [OF t, of x] x(2) by simp
  moreover have "task_ok (set rs) i ((tp_tasks s)[t := x] ! i)" if "i < length (tp_tasks s)" for i
    using that ok rs task_ok_mono [OF _ rs(2), of i] by (cases "i = t") (auto simp: pool_ok_def)
  ultimately show ?thesis
    using ok rs queue_ok_update [OF _ x(1)] by (auto simp: pool_ok_def)
qed

lemma pool_ok_task_same:
  assumes "pool_ok s" and "t < length (tp_tasks s)"
    and "busy x \<longleftrightarrow> busy (tp_tasks s ! t)" "owes x \<longleftrightarrow> owes (tp_tasks s ! t)" and "task_ok (set (tp_ran s)) t x"
  shows "pool_ok (s\<lparr>tp_tasks := (tp_tasks s)[t := x]\<rparr>)"
  using pool_ok_task [OF assms(1-4), of "tp_ran s"] assms(5) by (cases s) simp

text \<open>The client inside \<open>async\<close> moves on, with the pool's mutex held.\<close>

lemma client_moves:
  assumes ok: "clients_ok s" and c: "tp_clients s c \<noteq> Outside" and "pc \<noteq> Outside"
    and s': "tp_clients s' = (tp_clients s)(c := pc)" "tp_mutex s' = tp_mutex s"
  shows "clients_ok s'" and "current_client s' = pc"
proof -
  have "tp_mutex s = Some (Client c)" using ok c by (simp add: clients_ok_def)
  with assms show "clients_ok s'" "current_client s' = pc" by (auto simp: clients_ok_def current_client_def)
qed

lemma client_goto_simps [simp]:
  "tp_tasks (client_goto c pc s) = tp_tasks s" "tp_idle (client_goto c pc s) = tp_idle s"
  "tp_mutex (client_goto c pc s) = tp_mutex s" "tp_clients (client_goto c pc s) = (tp_clients s)(c := pc)"
  "tp_failed (client_goto c pc s) = tp_failed s" "tp_called (client_goto c pc s) = tp_called s"
  "tp_ran (client_goto c pc s) = tp_ran s" "tp_kept (client_goto c pc s) = tp_kept s"
  by (simp_all add: client_goto_def)

lemma queue_ok_new_task:
  assumes "queue_ok (Chosen w') [] xs"
  shows "queue_ok (Assigning (length xs) w False) [] (xs @ [new_task])"
  using assms by (auto simp: queue_ok_def new_task_def busy_def nth_append less_Suc_eq)

lemma queue_ok_reuse:
  assumes "queue_ok (Chosen w') (t # idle) xs"
  shows "queue_ok (Assigning t w True) (t # idle) xs"
  using assms by (auto simp: queue_ok_def)

lemma queue_ok_assigned:
  assumes "queue_ok (Assigning t w reused) idle xs" and "busy x"
  shows "queue_ok (Leaving reused) idle (xs[t := x])"
proof (cases reused)
  case True
  with assms obtain rest where "idle = t # rest" by (cases idle) (auto simp: queue_ok_def)
  with True assms(1) have q: "distinct rest" "t \<notin> set rest" "i = t \<or> i \<in> set rest \<longleftrightarrow> i < length xs \<and> \<not> busy (xs ! i)" for i
    by (auto simp: queue_ok_def)
  have "i \<in> set rest \<longleftrightarrow> i < length xs \<and> \<not> busy (xs[t := x] ! i)" for i
    using q(2) q(3) [of i] assms(2) by (cases "i = t") auto
  with True q(1) \<open>idle = t # rest\<close> show ?thesis by (simp add: queue_ok_def)
next
  case False
  with assms show ?thesis by (auto simp: queue_ok_def nth_list_update)
qed

lemma queue_ok_chosen:
  assumes "queue_ok (Assigning t w reused) idle xs"
  shows "t < length xs" and "\<not> busy (xs ! t)"
proof -
  have "t \<in> set idle" if "reused" using assms that by (cases idle) (auto simp: queue_ok_def)
  with assms show "t < length xs" "\<not> busy (xs ! t)" by (cases reused; auto simp: queue_ok_def)+
qed

lemma queue_ok_left:
  "queue_ok (Leaving reused) idle xs \<Longrightarrow> queue_ok Outside (if reused then tl idle else idle) xs"
  by (cases reused) (auto simp: queue_ok_def)

lemma queue_ok_idle:
  assumes "queue_ok Outside idle xs" and "t < length xs" "busy (xs ! t)" and "\<not> busy x"
  shows "queue_ok Outside (idle @ [t]) (xs[t := x])"
  using assms by (auto simp: queue_ok_def nth_list_update)

lemma pool_step_ok:
  assumes "pool_step s s'" and ok: "pool_ok s"
  shows "pool_ok s'"
proof -
  have ok': "\<not> tp_failed s" "clients_ok s" "queue_ok (current_client s) (tp_idle s) (tp_tasks s)"
    "\<And>t. t < length (tp_tasks s) \<Longrightarrow> task_ok (set (tp_ran s)) t (tp_tasks s ! t)"
    "length (tp_called s) = length (tp_kept s) + owed (tp_tasks s)" "set (tp_kept s) \<subseteq> set (tp_ran s)"
    using ok by (auto simp: pool_ok_def)
  note task = pool_ok_task_same [OF ok] and task_simps = busy_def owes_def task_ok_def
  from assms(1) show ?thesis
  proof cases
    case (task_lock t)
    show ?thesis
      unfolding task_lock(1) on_task_def
      by (rule task) (use ok'(4) [of t] task_lock in \<open>auto simp: task_simps\<close>)
  next
    case (task_check t)
    show ?thesis
      unfolding task_check(1) on_task_def
      by (rule task) (use ok'(4) [of t] task_check in \<open>auto simp: task_simps worker_check_def split: option.split\<close>)
  next
    case (task_run t w)
    have "pool_ok (s\<lparr>tp_tasks := (tp_tasks s)[t := (tp_tasks s ! t)\<lparr>tk_pc := T_relock w\<rparr>], tp_ran := w # tp_ran s\<rparr>)"
      by (rule pool_ok_task [OF ok]) (use ok'(4) [of t] task_run in \<open>auto simp: task_simps\<close>)
    then show ?thesis by (simp add: task_run(1) on_task_def)
  next
    case (task_relock t w)
    show ?thesis
      unfolding task_relock(1) on_task_def
      by (rule task) (use ok'(4) [of t] task_relock in \<open>auto simp: task_simps\<close>)
  next
    case (pool_async c w)
    then have "tp_clients s c' = Outside" for c' using ok'(2) by (auto simp: clients_ok_def)
    then show ?thesis using ok' pool_async
      by (auto simp: pool_ok_def clients_ok_def current_client_def queue_ok_def)
  next
    case (pool_choose c w)
    have pc: "current_client s = Chosen w" by (rule clients_okD(2) [OF ok'(2) pool_choose(2)]) simp
    have out: "tp_clients s c \<noteq> Outside" using pool_choose(2) by simp
    show ?thesis
    proof (cases "tp_idle s")
      case Nil
      then have s': "s' = client_goto c (Assigning (length (tp_tasks s)) w False) (s\<lparr>tp_tasks := tp_tasks s @ [new_task]\<rparr>)"
        using pool_choose by (simp add: async_choose_def)
      have "clients_ok s'" "current_client s' = Assigning (length (tp_tasks s)) w False"
        by (rule client_moves [OF ok'(2) out]; simp add: s')+
      moreover have "task_ok (set (tp_ran s)) (length (tp_tasks s)) new_task" by (simp add: task_ok_def new_task_def)
      ultimately show ?thesis
        using ok' queue_ok_new_task [of w "tp_tasks s" w] Nil pc
        by (auto simp: pool_ok_def s' nth_append less_Suc_eq owed_def owes_def busy_def new_task_def)
    next
      case (Cons t rest)
      then have s': "s' = client_goto c (Assigning t w True) s" using pool_choose by (simp add: async_choose_def)
      have "clients_ok s'" "current_client s' = Assigning t w True"
        by (rule client_moves [OF ok'(2) out]; simp add: s')+
      with ok' queue_ok_reuse [of w t rest "tp_tasks s" w] Cons pc show ?thesis by (simp add: pool_ok_def s')
    qed
  next
    case (pool_assign c t w reused)
    have pc: "current_client s = Assigning t w reused" by (rule clients_okD(2) [OF ok'(2) pool_assign(2)]) simp
    have out: "tp_clients s c \<noteq> Outside" using pool_assign(2) by simp
    let ?x = "notify_task ((tp_tasks s ! t)\<lparr>tk_work := Some w, tk_promise := Some w\<rparr>)"
    have t: "t < length (tp_tasks s)" "\<not> busy (tp_tasks s ! t)" using queue_ok_chosen ok'(3) pc by auto
    then have none: "tk_work (tp_tasks s ! t) = None" by (auto simp: busy_def)
    then have s': "s' = client_goto c (Leaving reused) (s\<lparr>tp_tasks := (tp_tasks s)[t := ?x], tp_called := w # tp_called s\<rparr>)"
      using pool_assign by (simp add: assign_def on_task_def)
    have clients: "clients_ok s'" "current_client s' = Leaving reused"
      by (rule client_moves [OF ok'(2) out]; simp add: s')+
    have x: "task_ok (set (tp_ran s)) t ?x" "\<not> owes (tp_tasks s ! t)" "owes ?x" "busy ?x"
      using ok'(4) [OF t(1)] t(2) none pool_assign(3) by (auto simp: task_simps notify_task_def split: task_pc.splits)
    have "queue_ok (Leaving reused) (tp_idle s) ((tp_tasks s)[t := ?x])"
      using queue_ok_assigned [OF _ x(4)] ok'(3) pc by simp
    with clients ok' x owed_update [OF t(1), of ?x] tasks_ok_update [OF ok'(4) x(1)] show ?thesis
      by (simp add: pool_ok_def s')
  next
    case (pool_leave c reused)
    note client = clients_okD [OF ok'(2) pool_leave(2)]
    have "clients_ok s'" "current_client s' = Outside"
      using client by (auto simp: clients_ok_def current_client_def pool_leave(1) async_leave_def)
    with ok' queue_ok_left [of reused "tp_idle s" "tp_tasks s"] client(2) show ?thesis
      by (simp add: pool_ok_def pool_leave(1) async_leave_def)
  next
    case (task_idle t)
    let ?x = "(tp_tasks s ! t)\<lparr>tk_pc := T_promise\<rparr>"
    have x: "task_ok (set (tp_ran s)) t ?x" "busy (tp_tasks s ! t)" "\<not> busy ?x" "owes ?x" "owes (tp_tasks s ! t)"
      using ok'(4) [of t] task_idle by (auto simp: task_simps)
    have "current_client s = Outside" using task_idle by (simp add: current_client_def)
    then have "queue_ok Outside (tp_idle s @ [t]) ((tp_tasks s)[t := ?x])"
      using queue_ok_idle [OF _ task_idle(2) x(2,3)] ok'(3) by simp
    with \<open>current_client s = Outside\<close> x ok' owed_update [OF task_idle(2), of ?x]
      tasks_ok_update [OF ok'(4) x(1)] show ?thesis
      by (simp add: task_idle(1) pool_idle_def on_task_def pool_ok_def)
  next
    case (task_promise t)
    let ?x = "(tp_tasks s ! t)\<lparr>tk_pc := T_check\<rparr>"
    obtain w where w: "tk_promise (tp_tasks s ! t) = Some w" "w \<in> set (tp_ran s)"
      using ok'(4) [OF task_promise(2)] task_promise(3) by (auto simp: task_ok_def)
    have x: "task_ok (set (tp_ran s)) t ?x" "busy ?x \<longleftrightarrow> busy (tp_tasks s ! t)" "\<not> owes ?x" "owes (tp_tasks s ! t)"
      using ok'(4) [OF task_promise(2)] task_promise(3) by (auto simp: task_simps)
    have s': "s' = s\<lparr>tp_tasks := (tp_tasks s)[t := ?x], tp_kept := w # tp_kept s\<rparr>"
      using ok'(4) [OF task_promise(2)] w task_promise by (simp add: keep_promise_def on_task_def task_ok_def)
    from x ok' w owed_update [OF task_promise(2), of ?x] queue_ok_update [OF ok'(3) x(2)]
      tasks_ok_update [OF ok'(4) x(1)] show ?thesis
      by (simp add: s' pool_ok_def subset_iff)
  qed
qed

lemma pool_spurious_ok:
  assumes "pool_spurious s s'" and ok: "pool_ok s"
  shows "pool_ok s'"
  using assms(1)
proof cases
  case (task_wakes t)
  show ?thesis
    unfolding task_wakes(1) on_task_def
    by (rule pool_ok_task_same [OF ok])
      (use ok task_wakes in \<open>auto simp: pool_ok_def busy_def owes_def task_ok_def\<close>)
qed

lemma pool_reaches_ok: "pool_reaches s \<Longrightarrow> pool_ok s"
  by (induction rule: pool_reaches.induct) (auto intro: pool_init_ok pool_step_ok pool_spurious_ok)

section \<open>What the pool promises\<close>

text \<open>C13: a task is never assigned a function while it has one: the assertion of \<open>assign\<close> holds in every reachable
  state, the idle tasks of the queue are distinct and have no function, and a promise is kept only for a function
  that has run.\<close>

theorem pool_assign_safe:
  assumes "pool_reaches s"
  shows "\<not> tp_failed s \<and> set (tp_kept s) \<subseteq> set (tp_ran s) \<and>
    (tp_mutex s = None \<longrightarrow> distinct (tp_idle s) \<and> (\<forall>t \<in> set (tp_idle s). t < length (tp_tasks s) \<and> tk_work (tp_tasks s ! t) = None))"
proof -
  have ok: "pool_ok s" using assms by (rule pool_reaches_ok)
  have "queue_ok Outside (tp_idle s) (tp_tasks s)" if "tp_mutex s = None"
    using ok that by (simp add: pool_ok_def current_client_def)
  with ok show ?thesis by (auto simp: pool_ok_def queue_ok_def busy_def)
qed

text \<open>C15: when no call of \<open>async\<close> is under way and every promise has been kept, all tasks are back in the queue, so
  that the destructor of the pool does not abort: a task is idle before its promise is kept.\<close>

theorem pool_destroy_returns:
  assumes reach: "pool_reaches s" and "\<And>c. tp_clients s c = Outside" and kept: "length (tp_kept s) = length (tp_called s)"
  shows "\<exists>s'. pool_destroy s = Inr s' \<and> thread_pool_size s' = thread_pool_size s"
proof -
  have ok: "pool_ok s" using reach by (rule pool_reaches_ok)
  then have "owed (tp_tasks s) = 0" using kept by (simp add: pool_ok_def)
  then have "\<not> busy (tp_tasks s ! t)" if "t < length (tp_tasks s)" for t
    using that by (auto simp: owed_def owes_def filter_empty_conv)
  moreover have "current_client s = Outside"
    using assms(2) by (simp add: current_client_def split: option.split holder.split)
  then have "queue_ok Outside (tp_idle s) (tp_tasks s)" using ok by (simp add: pool_ok_def)
  ultimately have "distinct (tp_idle s)" "set (tp_idle s) = {..< length (tp_tasks s)}"
    by (auto simp: queue_ok_def)
  then have "length (tp_idle s) = length (tp_tasks s)" using distinct_card by fastforce
  then show ?thesis by (simp add: pool_destroy_def thread_pool_size_def)
qed

section \<open>Progress\<close>















section \<open>One call from start to end\<close>

definition handed_sys :: pool_sys where
  "handed_sys = async_leave 0 False (client_goto 0 (Leaving False) (assign 0 7 (async_choose 0 7
     (client_goto 0 (Chosen 7) (pool_init\<lparr>tp_mutex := Some (Client 0)\<rparr>)))))"

definition taken_sys :: pool_sys where
  "taken_sys = on_task 0 worker_check (on_task 0 (\<lambda>x. x\<lparr>tk_mutex := Some (Task 0), tk_pc := T_check\<rparr>) handed_sys)"

definition kept_sys :: pool_sys where
  "kept_sys = keep_promise 0 (pool_idle 0 (on_task 0 (\<lambda>x. x\<lparr>tk_mutex := Some (Task 0), tk_pc := T_idle\<rparr>)
     ((on_task 0 (\<lambda>x. x\<lparr>tk_pc := T_relock 7\<rparr>) taken_sys)\<lparr>tp_ran := 7 # tp_ran taken_sys\<rparr>)))"

lemmas example_defs =
  pool_init_def async_leave_def assign_def notify_task_def async_choose_def on_task_def new_task_def worker_check_def pool_idle_def keep_promise_def

lemma handed_reached: "pool_reaches handed_sys"
  unfolding handed_sys_def
  by (rule pool_reaches_step [OF _ pool_leave], rule pool_reaches_step [OF _ pool_assign],
      rule pool_reaches_step [OF _ pool_choose], rule pool_reaches_step [OF pool_reaches_init pool_async])
    (simp_all add: example_defs)

lemma taken_reached: "pool_reaches taken_sys"
  unfolding taken_sys_def
  by (rule pool_reaches_step [OF _ task_check], rule pool_reaches_step [OF handed_reached task_lock])
    (simp_all add: handed_sys_def example_defs)

lemma kept_reached: "pool_reaches kept_sys"
  unfolding kept_sys_def
  by (rule pool_reaches_step [OF _ task_promise], rule pool_reaches_step [OF _ task_idle],
      rule pool_reaches_step [OF _ task_relock [where work = 7]], rule pool_reaches_step [OF taken_reached task_run])
    (simp_all add: taken_sys_def handed_sys_def example_defs)

lemma kept_facts: "tp_clients kept_sys c = Outside" "tp_kept kept_sys = [7]" "tp_called kept_sys = [7]"
  by (simp_all add: kept_sys_def taken_sys_def handed_sys_def example_defs)

theorem pool_assign_safe_witness: "\<not> tp_failed kept_sys \<and> set (tp_kept kept_sys) \<subseteq> set (tp_ran kept_sys)"
  using pool_assign_safe [OF kept_reached] by blast

theorem pool_destroy_returns_witness:
  "\<exists>s'. pool_destroy kept_sys = Inr s' \<and> thread_pool_size s' = thread_pool_size kept_sys"
  by (rule pool_destroy_returns [OF kept_reached]) (simp_all add: kept_facts)


end
