(* ===== verification/Cpp_Meta.thy ===== *)
theory Cpp_Meta
  imports Cpp_Text
begin

text \<open>
  The tree of components, \<open>struct meta\<close> of \<open>dzn/meta.hh.in\<close>, and what \<open>dzn/runtime.hh\<close> does with it: \<open>apply\<close>,
  \<open>check_bindings\<close> and \<open>dump_tree\<close>.  \<open>children\<close> is the list of subtrees; \<open>parent\<close> points the other way and is what
  \<open>path\<close> follows, so that only a tree whose parents are set right (\<open>linked\<close>) is written with full names.

  The functions of \<open>ports_connected\<close> are generated: a parameter says whether one throws.
\<close>

datatype 'f cpp_meta =
  Cpp_meta (m_name: string) (m_type: string) (m_parent: "dzn_meta option") (m_children: "'f cpp_meta list")
    (m_ports_connected: "'f list")

text \<open>The node as others point to it.\<close>

definition meta_ref :: "'f cpp_meta \<Rightarrow> dzn_meta" where
  "meta_ref m = Dzn_meta (m_name m) (m_parent m)"

definition component_to_string :: "'f cpp_meta option \<Rightarrow> string" where
  "component_to_string c = (case c of None \<Rightarrow> ''<external>'' | Some m \<Rightarrow> m_name m)"

definition port_other :: "addr \<Rightarrow> cpp_port_meta \<Rightarrow> addr" where
  "port_other port meta = (if port = provide_port meta then require_port meta else provide_port meta)"

definition binding_error :: "cpp_port_meta \<Rightarrow> string \<Rightarrow> string" where
  "binding_error m msg =
     ''not connected: '' @
     cpp_path (if provide_component m \<noteq> NULL then provide_meta m else require_meta m)
       (if provide_component m \<noteq> NULL then provide_name m else require_name m) @ ''.'' @ msg"

text \<open>\<open>apply\<close>: the node, then its children; a function that throws ends it.\<close>

fun apply_meta :: "('f cpp_meta \<Rightarrow> 's \<Rightarrow> 's result) \<Rightarrow> 'f cpp_meta \<Rightarrow> 's \<Rightarrow> 's result"
  and apply_metas :: "('f cpp_meta \<Rightarrow> 's \<Rightarrow> 's result) \<Rightarrow> 'f cpp_meta list \<Rightarrow> 's \<Rightarrow> 's result" where
  "apply_meta f (Cpp_meta n t p cs ports) s = seq (f (Cpp_meta n t p cs ports) s) (\<lambda>s. apply_metas f cs s)"
| "apply_metas f [] s = Inr s"
| "apply_metas f (c # cs) s = seq (apply_meta f c s) (\<lambda>s. apply_metas f cs s)"

fun for_each :: "('f \<Rightarrow> 's \<Rightarrow> 's result) \<Rightarrow> 'f list \<Rightarrow> 's \<Rightarrow> 's result" where
  "for_each f [] s = Inr s"
| "for_each f (x # xs) s = seq (f x s) (\<lambda>s. for_each f xs s)"

definition check_bindings :: "('f \<Rightarrow> string option) \<Rightarrow> 'f cpp_meta \<Rightarrow> unit result" where
  "check_bindings unbound c =
     apply_meta (\<lambda>m. for_each (\<lambda>p _. case unbound p of None \<Rightarrow> Inr () | Some e \<Rightarrow> Inl (Thrown e)) (m_ports_connected m)) c ()"

definition dump_tree :: "'f cpp_meta \<Rightarrow> string \<Rightarrow> string result" where
  "dump_tree c os =
     apply_meta (\<lambda>m os. Inr (os @ cpp_path (Some (meta_ref m)) '''' @ '':'' @ m_type m @ endl)) c os"

section \<open>The order of a tree\<close>

fun nodes :: "'f cpp_meta \<Rightarrow> 'f cpp_meta list"
  and nodes_all :: "'f cpp_meta list \<Rightarrow> 'f cpp_meta list" where
  "nodes (Cpp_meta n t p cs ports) = Cpp_meta n t p cs ports # nodes_all cs"
| "nodes_all [] = []"
| "nodes_all (c # cs) = nodes c @ nodes_all cs"

lemma for_each_append: "for_each f (xs @ ys) s = seq (for_each f xs s) (\<lambda>s. for_each f ys s)"
  by (induction xs arbitrary: s) (auto simp: seq_def split: sum.split)

lemma apply_meta_nodes:
  "apply_meta f m s = for_each f (nodes m) s"
  "apply_metas f ms s = for_each f (nodes_all ms) s"
  by (induction f m s and f ms s rule: apply_meta_apply_metas.induct)
    (auto simp: for_each_append seq_def split: sum.split)

text \<open>Parents are set right below a node whose own parent is \<open>up\<close>.\<close>

fun linked :: "dzn_meta option \<Rightarrow> 'f cpp_meta \<Rightarrow> bool"
  and linked_all :: "dzn_meta option \<Rightarrow> 'f cpp_meta list \<Rightarrow> bool" where
  "linked up (Cpp_meta n t p cs ports) \<longleftrightarrow> p = up \<and> linked_all (Some (Dzn_meta n p)) cs"
| "linked_all up [] \<longleftrightarrow> True"
| "linked_all up (c # cs) \<longleftrightarrow> linked up c \<and> linked_all up cs"

text \<open>The lines a tree should give: every component with the names on the way from the root, and its type.\<close>

fun tree_lines :: "string list \<Rightarrow> 'f cpp_meta \<Rightarrow> string"
  and tree_lines_all :: "string list \<Rightarrow> 'f cpp_meta list \<Rightarrow> string" where
  "tree_lines ups (Cpp_meta n t p cs ports) =
     concat (List.map (\<lambda>a. a @ ''.'') ups) @ n @ '':'' @ t @ endl @ tree_lines_all (ups @ [n]) cs"
| "tree_lines_all ups [] = ''''"
| "tree_lines_all ups (c # cs) = tree_lines ups c @ tree_lines_all ups cs"

text \<open>The chain of parents for the names above.\<close>

fun chain_up :: "string list \<Rightarrow> dzn_meta option" where
  "chain_up [] = None"
| "chain_up (n # ups) = Some (Dzn_meta n (chain_up ups))"

lemma cpp_path_chain:
  "p \<noteq> [] \<Longrightarrow> cpp_path (Some (Dzn_meta n (chain_up ups))) p =
   concat (List.map (\<lambda>a. a @ ''.'') (rev ups)) @ n @ ''.'' @ p"
  by (induction ups arbitrary: n p) simp_all

lemma cpp_path_node:
  "n \<noteq> [] \<Longrightarrow> cpp_path (Some (Dzn_meta n (chain_up ups))) '''' = concat (List.map (\<lambda>a. a @ ''.'') (rev ups)) @ n"
  by (cases ups) (simp_all add: cpp_path_chain)

definition dump_node :: "'f cpp_meta \<Rightarrow> string \<Rightarrow> string result" where
  "dump_node m os = Inr (os @ cpp_path (Some (meta_ref m)) '''' @ '':'' @ m_type m @ endl)"

lemma dump_lines:
  fixes m :: "'f cpp_meta" and ms :: "'f cpp_meta list"
  shows "linked (chain_up ups) m \<Longrightarrow> (\<And>x. x \<in> set (nodes m) \<Longrightarrow> m_name x \<noteq> []) \<Longrightarrow>
      apply_meta dump_node m os = Inr (os @ tree_lines (rev ups) m)"
    and "linked_all (chain_up ups) ms \<Longrightarrow> (\<And>x. x \<in> set (nodes_all ms) \<Longrightarrow> m_name x \<noteq> []) \<Longrightarrow>
      apply_metas dump_node ms os = Inr (os @ tree_lines_all (rev ups) ms)"
proof (induction m and ms arbitrary: ups os and ups os rule: nodes_nodes_all.induct)
  case (1 n t p cs ports)
  from 1(2) 1(3) [of "Cpp_meta n t p cs ports"] have "linked_all (chain_up (n # ups)) cs" "n \<noteq> []" "p = chain_up ups" by auto
  with 1(1) [of "n # ups"] 1(3) show ?case by (simp add: dump_node_def meta_ref_def cpp_path_node)
qed auto

text \<open>C20: \<open>dump_tree\<close> of a system whose parents are linked writes one line for every component, parents before
  children, with its full name and its type; and \<open>check_bindings\<close> calls the connection checks of all components in
  the same order, throwing what the first check that fails throws, if one does.\<close>

theorem tree_is_walked:
  "(linked None c \<longrightarrow> (\<forall>x \<in> set (nodes c). m_name x \<noteq> []) \<longrightarrow> dump_tree c os = Inr (os @ tree_lines [] c)) \<and>
   check_bindings unbound c =
     (case find (\<lambda>p. unbound p \<noteq> None) (concat (List.map m_ports_connected (nodes c))) of
        None \<Rightarrow> Inr () | Some p \<Rightarrow> Inl (Thrown (the (unbound p))))"
proof -
  let ?check = "\<lambda>p _. case unbound p of None \<Rightarrow> Inr () | Some e \<Rightarrow> Inl (Thrown e)"
  let ?outcome = "\<lambda>ps. case find (\<lambda>p. unbound p \<noteq> None) ps of None \<Rightarrow> Inr () | Some p \<Rightarrow> Inl (Thrown (the (unbound p)))"
  have dump: "dump_tree c os = Inr (os @ tree_lines [] c)" if "linked None c" "\<forall>x \<in> set (nodes c). m_name x \<noteq> []"
    using dump_lines(1) [of "[]" c os] that by (simp add: dump_tree_def dump_node_def [abs_def])
  have ports: "for_each ?check ps () = ?outcome ps" for ps
    by (induction ps) (auto split: option.split)
  have "for_each (\<lambda>m. for_each ?check (m_ports_connected m)) ms () =
      for_each ?check (concat (List.map m_ports_connected ms)) ()" for ms
    by (induction ms) (auto simp: for_each_append seq_def split: sum.split)
  then show ?thesis using dump ports by (simp add: check_bindings_def apply_meta_nodes)
qed

text \<open>A system of one component, whose second port is not connected.\<close>

definition led_tree :: "nat cpp_meta" where
  "led_tree = Cpp_meta ''sut'' ''System'' None
     [Cpp_meta ''led'' ''Led'' (Some (Dzn_meta ''sut'' None)) [] [1, 2]] [0]"

theorem tree_is_walked_witness:
  "dump_tree led_tree '''' = Inr (''sut:System'' @ endl @ ''sut.led:Led'' @ endl) \<and>
   check_bindings (\<lambda>p. if p = 2 then Some (binding_error
     \<lparr>provide_name = ''p'', provide_port = 1, provide_component = 5, provide_meta = Some (Dzn_meta ''led'' (Some (Dzn_meta ''sut'' None))),
      require_name = '''', require_port = NULL, require_component = NULL, require_meta = None\<rparr> ''in.e'') else None) led_tree =
   Inl (Thrown ''not connected: sut.led.p.in.e'')"
  using tree_is_walked [of led_tree "''''"] tree_is_walked [of led_tree _ "\<lambda>p. if p = 2 then Some (binding_error
     \<lparr>provide_name = ''p'', provide_port = 1, provide_component = 5, provide_meta = Some (Dzn_meta ''led'' (Some (Dzn_meta ''sut'' None))),
      require_name = '''', require_port = NULL, require_component = NULL, require_meta = None\<rparr> ''in.e'') else None"]
  by (simp add: led_tree_def binding_error_def)

text \<open>The other end of a connection is the port itself again, seen from there.\<close>

lemma port_other_involutive:
  "provide_port meta \<noteq> require_port meta \<Longrightarrow> p \<in> {provide_port meta, require_port meta} \<Longrightarrow>
   port_other (port_other p meta) meta = p"
  by (auto simp: port_other_def)

end
