(* ===== verification/Cpp_Locator.thy ===== *)
theory Cpp_Locator
  imports Locator
begin

text \<open>
  \<open>runtime/c++/dzn/locator.hh\<close>: services by a key and a type, beside \<open>runtime/c/locator.c\<close>, which has keys only.
  The map orders its keys by \<open>type_info::before\<close>; here a type is a value of any type with equality.  The two
  services every locator starts with are addresses given to the constructor; the illegal handler is the function
  \<open>illegal\<close> and, should it return, \<open>abort\<close>.
\<close>

type_synonym 'ty cpp_locator = "string \<times> 'ty \<Rightarrow> addr option"

definition cpp_locator_set :: "addr \<Rightarrow> string \<Rightarrow> 'ty \<Rightarrow> 'ty cpp_locator \<Rightarrow> 'ty cpp_locator" where
  "cpp_locator_set t key ty l = l((key, ty) \<mapsto> t)"

definition cpp_locator_init :: "addr \<Rightarrow> 'ty \<Rightarrow> addr \<Rightarrow> 'ty \<Rightarrow> 'ty cpp_locator" where
  "cpp_locator_init clog ostream ih handler =
     cpp_locator_set ih '''' handler (cpp_locator_set clog '''' ostream Map.empty)"

definition cpp_locator_clone :: "'ty cpp_locator \<Rightarrow> 'ty cpp_locator" where
  "cpp_locator_clone l = l"

definition try_get :: "'ty cpp_locator \<Rightarrow> string \<Rightarrow> 'ty \<Rightarrow> addr" where
  "try_get l key ty = (case l (key, ty) of None \<Rightarrow> NULL | Some p \<Rightarrow> if p \<noteq> NULL then p else NULL)"

definition not_available :: "('ty \<Rightarrow> string) \<Rightarrow> string \<Rightarrow> 'ty \<Rightarrow> string" where
  "not_available name key ty =
     ''<'' @ name ty @ '','' @ [CHR 0x22] @ key @ [CHR 0x22] @ ''> not available''"

definition cpp_locator_get :: "('ty \<Rightarrow> string) \<Rightarrow> 'ty cpp_locator \<Rightarrow> string \<Rightarrow> 'ty \<Rightarrow> addr result" where
  "cpp_locator_get name l key ty =
     (if try_get l key ty \<noteq> NULL then Inr (try_get l key ty) else Inl (Thrown (not_available name key ty)))"

text \<open>\<open>illegal_handler::handle\<close> never returns: what \<open>illegal\<close> does, or \<open>abort\<close>.\<close>

definition illegal_handle :: "(string \<Rightarrow> c_error option) \<Rightarrow> string \<Rightarrow> 'a result" where
  "illegal_handle illegal msg = Inl (case illegal msg of Some e \<Rightarrow> e | None \<Rightarrow> AssertFailed ''abort'')"

lemma try_get_set:
  "try_get (cpp_locator_set t key ty l) key' ty' = (if key' = key \<and> ty' = ty then t else try_get l key' ty')"
  by (simp add: try_get_def cpp_locator_set_def)

section \<open>The locators of both runtimes\<close>

text \<open>The same services, set one after the other, in both.\<close>

fun c_sets :: "nat \<Rightarrow> mem_config \<Rightarrow> (string \<times> addr) list \<Rightarrow> dzn_locator \<Rightarrow> dzn_locator run" where
  "c_sets depth cfg [] l = return_run l"
| "c_sets depth cfg ((key, value) # kvs) l = bind_run (dzn_locator_set depth cfg l key value) (c_sets depth cfg kvs)"

fun cpp_sets :: "'ty \<Rightarrow> (string \<times> addr) list \<Rightarrow> 'ty cpp_locator \<Rightarrow> 'ty cpp_locator" where
  "cpp_sets ty [] l = l"
| "cpp_sets ty ((key, v) # kvs) l = cpp_sets ty kvs (cpp_locator_set v key ty l)"

definition same_services :: "'ty \<Rightarrow> dzn_locator \<Rightarrow> 'ty cpp_locator \<Rightarrow> bool" where
  "same_services ty l cl \<longleftrightarrow> map_ok (loc_services l) \<and>
     (\<forall>key. short_key key \<longrightarrow> (case services_of l key of None \<Rightarrow> NULL | Some p \<Rightarrow> p) = try_get cl key ty)"

lemma same_services_get:
  assumes "same_services ty l cl" and "short_key key"
  shows "dzn_locator_get l key = return_run (try_get cl key ty)"
  using assms dzn_locator_get_abs [of l key] map_okD by (simp add: same_services_def)

lemma same_services_set:
  assumes cfg: "never_NULL cfg" and same: "same_services ty l cl" and key: "short_key key"
    and set: "dzn_locator_set depth cfg l key v = Some (Inr l')"
  shows "same_services ty l' (cpp_locator_set v key ty cl)"
proof -
  have ok: "map_ok (loc_services l)" using same by (simp add: same_services_def)
  from set obtain status m' where put: "dzn_map_put depth cfg (loc_services l) key v = Some (Inr (status, m'))"
    and l': "l' = l\<lparr>loc_services := m'\<rparr>"
    by (auto simp: dzn_locator_set_def bind_run_Inr_iff return_run_def simp del: dzn_map_put.simps)
  from put_never_refused [OF cfg ok key put] same show ?thesis
    by (simp add: same_services_def l' try_get_set)
qed

text \<open>C19: the locators of the two runtimes are interchangeable for services of one type: after the same services
  have been set in the same order, a lookup in the C map finds the pointer \<open>try_get\<close> finds, NULL included.\<close>

theorem locators_agree:
  assumes "never_NULL cfg" and "same_services ty l cl" and "\<And>kv. kv \<in> set kvs \<Longrightarrow> short_key (fst kv)"
    and "c_sets depth cfg kvs l = Some (Inr l')" and "short_key key"
  shows "dzn_locator_get l' key = return_run (try_get (cpp_sets ty kvs cl) key ty)"
  using assms(2-)
proof (induction kvs arbitrary: l cl)
  case Nil
  then show ?case using same_services_get by (simp add: return_run_def)
next
  case (Cons kv kvs)
  obtain k v where kv: "kv = (k, v)" by (cases kv)
  from Cons.prems(3) obtain l1 where set: "dzn_locator_set depth cfg l k v = Some (Inr l1)"
    and rest: "c_sets depth cfg kvs l1 = Some (Inr l')"
    by (auto simp: kv bind_run_Inr_iff)
  have "same_services ty l1 (cpp_locator_set v k ty cl)"
    using same_services_set [OF assms(1) Cons.prems(1) _ set] Cons.prems(2) [of kv] by (simp add: kv)
  from Cons.IH [OF this _ rest Cons.prems(4)] Cons.prems(2) show ?case by (simp add: kv)
qed

lemma same_services_k: "same_services () locator_k [(''k'', ()) \<mapsto> 1]"
proof -
  have "map_abs map_k = (map_abs (fresh_map 256))(''k'' \<mapsto> 1)"
    unfolding map_k_def using room_in_fresh [of "''k''"]
    by (intro map_abs_place map_okD [OF map_ok_256]) (simp add: homes_kx)
  then show ?thesis by (simp add: same_services_def map_ok_k fresh_map_abs try_get_def)
qed

theorem locators_agree_witness:
  "dzn_locator_get (locator_k\<lparr>loc_services := map_kx\<rparr>) ''x'' =
     return_run (try_get (cpp_sets () [(''x'', 2)] [(''k'', ()) \<mapsto> 1]) ''x'' ()) \<and>
   try_get (cpp_sets () [(''x'', 2)] [(''k'', ()) \<mapsto> 1]) ''x'' () = 2"
  using locators_agree [OF roomy_never_NULL same_services_k, of "[(''x'', 2)]" 1 "locator_k\<lparr>loc_services := map_kx\<rparr>" "''x''"]
    set_x by (simp add: try_get_set return_run_def)

text \<open>A clone is independent of the original, and \<open>get\<close> names the service that is missing.\<close>

lemma clone_is_independent:
  "try_get (cpp_locator_set t key ty (cpp_locator_clone l)) key ty = t \<and> try_get (cpp_locator_clone l) k ty' = try_get l k ty'"
  by (simp add: try_get_set cpp_locator_clone_def)

end
