(* ===== verification/Cpp_Container.thy ===== *)
theory Cpp_Container
  imports Cpp_State "HOL-Library.Sublist"
begin

text \<open>
  \<open>runtime/c++/dzn/container.hh\<close>: the driver that plays a trace against a system.  It reads lines, posts itself to
  the pump of \<open>pump.cc\<close>, calls the function of a line that is a trigger and keeps every line on a trail, from which
  the system takes what it is expected to do next.

  The lines are those of \<open>std::cin\<close>.  The function of a line is a parameter that may change the container: take
  lines off the trail, read on, throw.
  \<open>Thrown\<close> holds the message of the exception.  The illegal handler and the members' construction are left out.
\<close>

section \<open>The container\<close>

record ('c, 'p, 'g, 'u) container =
  ct_input :: "string list"
  ct_lookup :: "string \<Rightarrow> 'g option"
  ct_trail :: "string list"
  ct_pump :: "('c, 'p) cpp_pump"
  ct_user :: 'u

text \<open>What the container's functions need: the closure that performs on the pump, the time, what a function does.\<close>

record ('c, 'p, 'g, 'u) container_env =
  cn_trigger :: 'c
  cn_now :: nat
  cn_call :: "'g \<Rightarrow> ('c, 'p, 'g, 'u) container \<Rightarrow> ('c, 'p, 'g, 'u) container result"

definition dots :: "string \<Rightarrow> nat" where
  "dots s = length (filter (\<lambda>c. c = CHR ''.'') s)"

text \<open>\<open>perform\<close> with the lines that are left: lines with more than one dot are skipped.\<close>

fun perform_lines ::
    "('c, 'p, 'g, 'u) container_env \<Rightarrow> bool \<Rightarrow> string list \<Rightarrow> ('c, 'p, 'g, 'u) container \<Rightarrow>
     (bool \<times> ('c, 'p, 'g, 'u) container) result" where
  "perform_lines env on_pump [] c = Inr (False, c\<lparr>ct_input := []\<rparr>)"
| "perform_lines env on_pump (str # rest) c =
     (if 1 < dots str then perform_lines env on_pump rest c
      else
        let c = c\<lparr>ct_input := rest\<rparr>
        in if str = ''<defer>'' then
             seq (pump_handle (cn_now env) 0 0 (cn_trigger env) (ct_pump c)) (\<lambda>p. Inr (False, c\<lparr>ct_pump := p\<rparr>))
           else
             let c = c\<lparr>ct_trail := ct_trail c @ [str]\<rparr>
             in case ct_lookup c str of
                  None \<Rightarrow> Inr (False, c)
                | Some g \<Rightarrow>
                    let c = (if on_pump then c\<lparr>ct_pump := pump_post (cn_trigger env) (ct_pump c)\<rparr> else c)
                    in seq (cn_call env g c) (\<lambda>c. Inr (True, c)))"

definition perform ::
    "('c, 'p, 'g, 'u) container_env \<Rightarrow> bool \<Rightarrow> ('c, 'p, 'g, 'u) container \<Rightarrow> (bool \<times> ('c, 'p, 'g, 'u) container) result" where
  "perform env on_pump c = perform_lines env on_pump (ct_input c) c"


text \<open>\<open>operator ()\<close> up to its wait for the pump.\<close>

definition container_start ::
    "('c, 'p, 'g, 'u) container_env \<Rightarrow> (string \<Rightarrow> 'g option) \<Rightarrow> ('c, 'p, 'g, 'u) container \<Rightarrow> ('c, 'p, 'g, 'u) container" where
  "container_start env l c = c\<lparr>ct_lookup := l, ct_pump := pump_post (cn_trigger env) (ct_pump c)\<rparr>"

definition trail_empty :: "string \<Rightarrow> string" where
  "trail_empty performed = ''unmatched expectation: behavior performs: '' @ [CHR 0x22] @ performed @ [CHR 0x22] @ '' but trail empty''"

definition trail_expects :: "string \<Rightarrow> string \<Rightarrow> string" where
  "trail_expects performed expect =
     ''unmatched expectation: behavior performs: '' @ [CHR 0x22] @ performed @ [CHR 0x22] @
     '' but trail expects: '' @ [CHR 0x22] @ expect @ [CHR 0x22]"

definition match :: "string \<Rightarrow> ('c, 'p, 'g, 'u) container \<Rightarrow> ('c, 'p, 'g, 'u) container result" where
  "match performed c =
     (case ct_trail c of
        [] \<Rightarrow> Inl (Thrown (trail_empty performed))
      | expect # trail \<Rightarrow>
          if expect \<noteq> performed then Inl (Thrown (trail_expects performed expect)) else Inr (c\<lparr>ct_trail := trail\<rparr>))"

section \<open>The trail decides\<close>

text \<open>The system performs one thing after the other.\<close>

fun match_all :: "string list \<Rightarrow> ('c, 'p, 'g, 'u) container \<Rightarrow> ('c, 'p, 'g, 'u) container result" where
  "match_all [] c = Inr c"
| "match_all (p # ps) c = seq (match p c) (match_all ps)"

fun first_difference :: "string list \<Rightarrow> string list \<Rightarrow> string" where
  "first_difference (p # ps) [] = trail_empty p"
| "first_difference (p # ps) (t # ts) = (if t \<noteq> p then trail_expects p t else first_difference ps ts)"
| "first_difference [] ts = ''''"

text \<open>C18: what a system performs is accepted exactly when it is a prefix of the trail, whose rest is then left; if
  not, the exception names the first thing performed that differs and what the trail has there.\<close>

theorem trail_accepts_prefixes:
  "match_all ps c =
     (if prefix ps (ct_trail c) then Inr (c\<lparr>ct_trail := drop (length ps) (ct_trail c)\<rparr>)
      else Inl (Thrown (first_difference ps (ct_trail c))))"
proof (induction ps arbitrary: c)
  case (Cons p ps)
  then show ?case by (cases "ct_trail c") (auto simp: match_def)
qed simp

section \<open>Playing a trace\<close>

text \<open>
  The functions that the code generator puts in the table (\<open>c++.scm\<close>; \<open>foreign_only/main.cc\<close> in the tests has them
  in full) take their own line off the trail, \<open>c.match ("port.hello")\<close>, and call an event of the system; for every
  out event of the system, and for the return, \<open>c.perform ()\<close> reads the next line onto the trail and \<open>c.match\<close> takes
  it off.  What the system does is a parameter: \<open>resp g u\<close> are the events it performs, the return among them, and
  \<open>act g u\<close> is the state it is left in.  \<open>env'\<close> holds the functions that these calls of \<open>perform\<close> see.
\<close>

definition performs ::
    "('c, 'p, 'g, 'u) container_env \<Rightarrow> string \<Rightarrow> ('c, 'p, 'g, 'u) container \<Rightarrow> ('c, 'p, 'g, 'u) container result" where
  "performs env p c = seq (perform env False c) (\<lambda>(_, c). match p c)"


















definition example_pump :: "(nat, nat) cpp_pump" where
  "example_pump = \<lparr>pu_wait_for_timeouts = False, pu_unblocked = [], pu_running = True, pu_executing = False, pu_paused = False,
     pu_coroutines = [], pu_collateral = [], pu_current = 0, pu_queue = [], pu_deferred = [], pu_timers = [], pu_switch = []\<rparr>"

definition example_container :: "(nat, nat, nat, nat) container" where
  "example_container = \<lparr>ct_input = [''p.a'', ''sut.q.x'', ''p.world'', ''p.return'', ''p.b'', ''p.return'', ''r.return'', ''p.a''],
     ct_lookup = [''p.a'' \<mapsto> 1, ''p.b'' \<mapsto> 2], ct_trail = [], ct_pump = example_pump, ct_user = 0\<rparr>"








theorem trail_accepts_prefixes_witness:
  "match_all [''p.a'', ''p.b''] (example_container\<lparr>ct_trail := [''p.a'', ''p.c'']\<rparr>) =
   Inl (Thrown (trail_expects ''p.b'' ''p.c''))"
  by (subst trail_accepts_prefixes) simp

text \<open>Two \<open><defer>\<close> lines before the timer of the first has fired make the assertion of \<open>pump::handle\<close> fail.\<close>

theorem defer_twice_fails:
  assumes "ct_input c = [''<defer>'', ''<defer>'']" and "pu_timers (ct_pump c) = []"
  shows "\<exists>c'. perform env on_pump c = Inr (False, c') \<and> perform env on_pump' c' = Inl (AssertFailed ''timer'')"
  using assms by (simp add: perform_def dots_def pump_handle_def c_assert_def)

end
