(* ===== verification/C_Main.thy ===== *)
theory C_Main
  imports Map_Laws Trace_Text
begin

text \<open>
  \<open>dzn/templates/c/main.c\<close>: the test driver that is generated around a system.  It reads the events of a trace
  line by line, calls the closure that the event map of \<open>map.c\<close> holds for a line, and answers the calls that the
  system makes on its required ports with the reply the trace shows next.

  The lines are what \<open>getline\<close> returns, without NUL characters.  A closure is a parameter: it may read lines, write
  and change the program.  \<open>exit\<close> leaves the program, here with the state it leaves behind.
\<close>

section \<open>Input and output\<close>

record 'u main_io =
  io_stdin :: "string list"
  io_stderr :: string
  io_user :: 'u

type_synonym 'u main_call = "addr \<Rightarrow> 'u main_io \<Rightarrow> 'u main_io run"

definition newline :: char where "newline = CHR 0x0A"

definition log_line :: "string \<Rightarrow> 'u main_io \<Rightarrow> 'u main_io" where
  "log_line text w = w\<lparr>io_stderr := io_stderr w @ text @ [newline]\<rparr>"

text \<open>The end of line is dropped, except from an empty line.\<close>

definition chomp :: "string \<Rightarrow> string" where
  "chomp line = (if 1 < length line \<and> last line = newline then butlast line else line)"

definition read_line :: "'u main_io \<Rightarrow> string option \<times> 'u main_io" where
  "read_line w =
     (case io_stdin w of [] \<Rightarrow> (None, w) | line # lines \<Rightarrow> (Some (chomp line), w\<lparr>io_stdin := lines\<rparr>))"

definition drop_prefix :: "string \<Rightarrow> string \<Rightarrow> string" where
  "drop_prefix s prefix =
     (if length prefix \<le> length s \<and> take (length prefix) s = prefix then drop (length prefix) s else s)"

section \<open>Out events that belong to a call\<close>

definition MATCH_SIZE :: nat where "MATCH_SIZE = 1024"

text \<open>The lines up to the one that repeats the call.\<close>

fun skip_to :: "string \<Rightarrow> string list \<Rightarrow> string list" where
  "skip_to match [] = []"
| "skip_to match (line # lines) = (if chomp line = match then lines else skip_to match lines)"

text \<open>The out events that follow, up to a line that is not in the map.\<close>

partial_function (option) run_events :: "'u main_call \<Rightarrow> dzn_map \<Rightarrow> 'u main_io \<Rightarrow> (string \<times> 'u main_io) run" where
  "run_events call event_map w =
     (case read_line w of
        (None, w) \<Rightarrow> Some (Inr ('''', w))
      | (Some s, w) \<Rightarrow>
          Option.bind (dzn_map_get event_map s) (\<lambda>found.
            case found of
              Inl e \<Rightarrow> Some (Inl e)
            | Inr (status, p) \<Rightarrow>
                if status \<noteq> DZN_MAP_OK then Some (Inr (s, w))
                else if p = NULL then Some (Inl NullDeref)
                else Option.bind (call p w) (\<lambda>called.
                  case called of Inl e \<Rightarrow> Some (Inl e) | Inr w \<Rightarrow> run_events call event_map w)))"

definition consume_synchronous_out_events ::
    "'u main_call \<Rightarrow> string \<Rightarrow> string \<Rightarrow> dzn_map \<Rightarrow> 'u main_io \<Rightarrow> (string \<times> 'u main_io) run" where
  "consume_synchronous_out_events call prefix event event_map w =
     (if MATCH_SIZE \<le> length (prefix @ event) then fail_run BufferOverflow
      else run_events call event_map (w\<lparr>io_stdin := skip_to (prefix @ event) (io_stdin w)\<rparr>))"

section \<open>Calls on required ports\<close>

definition external_line :: "string \<Rightarrow> string \<Rightarrow> string \<Rightarrow> string" where
  "external_line prefix arrow event = ''<external>.'' @ prefix @ event @ arrow @ ''sut.'' @ prefix @ event"

definition log_in :: "'u main_call \<Rightarrow> string \<Rightarrow> string \<Rightarrow> dzn_map \<Rightarrow> 'u main_io \<Rightarrow> 'u main_io run" where
  "log_in call prefix event event_map w =
     bind_run (consume_synchronous_out_events call prefix event event_map
         (log_line (external_line prefix '' -> '' event) w)) (\<lambda>(_, w).
       return_run (log_line (external_line prefix '' <- '' ''return'') w))"

definition log_out :: "string \<Rightarrow> string \<Rightarrow> 'u main_io \<Rightarrow> 'u main_io" where
  "log_out prefix event w = log_line (external_line prefix '' <- '' event) w"

text \<open>\<open>dzn_runtime_flush\<close> works on the program, which is \<open>'u\<close> here.\<close>

definition log_flush :: "('u main_io \<Rightarrow> 'u main_io run) \<Rightarrow> string \<Rightarrow> 'u main_io \<Rightarrow> 'u main_io run" where
  "log_flush flush name w = flush (log_line (name @ ''.<flush>'') w)"

text \<open>\<open>strchr (s, '.') + 1\<close>.\<close>

definition after_dot :: "string \<Rightarrow> string result" where
  "after_dot s = (case dropWhile (\<lambda>c. c \<noteq> CHR ''.'') s of [] \<Rightarrow> Inl NullDeref | _ # rest \<Rightarrow> Inr rest)"

definition INT_MAX :: "32 word" where "INT_MAX = 0x7fffffff"

definition log_typed ::
    "'u main_call \<Rightarrow> string \<Rightarrow> string \<Rightarrow> dzn_map \<Rightarrow> (string \<Rightarrow> 32 word) \<Rightarrow> 'u main_io \<Rightarrow> (32 word \<times> 'u main_io) run" where
  "log_typed call prefix event event_map string_to_value w =
     bind_run (consume_synchronous_out_events call prefix event event_map
         (log_line (external_line prefix '' -> '' event) w)) (\<lambda>(s, w).
       let e = drop_prefix s prefix
       in if e = ''return'' then return_run (0, log_line (external_line prefix '' <- '' ''return'') w)
          else
            let r = string_to_value e
            in if r \<noteq> INT_MAX then
                 lift_run (seq (after_dot s) (\<lambda>p. Inr (r, log_line (external_line prefix '' <- '' p) w)))
               else fail_run (AssertFailed ''not a reply value''))"

section \<open>The rest of the driver\<close>

text \<open>\<open>illegal_print\<close>: with traces the program leaves with status 0, without it dereferences NULL.\<close>

definition illegal_print :: "bool \<Rightarrow> 'u main_io \<Rightarrow> (int \<times> 'u main_io) result" where
  "illegal_print tracing w = (if tracing then Inr (0, log_line ''illegal'' w) else Inl NullDeref)"

definition dzn_getopt :: "string list \<Rightarrow> string \<Rightarrow> bool" where
  "dzn_getopt argv option \<longleftrightarrow> 1 < length argv \<and> argv ! 1 = option"

text \<open>The closure of the next line, NULL at the end of the input and for a line that is not in the map.\<close>

definition next_event :: "dzn_map \<Rightarrow> 'u main_io \<Rightarrow> (addr \<times> 'u main_io) run" where
  "next_event global_event_map w =
     (case read_line w of
        (None, w) \<Rightarrow> return_run (NULL, w)
      | (Some s, w) \<Rightarrow> bind_run (dzn_map_get global_event_map s) (\<lambda>(_, p). return_run (p, w)))"

section \<open>Lemmas\<close>

lemma chomp_newline [simp]: "s \<noteq> [] \<Longrightarrow> chomp (s @ [newline]) = s"
  by (simp add: chomp_def)

lemma drop_prefix_append [simp]: "drop_prefix (prefix @ s) prefix = s"
  by (simp add: drop_prefix_def)

lemma skip_to_match:
  "(\<And>line. line \<in> set before \<Longrightarrow> chomp line \<noteq> match) \<Longrightarrow> chomp line = match \<Longrightarrow>
   skip_to match (before @ line # after) = after"
  by (induction before) auto

lemma read_line_simps [simp]:
  "io_stdin w = [] \<Longrightarrow> read_line w = (None, w)"
  "io_stdin w = line # lines \<Longrightarrow> read_line w = (Some (chomp line), w\<lparr>io_stdin := lines\<rparr>)"
  by (simp_all add: read_line_def)

text \<open>What the closures of the given lines do to the program, in order.\<close>

fun run_closures :: "(addr \<Rightarrow> 'u \<Rightarrow> 'u) \<Rightarrow> dzn_map \<Rightarrow> string list \<Rightarrow> 'u \<Rightarrow> 'u" where
  "run_closures act event_map [] u = u"
| "run_closures act event_map (line # lines) u =
     run_closures act event_map lines (act (the (map_abs event_map (chomp line))) u)"

lemma run_events_runs:
  assumes wf: "map_wf event_map"
    and call: "\<And>p w. call p w = return_run (w\<lparr>io_user := act p (io_user w)\<rparr>)"
    and outs: "\<And>line. line \<in> set outs \<Longrightarrow> short_key (chomp line) \<and> (\<exists>p. map_abs event_map (chomp line) = Some p \<and> p \<noteq> NULL)"
    and reply: "short_key (chomp line)" "map_abs event_map (chomp line) = None"
    and w: "io_stdin w = outs @ line # after"
  shows "run_events call event_map w =
    return_run (chomp line, w\<lparr>io_stdin := after, io_user := run_closures act event_map outs (io_user w)\<rparr>)"
  using outs w
proof (induction outs arbitrary: w)
  case Nil
  then show ?case
    using dzn_map_get_abs [OF wf reply(1)] reply(2)
    by (subst run_events.simps) (simp add: return_run_def DZN_MAP_MISSING_def DZN_MAP_OK_def)
next
  case (Cons out outs)
  then obtain p where p: "map_abs event_map (chomp out) = Some p" "p \<noteq> NULL" "short_key (chomp out)" by auto
  have get: "dzn_map_get event_map (chomp out) = Some (Inr (DZN_MAP_OK, p))"
    using dzn_map_get_abs [OF wf p(3)] p by (simp add: return_run_def)
  let ?w = "w\<lparr>io_stdin := outs @ line # after, io_user := act p (io_user w)\<rparr>"
  have "run_events call event_map w = run_events call event_map ?w"
    using Cons.prems(2) get p by (subst run_events.simps) (simp add: call return_run_def)
  also have "\<dots> = return_run (chomp line, ?w\<lparr>io_stdin := after, io_user := run_closures act event_map outs (io_user ?w)\<rparr>)"
    by (rule Cons.IH) (use Cons.prems in simp_all)
  finally show ?case using p by simp
qed

lemma after_dot_append: "CHR ''.'' \<notin> set port \<Longrightarrow> after_dot (port @ CHR ''.'' # rest) = Inr rest"
  by (induction port) (auto simp: after_dot_def)

lemma INT_MAX_not_printed: "dzn_int_to_string INT_MAX = Inl BufferOverflow"
  by (simp add: dzn_int_to_string_def print_int_def INT_MAX_def decimal.simps BUFFY_def)

section \<open>Replies are read back\<close>

text \<open>The trace of a call: lines of no interest, the call, its out events, its reply.\<close>

definition reply_trace :: "string list \<Rightarrow> string \<Rightarrow> string list \<Rightarrow> string \<Rightarrow> string list \<Rightarrow> string list" where
  "reply_trace before match outs reply after = before @ (match @ [newline]) # outs @ (reply @ [newline]) # after"

lemma consume_reply_trace:
  assumes wf: "map_wf event_map"
    and call: "\<And>p w. call p w = return_run (w\<lparr>io_user := act p (io_user w)\<rparr>)"
    and size: "length (prefix @ event) < MATCH_SIZE" "prefix @ event \<noteq> []"
    and before: "\<And>line. line \<in> set before \<Longrightarrow> chomp line \<noteq> prefix @ event"
    and outs: "\<And>line. line \<in> set outs \<Longrightarrow> short_key (chomp line) \<and> (\<exists>p. map_abs event_map (chomp line) = Some p \<and> p \<noteq> NULL)"
    and reply: "reply \<noteq> []" "short_key reply" "map_abs event_map reply = None"
    and w: "io_stdin w = reply_trace before (prefix @ event) outs reply after"
  shows "consume_synchronous_out_events call prefix event event_map w =
    return_run (reply, w\<lparr>io_stdin := after, io_user := run_closures act event_map outs (io_user w)\<rparr>)"
proof -
  let ?line = "reply @ [newline]"
  have "skip_to (prefix @ event) (io_stdin w) = outs @ ?line # after"
    using chomp_newline [OF size(2)] unfolding w reply_trace_def by (intro skip_to_match before) simp_all
  then have "consume_synchronous_out_events call prefix event event_map w =
      run_events call event_map (w\<lparr>io_stdin := outs @ ?line # after\<rparr>)"
    using size(1) by (simp add: consume_synchronous_out_events_def)
  also have "\<dots> = return_run (chomp ?line, w\<lparr>io_stdin := after, io_user := run_closures act event_map outs (io_user w)\<rparr>)"
    using run_events_runs [OF wf call outs, of outs ?line "w\<lparr>io_stdin := outs @ ?line # after\<rparr>" after] reply by simp
  finally show ?thesis using reply(1) by simp
qed

text \<open>C16: a call of the system under test is answered from the trace: the lines before the call are skipped, the
  closures of the out events that follow it run in order, and a reply that \<open>dzn_int_to_string\<close> wrote behind the
  prefix of the port is returned as the integer it was written for, with the call and the reply logged.\<close>

theorem log_typed_replies:
  assumes "map_wf event_map"
    and "\<And>p w. call p w = return_run (w\<lparr>io_user := act p (io_user w)\<rparr>)"
    and "length (port @ CHR ''.'' # event) < MATCH_SIZE" and "CHR ''.'' \<notin> set port"
    and "\<And>line. line \<in> set before \<Longrightarrow> chomp line \<noteq> port @ CHR ''.'' # event"
    and "\<And>line. line \<in> set outs \<Longrightarrow> short_key (chomp line) \<and> (\<exists>p. map_abs event_map (chomp line) = Some p \<and> p \<noteq> NULL)"
    and "dzn_int_to_string i = Inr shown"
    and "short_key (port @ CHR ''.'' # shown)" "map_abs event_map (port @ CHR ''.'' # shown) = None"
    and "io_stdin w = reply_trace before (port @ CHR ''.'' # event) outs (port @ CHR ''.'' # shown) after"
  shows "log_typed call (port @ ''.'') event event_map dzn_string_to_int w =
    return_run (i,
      log_line (external_line (port @ ''.'') '' <- '' shown)
        (log_line (external_line (port @ ''.'') '' -> '' event)
          (w\<lparr>io_stdin := after, io_user := run_closures act event_map outs (io_user w)\<rparr>)))"
proof -
  have reads: "dzn_string_to_int shown = i" using assms(7) by (rule int_text_back)
  have max: "i \<noteq> INT_MAX" using assms(7) INT_MAX_not_printed by auto
  have "dzn_string_to_int ''return'' = INT_MAX" by code_simp
  then have "shown \<noteq> ''return''" using reads max by auto
  moreover have "drop_prefix (port @ CHR ''.'' # shown) (port @ ''.'') = shown"
    using drop_prefix_append [of "port @ ''.''" shown] by simp
  moreover have "consume_synchronous_out_events call (port @ ''.'') event event_map (log_line call_line w) =
      return_run (port @ CHR ''.'' # shown,
        (log_line call_line w)\<lparr>io_stdin := after, io_user := run_closures act event_map outs (io_user (log_line call_line w))\<rparr>)"
    for call_line
    by (rule consume_reply_trace [where act = act and before = before]) (use assms in \<open>auto simp: log_line_def\<close>)
  ultimately show ?thesis
    using reads max after_dot_append [OF assms(4), of shown]
    by (simp add: log_typed_def log_line_def lift_run_def return_run_def)
qed

definition example_io :: "nat main_io" where
  "example_io = \<lparr>io_stdin = [''<flush>'' @ [newline], ''p.get'' @ [newline], ''x'' @ [newline], ''p.5'' @ [newline], ''k''],
     io_stderr = '''', io_user = 0\<rparr>"

definition example_call :: "nat main_call" where
  "example_call p w = return_run (w\<lparr>io_user := io_user w + p\<rparr>)"

lemma map_kx_entries: "map_abs map_kx = [''k'' \<mapsto> 1, ''x'' \<mapsto> 2]"
proof -
  have "map_abs map_k = (map_abs (fresh_map 256))(''k'' \<mapsto> 1)"
    unfolding map_k_def using room_in_fresh [of "''k''"]
    by (intro map_abs_place map_okD [OF map_ok_256]) (simp add: homes_kx)
  then have "map_abs map_k = [''k'' \<mapsto> 1]" by (simp add: fresh_map_abs)
  then show ?thesis
    unfolding map_kx_def using map_abs_place [OF map_okD [OF map_ok_k] room_for_x] by simp
qed

theorem log_typed_replies_witness:
  "log_typed example_call ''p.'' ''get'' map_kx dzn_string_to_int example_io =
    return_run (5, \<lparr>io_stdin = [''k''],
      io_stderr = ''<external>.p.get -> sut.p.get'' @ newline # ''<external>.p.5 <- sut.p.5'' @ [newline], io_user = 2\<rparr>)"
proof -
  have five: "dzn_int_to_string 5 = Inr ''5''"
    by (simp add: dzn_int_to_string_def print_int_def decimal.simps BUFFY_def digit_def) code_simp
  show ?thesis
    using log_typed_replies [of map_kx example_call "\<lambda>p u. u + p" "''p''" "''get''" "[''<flush>'' @ [newline]]"
        "[''x'' @ [newline]]" 5 "''5''" example_io "[''k'']"] map_kx_entries five
    by (simp add: map_okD [OF map_ok_kx] example_call_def example_io_def MATCH_SIZE_def reply_trace_def short_key_def
        chomp_def newline_def log_line_def external_line_def)
qed

text \<open>At the end of the trace the reply is the empty line: an integer call fails its assertion, a boolean one
  computes with the NULL of \<open>strchr\<close>.  A call whose name does not fit \<open>match\<close> overflows it.\<close>

theorem log_typed_at_end:
  assumes "skip_to (prefix @ event) (io_stdin w) = []" and "length (prefix @ event) < MATCH_SIZE"
  shows "log_typed call prefix event event_map dzn_string_to_int w = fail_run (AssertFailed ''not a reply value'')"
    and "log_typed call prefix event event_map (\<lambda>s. of_bool (dzn_string_to_bool s)) w = fail_run NullDeref"
proof -
  have "run_events call event_map v = return_run ('''', v)" if "io_stdin v = []" for v
    using that by (subst run_events.simps) (simp add: return_run_def)
  then have "consume_synchronous_out_events call prefix event event_map (log_line t w) =
      return_run ('''', (log_line t w)\<lparr>io_stdin := []\<rparr>)" for t
    using assms by (simp add: consume_synchronous_out_events_def log_line_def)
  moreover have "dzn_string_to_int '''' = INT_MAX" "dzn_string_to_bool ''''" "1 \<noteq> INT_MAX" by code_simp+
  moreover have "drop_prefix '''' prefix = ''''" by (simp add: drop_prefix_def)
  ultimately show "log_typed call prefix event event_map dzn_string_to_int w = fail_run (AssertFailed ''not a reply value'')"
      and "log_typed call prefix event event_map (\<lambda>s. of_bool (dzn_string_to_bool s)) w = fail_run NullDeref"
    by (simp_all add: log_typed_def after_dot_def lift_run_def fail_run_def)
qed

theorem match_overflows:
  "MATCH_SIZE \<le> length (prefix @ event) \<Longrightarrow> log_in call prefix event event_map w = fail_run BufferOverflow"
  by (simp add: log_in_def consume_synchronous_out_events_def fail_run_def)

end
