(* ===== verification/Cpp_Types.thy ===== *)
theory Cpp_Types
  imports Cpp_Pump_Laws
begin

text \<open>
  Typing of the C++ runtime's machine, by preservation and progress.  A set of addresses holds the events that were
  \<open>set\<close>, each with a port, a component and meta data.  A program, frame, closure or binding is typed when the events
  it mentions are among them.  Every step of a typed system leaves it typed, and no step reads an event through a
  pointer that is NULL or dangling, or fails an assertion on an event's fields: what may still end a run are the
  exceptions and assertions about the pump and about the program itself.
\<close>

section \<open>Types\<close>

fun call_ok :: "addr set \<Rightarrow> ('f, 'p) cpp_call \<Rightarrow> bool" where
  "call_ok E (Call_event a) \<longleftrightarrow> a \<in> E"
| "call_ok E (Set_out_binding a g) \<longleftrightarrow> a \<in> E"
| "call_ok E _ \<longleftrightarrow> True"

inductive prog_ok :: "addr set \<Rightarrow> ('f, 'p, 'u) cpp_prog \<Rightarrow> bool" for E where
  prog_return: "prog_ok E (Return r)"
| prog_local: "(\<And>u. prog_ok E (k u)) \<Longrightarrow> prog_ok E (Local f k)"
| prog_call: "call_ok E c \<Longrightarrow> (\<And>r. prog_ok E (k r)) \<Longrightarrow> prog_ok E (Call c k)"

inductive_simps prog_ok_simps [simp]: "prog_ok E (Return r)" "prog_ok E (Local f k)" "prog_ok E (Call c k)"

definition env_ok :: "addr set \<Rightarrow> ('f, 'p, 'u) cpp_env \<Rightarrow> bool" where
  "env_ok E env \<longleftrightarrow> (\<forall>f. prog_ok E (ce_body env f)) \<and> (\<forall>i label. prog_ok E (ce_update env i label))"

fun binding_ok :: "addr set \<Rightarrow> 'f binding \<Rightarrow> bool" where
  "binding_ok E Unbound \<longleftrightarrow> True"
| "binding_ok E (Bound a f) \<longleftrightarrow> a \<in> E"
| "binding_ok E (Forward a b) \<longleftrightarrow> a \<in> E \<and> binding_ok E b"

fun closure_ok :: "addr set \<Rightarrow> 'f event_closure \<Rightarrow> bool" where
  "closure_ok E (Event_closure a c f) \<longleftrightarrow> a \<in> E"

fun flush_ok :: "addr set \<Rightarrow> flush_closure \<Rightarrow> bool" where
  "flush_ok E (Flush_closure a c) \<longleftrightarrow> a \<in> E"

definition event_ok :: "addr set \<Rightarrow> 'f cpp_event \<Rightarrow> bool" where
  "event_ok E ev \<longleftrightarrow> ev_port ev \<noteq> NULL \<and> ev_component ev \<noteq> NULL \<and> ev_meta ev \<noteq> None \<and> binding_ok E (ev_binding ev)"

fun frame_ok :: "addr set \<Rightarrow> ('f, 'p, 'u) cpp_frame \<Rightarrow> bool" where
  "frame_ok E (Run p) \<longleftrightarrow> prog_ok E p"
| "frame_ok E (Then k) \<longleftrightarrow> (\<forall>r. prog_ok E (k r))"
| "frame_ok E (Invoke b) \<longleftrightarrow> binding_ok E b"
| "frame_ok E (In_start a f) \<longleftrightarrow> a \<in> E"
| "frame_ok E (In_handle a f) \<longleftrightarrow> a \<in> E"
| "frame_ok E (In_flush a cid i) \<longleftrightarrow> a \<in> E"
| "frame_ok E (In_trace a cid i) \<longleftrightarrow> a \<in> E"
| "frame_ok E (In_finish a cid i) \<longleftrightarrow> a \<in> E"
| "frame_ok E (In_leave a cid i) \<longleftrightarrow> a \<in> E"
| "frame_ok E (Raii_leave a) \<longleftrightarrow> a \<in> E"
| "frame_ok E (Out_queue a f) \<longleftrightarrow> a \<in> E"
| "frame_ok E (Deferred_flush c) \<longleftrightarrow> flush_ok E c"
| "frame_ok E (Flush_event d e) \<longleftrightarrow> closure_ok E e"
| "frame_ok E _ \<longleftrightarrow> True"

definition data_ok :: "addr set \<Rightarrow> ('f, 'p, 'u) cpp_sys \<Rightarrow> bool" where
  "data_ok E s \<longleftrightarrow>
     (\<forall>a \<in> E. a \<noteq> NULL \<and> (\<exists>ev. objs (cs_events s) a = Some ev \<and> event_ok E ev)) \<and>
     (\<forall>c. list_all (closure_ok E) (rt_queue_of s c)) \<and> (\<forall>c fl. deferred_flush s c = Some fl \<longrightarrow> flush_ok E fl) \<and>
     (\<forall>c. \<forall>m \<in> set (cs_require s c). provide_port m \<noteq> NULL)"

definition sys_ok :: "addr set \<Rightarrow> ('f, 'p, 'u) cpp_sys \<Rightarrow> bool" where
  "sys_ok E s \<longleftrightarrow> data_ok E s \<and> (\<forall>k frames. cs_stacks s k = Some frames \<longrightarrow> list_all (frame_ok E) frames)"

text \<open>What a typed system does not run into.\<close>

definition event_faults :: "c_error set" where
  "event_faults = {NullDeref, UseAfterFree, AssertFailed ''this->port'', AssertFailed ''this->component'',
     AssertFailed ''this->dzn_port_meta'', AssertFailed ''port''}"

section \<open>Sound computations\<close>

definition sound :: "('a \<Rightarrow> bool) \<Rightarrow> 'a result \<Rightarrow> bool" where
  "sound P m \<longleftrightarrow> (case m of Inl e \<Rightarrow> e \<notin> event_faults | Inr x \<Rightarrow> P x)"

lemma sound_simps [simp]: "sound P (Inr x) \<longleftrightarrow> P x" "sound P (Inl e) \<longleftrightarrow> e \<notin> event_faults"
  by (simp_all add: sound_def)

lemma sound_seq: "sound P m \<Longrightarrow> (\<And>x. P x \<Longrightarrow> sound Q (f x)) \<Longrightarrow> sound Q (seq m f)"
  by (cases m) simp_all

lemma sound_mono: "sound P m \<Longrightarrow> (\<And>x. P x \<Longrightarrow> Q x) \<Longrightarrow> sound Q m"
  by (cases m) simp_all

text \<open>From \<open>s\<close> to \<open>s'\<close> the data stays typed and no context gets a stack but that of a new coroutine.\<close>

definition kept :: "addr set \<Rightarrow> ('f, 'p, 'u) cpp_sys \<Rightarrow> ('f, 'p, 'u) cpp_sys \<Rightarrow> bool" where
  "kept E s s' \<longleftrightarrow> data_ok E s' \<and> (\<forall>k. cs_stacks s' k \<in> {cs_stacks s k, None, Some [Context_begin]})"

definition typed :: "addr set \<Rightarrow> ('f, 'p, 'u) cpp_sys \<Rightarrow> ('f, 'p, 'u) cpp_outcome \<Rightarrow> bool" where
  "typed E s out \<longleftrightarrow> sound (\<lambda>(s', frames). kept E s s' \<and> list_all (frame_ok E) frames) out"

lemma kept_refl: "data_ok E s \<Longrightarrow> kept E s s"
  by (simp add: kept_def)

lemma kept_data: "kept E s s' \<Longrightarrow> data_ok E s'"
  by (simp add: kept_def)

lemma data_ok_same:
  "cs_events s' = cs_events s \<Longrightarrow> rt_queue_of s' = rt_queue_of s \<Longrightarrow> deferred_flush s' = deferred_flush s \<Longrightarrow>
   cs_require s' = cs_require s \<Longrightarrow> data_ok E s' = data_ok E s"
  by (simp add: data_ok_def)

lemma data_ok_states: "cs_events s' = cs_events s \<Longrightarrow> cs_states s' = cs_states s \<Longrightarrow> cs_require s' = cs_require s \<Longrightarrow>
   data_ok E s' = data_ok E s"
  by (rule data_ok_same) (simp_all add: fun_eq_iff rt_queue_of_def deferred_flush_def)

lemma data_ok_simps [simp]:
  "data_ok E (set_handling c n s) = data_ok E s" "data_ok E (set_blocked c n s) = data_ok E s"
  "data_ok E (set_deferred_target c t s) = data_ok E s" "data_ok E (set_skip_block c p s) = data_ok E s"
  "data_ok E (reset_skip_block c s) = data_ok E s"
  by (rule data_ok_same; simp add: fun_eq_iff accessor_defs)+

lemma data_ok_fields [simp]:
  "data_ok E (write_os l s) = data_ok E s" "data_ok E (set_activity k v s) = data_ok E s"
  "data_ok E (set_pump q s) = data_ok E s" "data_ok E (s\<lparr>cs_value := r\<rparr>) = data_ok E s"
  "data_ok E (s\<lparr>cs_user := u\<rparr>) = data_ok E s" "data_ok E (s\<lparr>cs_labels := ls\<rparr>) = data_ok E s"
  "data_ok E (s\<lparr>cs_defer := b\<rparr>) = data_ok E s" "data_ok E (yield_to k s) = data_ok E s"
  "data_ok E (create_context p s) = data_ok E s" "data_ok E (remove_finished_coroutines p s) = data_ok E s"
  "data_ok E (s\<lparr>cs_stacks := st\<rparr>) = data_ok E s" "data_ok E (s\<lparr>cs_clock := t\<rparr>) = data_ok E s"
  "data_ok E (s\<lparr>cs_pump := q'\<rparr>) = data_ok E s" "data_ok E (s\<lparr>cs_active := k'\<rparr>) = data_ok E s"
  "data_ok E (prune_deferred env s) = data_ok E s" "data_ok E (scoped_activity_end cid i s) = data_ok E s"
  by (rule data_ok_states; simp add: yield_to_def create_context_def remove_finished_coroutines_def prune_deferred_def
      scoped_activity_end_def Let_def split: option.split)+

lemma data_ok_set_queue: "data_ok E s \<Longrightarrow> list_all (closure_ok E) q \<Longrightarrow> data_ok E (set_queue c q s)"
  by (simp add: data_ok_def accessor_defs)

lemma data_ok_set_deferred_flush:
  "data_ok E s \<Longrightarrow> (\<forall>fl. g = Some fl \<longrightarrow> flush_ok E fl) \<Longrightarrow> data_ok E (set_deferred_flush c g s)"
  by (simp add: data_ok_def accessor_defs)

lemma data_ok_put_event: "data_ok E s \<Longrightarrow> event_ok E ev \<Longrightarrow> data_ok E (put_event a ev s)"
  by (auto simp: data_ok_def rt_queue_of_def deferred_flush_def)

lemma sound_seq_iff: "sound P (seq m f) \<longleftrightarrow> sound (\<lambda>x. sound P (f x)) m"
  by (cases m) simp_all

text \<open>A load that succeeds is to be used as an equation here.\<close>

declare load_Inr_iff [simp del]

lemma event_loaded:
  assumes "data_ok E s" and "a \<in> E"
  obtains ev m where "load (cs_events s) a = Inr ev" and "check_event ev = Inr m" and "event_ok E ev" and "ev_port ev \<noteq> NULL"
    and "port_meta ev = Inr m"
proof -
  from assms obtain ev where ev: "a \<noteq> NULL" "objs (cs_events s) a = Some ev" "event_ok E ev" by (auto simp: data_ok_def)
  then obtain m where "ev_meta ev = Some m" by (auto simp: event_ok_def)
  with ev show ?thesis by (intro that [of ev m]) (simp_all add: check_event_def port_meta_def event_ok_def load_Inr_iff)
qed

lemma sound_get_pump: "(\<And>p. cs_pump s = Some p \<Longrightarrow> P p) \<Longrightarrow> sound P (get_cpp_pump s)"
  by (simp add: get_cpp_pump_def event_faults_def split: option.split)

lemma sound_find_self: "(\<And>k. P k) \<Longrightarrow> sound P (find_self cs)"
  by (auto simp: find_self_def c_assert_def event_faults_def split: option.split)

lemma sound_coroutine_id: "(\<And>k. P k) \<Longrightarrow> sound P (cpp_coroutine_id s)"
  by (simp add: cpp_coroutine_id_def sound_find_self split: option.split)

lemma sound_port_blocked: "port \<noteq> NULL \<Longrightarrow> (\<And>b. P b) \<Longrightarrow> sound P (port_blocked_p s port)"
  by (simp add: port_blocked_p_def pump_port_blocked_p_def split: option.split)

lemma sound_any_port_blocked: "\<forall>m \<in> set ms. provide_port m \<noteq> NULL \<Longrightarrow> (\<And>b. P b) \<Longrightarrow> sound P (any_port_blocked p ms)"
  by (induction ms) (simp_all add: pump_port_blocked_p_def)

lemma sound_blocked_p: "data_ok E s \<Longrightarrow> (\<And>b. P b) \<Longrightarrow> sound P (blocked_p s component)"
  by (auto simp: blocked_p_def c_assert_def event_faults_def data_ok_def sound_seq_iff sound_any_port_blocked split: option.split)

lemma sound_yield_back: "(cs_pump s = Some p \<Longrightarrow> P (yield_to (co_id (last (pu_coroutines p))) s)) \<Longrightarrow> cs_pump s = Some p \<Longrightarrow> sound P (yield_to_back p s)"
  by (simp add: yield_to_back_def event_faults_def)

lemmas sound_intros = sound_get_pump sound_find_self sound_coroutine_id sound_port_blocked

lemma typed_Inr: "typed E s (Inr (s', frames)) \<longleftrightarrow> kept E s s' \<and> list_all (frame_ok E) frames"
  by (simp add: typed_def)

lemmas typed_defs = typed_def kept_def sound_seq_iff

section \<open>Events\<close>

lemma typed_port_update [intro]:
  "data_ok E s \<Longrightarrow> env_ok E env \<Longrightarrow> typed E s (port_update env i label s)"
  by (simp add: port_update_def typed_defs env_ok_def)

lemma kept_collateral_block:
  assumes "data_ok E s"
  shows "sound (kept E s) (collateral_block c s)"
  using assms
  by (auto simp: collateral_block_def sound_seq_iff event_faults_def Let_def kept_def create_context_def set_pump_def
      get_cpp_pump_def yield_to_back_def yield_to_def intro!: sound_get_pump sound_find_self split: option.split prod.split)

lemma prune_stacks [simp]: "cs_stacks (prune_deferred env s) = cs_stacks s"
  by (simp add: prune_deferred_def split: option.split)

lemma scoped_end_stacks [simp]: "cs_stacks (scoped_activity_end cid i s) = cs_stacks s"
  by (simp add: scoped_activity_end_def)

lemma typed_in_call: "data_ok E s \<Longrightarrow> a \<in> E \<Longrightarrow> typed E s (in_call a f s)"
  by (rule event_loaded, assumption, assumption)
    (auto simp: in_call_def typed_defs intro!: sound_port_blocked
      sound_mono [OF kept_collateral_block, unfolded kept_def])

lemma typed_in_start: "data_ok E s \<Longrightarrow> a \<in> E \<Longrightarrow> typed E s (in_start a f s)"
  by (rule event_loaded, assumption, assumption) (simp add: in_start_def typed_defs)

lemma typed_in_handle: "data_ok E s \<Longrightarrow> env_ok E env \<Longrightarrow> a \<in> E \<Longrightarrow> typed E s (in_handle env a f s)"
  by (rule event_loaded, assumption, assumption) (auto simp: in_handle_def typed_defs scoped_activity_def env_ok_def Let_def intro!: sound_coroutine_id)

lemma typed_in_flush: "data_ok E s \<Longrightarrow> a \<in> E \<Longrightarrow> typed E s (in_flush a cid i s)"
  by (rule event_loaded, assumption, assumption)
    (auto simp: in_flush_def typed_defs Let_def event_ok_def intro!: sound_coroutine_id data_ok_put_event)

lemma typed_in_trace: "data_ok E s \<Longrightarrow> a \<in> E \<Longrightarrow> typed E s (in_trace a cid i s)"
  by (rule event_loaded, assumption, assumption) (simp add: in_trace_def typed_defs Let_def)

lemma typed_in_finish: "data_ok E s \<Longrightarrow> env_ok E env \<Longrightarrow> a \<in> E \<Longrightarrow> typed E s (in_finish env a cid i s)"
  by (rule event_loaded, assumption, assumption) (simp add: in_finish_def typed_defs env_ok_def split: option.split)

lemma typed_in_leave: "data_ok E s \<Longrightarrow> a \<in> E \<Longrightarrow> typed E s (in_leave a cid i s)"
  by (rule event_loaded, assumption, assumption) (simp add: in_leave_def typed_defs)

lemma typed_raii_leave: "data_ok E s \<Longrightarrow> a \<in> E \<Longrightarrow> typed E s (raii_leave a s)"
  by (rule event_loaded, assumption, assumption) (simp add: raii_leave_def typed_defs event_ok_def data_ok_put_event)

lemma typed_out_call: "data_ok E s \<Longrightarrow> a \<in> E \<Longrightarrow> typed E s (out_call a f s)"
  by (rule event_loaded, assumption, assumption) (simp add: out_call_def typed_defs)

lemma flush_labels_ok [simp]: "list_all (frame_ok E) (flush_labels ev)"
  by (simp add: flush_labels_def split: option.split)

lemma typed_run_flush: "data_ok E s \<Longrightarrow> flush_ok E c \<Longrightarrow> typed E s (run_flush_closure c s)"
  by (cases c, simp, rule event_loaded, assumption, assumption) (simp add: typed_defs sound_port_blocked)

lemma typed_run_event: "data_ok E s \<Longrightarrow> env_ok E env \<Longrightarrow> closure_ok E e \<Longrightarrow> typed E s (run_event_closure env e s)"
  by (cases e, simp, rule event_loaded, assumption, assumption) (simp add: typed_defs env_ok_def)

lemma typed_invoke:
  assumes "data_ok E s" "env_ok E env" "binding_ok E b"
  shows "typed E s (invoke env b s)"
proof (cases b)
  case (Bound a f)
  with assms have a: "a \<in> E" by simp
  from event_loaded [OF assms(1) a] obtain ev where "load (cs_events s) a = Inr ev" by blast
  with Bound show ?thesis
    using typed_in_call [OF assms(1) a] typed_out_call [OF assms(1) a] assms(1,2)
    by (simp add: env_ok_def typed_Inr kept_refl)
next
  case (Forward a g)
  with assms have a: "a \<in> E" "binding_ok E g" by simp_all
  from event_loaded [OF assms(1) a(1)] obtain ev where "load (cs_events s) a = Inr ev" by blast
  with Forward assms(1) a show ?thesis by (simp add: typed_defs)
qed (simp add: typed_defs event_faults_def)

lemma typed_out_queue:
  assumes "data_ok E s" "env_ok E env" "a \<in> E"
  shows "typed E s (out_queue env a f s)"
proof -
  obtain ev m where ev: "load (cs_events s) a = Inr ev" "check_event ev = Inr m" "ev_port ev \<noteq> NULL"
    using event_loaded [OF assms(1,3)] by blast
  let ?s = "\<lambda>cid. set_deferred_target (provide_component m) (require_component m)
    (set_deferred_flush (require_component m) (Some (Flush_closure a (provide_component m))) (snd (scoped_activity cid (-1) s)))"
  have "data_ok E (snd (scoped_activity cid (-1) s))" for cid using assms(1) by (simp add: scoped_activity_def)
  then have s: "data_ok E (?s cid)" for cid
    using assms(3) by (simp del: flush_ok.simps) (rule data_ok_set_deferred_flush, auto)
  then have q: "list_all (closure_ok E) (rt_queue_of (?s cid) c)" for cid c by (simp add: data_ok_def)
  have stacks: "cs_stacks (snd (scoped_activity cid (-1) s)) = cs_stacks s" for cid by (simp add: scoped_activity_def)
  have queued: "data_ok E (set_queue (require_component m) (rt_queue_of (?s cid) (require_component m) @ [Event_closure a (require_component m) f]) (?s cid))"
    for cid using s q assms(3) by (intro data_ok_set_queue) simp_all
  have label: "sound P (label_now ev (provide_component m) v)" if "data_ok E v" "\<And>b. P b" for P v
    using that ev(3) by (auto simp: label_now_def sound_seq_iff intro!: sound_port_blocked sound_blocked_p)
  show ?thesis
    unfolding out_queue_def ev(1,2) typed_def sound_seq_iff sound_simps seq_simps Let_def split_beta
    by (intro sound_port_blocked [OF ev(3)] sound_coroutine_id)
      (use s queued stacks assms(2) label [OF queued] in
        \<open>auto simp: kept_def env_ok_def sound_seq_iff intro!: sound_coroutine_id\<close>)
qed

section \<open>The flush and deferred statements\<close>

lemma typed_flush: "data_ok E s \<Longrightarrow> typed E s (cpp_flush c cid sync s)"
  by (simp add: cpp_flush_def typed_Inr kept_def)

lemma typed_flush_loop:
  assumes ok: "data_ok E s"
  shows "typed E s (flush_loop c cid sync flushed s)"
proof -
  have flush: "flush_ok E fl" if "deferred_flush s d = Some fl" for d fl using ok that by (auto simp: data_ok_def)
  show ?thesis
  proof (cases "rt_queue_of s c")
    case Nil
    then show ?thesis
      using ok flush [of NULL] by (auto simp: flush_loop_def typed_Inr kept_def Let_def split: option.split)
  next
    case (Cons e rest)
    have "list_all (closure_ok E) (e # rest)" using ok by (simp add: data_ok_def flip: Cons)
    then have "data_ok E (set_queue c rest s)" "closure_ok E e" using ok by (simp_all add: data_ok_set_queue)
    with Cons flush [of c] show ?thesis
      by (auto simp: flush_loop_def typed_Inr kept_def Let_def split: option.split)
  qed
qed

lemma kept_from:
  "typed E s1 out \<Longrightarrow> cs_stacks s1 = cs_stacks s \<Longrightarrow> typed E s out"
  by (auto simp: typed_def kept_def elim!: sound_mono)

lemma typed_flush_event: "data_ok E s \<Longrightarrow> env_ok E env \<Longrightarrow> closure_ok E e \<Longrightarrow> typed E s (flush_event env c e s)"
  unfolding flush_event_def
  by (rule kept_from [OF typed_run_event]) (simp_all add: data_ok_set_deferred_flush)

lemma typed_defer_start: "data_ok E s \<Longrightarrow> env_ok E env \<Longrightarrow> typed E s (defer_start env c f cid s)"
  by (auto simp: defer_start_def typed_defs scoped_activity_def Let_def env_ok_def intro!: sound_coroutine_id)

section \<open>The pump\<close>

lemma pump_stacks [simp]:
  "cs_stacks (create_context p s) = (cs_stacks s)(Suc (pu_current p) := Some [Context_begin])"
  "cs_pump (create_context p s) \<noteq> None"
  "cs_stacks (yield_to k s) = cs_stacks s"
  by (simp_all add: create_context_def yield_to_def Let_def)

lemma remove_finished_stacks: "cs_stacks (remove_finished_coroutines p s) k \<in> {cs_stacks s k, None}"
  by (simp add: remove_finished_coroutines_def)

lemmas pump_rules =
  sound_get_pump sound_find_self sound_coroutine_id

lemma sound_assert [simp]: "sound P (c_assert what b) \<longleftrightarrow> (if b then P () else AssertFailed what \<notin> event_faults)"
  by (simp add: c_assert_def)

lemma sound_yield_to_back: "(\<And>k. P (yield_to k s)) \<Longrightarrow> sound P (yield_to_back p s)"
  by (simp add: yield_to_back_def event_faults_def)

lemma typed_pump_block: "data_ok E s \<Longrightarrow> typed E s (pump_block c port s)"
  by (auto simp: pump_block_def typed_defs intro!: pump_rules)

lemma typed_block_skip:
  assumes "data_ok E s"
  shows "typed E s (block_skip self c port s)"
proof (cases "skip_block s c port")
  case False
  have last: "AssertFailed ''coroutines.back ().port == nullptr'' \<notin> event_faults" by (simp add: event_faults_def)
  from False show ?thesis
    using assms last
    by (auto simp: block_skip_def typed_defs Let_def split_beta intro!: pump_rules sound_yield_to_back)
qed (use assms in \<open>simp add: block_skip_def typed_Inr kept_def\<close>)

lemma kept_remove_finished: "data_ok E s \<Longrightarrow> kept E s (remove_finished_coroutines p s)"
  using remove_finished_stacks [of p s] by (auto simp: kept_def)

lemma typed_block_resumed: "data_ok E s \<Longrightarrow> typed E s (block_resumed c s)"
  using kept_remove_finished [of E s]
  by (auto simp: block_resumed_def typed_def sound_seq_iff kept_def intro!: pump_rules)

lemma typed_pump_release: "data_ok E s \<Longrightarrow> typed E s (pump_release c port s)"
  by (auto simp: pump_release_def typed_defs Let_def intro!: pump_rules split: option.split)

lemma typed_collateral_release: "data_ok E s \<Longrightarrow> typed E s (collateral_release self s)"
  by (auto simp: collateral_release_def typed_defs Let_def split_beta intro!: pump_rules sound_yield_to_back split: option.split)

lemma typed_worker: "data_ok E s \<Longrightarrow> env_ok E env \<Longrightarrow> typed E s (pump_worker env s)"
  by (auto simp: pump_worker_def typed_defs env_ok_def intro!: pump_rules split: list.split)

lemma typed_worker_deferred: "data_ok E s \<Longrightarrow> typed E s (worker_deferred env s)"
  by (auto simp: worker_deferred_def typed_defs intro!: pump_rules split: list.split)

lemma typed_worker_timers: "data_ok E s \<Longrightarrow> env_ok E env \<Longrightarrow> typed E s (worker_timers env now s)"
  by (auto simp: worker_timers_def typed_defs env_ok_def intro!: pump_rules split: list.split)

lemma typed_context_loop: "data_ok E s \<Longrightarrow> typed E s (context_loop self s)"
  by (auto simp: context_loop_def typed_defs intro!: pump_rules)

lemma typed_pump_loop: "data_ok E s \<Longrightarrow> typed E s (pump_loop s)"
  by (auto simp: pump_loop_def typed_defs event_faults_def intro!: pump_rules)

lemma typed_pump_paused: "data_ok E s \<Longrightarrow> typed E s (pump_paused s)"
  by (auto simp: pump_paused_def typed_defs event_faults_def yield_to_back_def intro!: pump_rules)

lemma typed_pump_called: "data_ok E s \<Longrightarrow> typed E s (pump_called s)"
  using kept_remove_finished [of E s]
  by (auto simp: pump_called_def typed_def sound_seq_iff kept_def intro!: pump_rules)

section \<open>Steps\<close>

lemma typed_call:
  assumes "data_ok E s" "call_ok E c"
  shows "typed E s (cpp_call_step env c s)"
proof (cases c)
  case (Call_event a)
  with assms have "a \<in> E" by simp
  from event_loaded [OF assms(1) this] obtain ev where "load (cs_events s) a = Inr ev" "event_ok E ev" by blast
  with Call_event assms(1) show ?thesis by (simp add: typed_Inr kept_refl event_ok_def)
next
  case (Set_out_binding a g)
  with assms have "a \<in> E" by simp
  from event_loaded [OF assms(1) this] obtain ev where "load (cs_events s) a = Inr ev" "event_ok E ev" by blast
  with Set_out_binding assms(1) show ?thesis by (simp add: typed_Inr kept_def event_ok_def data_ok_put_event)
next
  case (Handle i ms f)
  have "sound (\<lambda>_. True) (pump_handle (cs_clock s) i ms f p)" for p
    by (simp add: pump_handle_def sound_seq_iff event_faults_def)
  with Handle assms show ?thesis by (auto simp: typed_defs intro!: pump_rules elim!: sound_mono)
qed (use assms typed_pump_block typed_pump_release in \<open>auto simp: typed_defs event_faults_def intro!: pump_rules\<close>)

lemma typed_prog:
  assumes "data_ok E s" "prog_ok E p"
  shows "typed E s (run_prog env p s)"
proof (cases p)
  case (Call c k)
  with assms have "typed E s (cpp_call_step env c s)" by (simp add: typed_call)
  with Call assms(2) show ?thesis by (auto simp: typed_def sound_seq_iff elim!: sound_mono)
qed (use assms in \<open>simp_all add: typed_Inr kept_def\<close>)

lemma typed_frame:
  assumes data: "data_ok E s" and env: "env_ok E env" and frame: "frame_ok E frame" and switch: "frame \<noteq> Context_switch"
  shows "typed E s (cpp_frame_step env frame s)"
proof (cases frame)
  case (Give r)
  with data show ?thesis by (simp add: typed_Inr kept_def)
next
  case (Out_done cid i)
  with data show ?thesis by (simp add: out_done_def typed_Inr kept_def)
next
  case (Clear_update c)
  with data show ?thesis by (simp add: typed_Inr kept_def data_ok_set_deferred_flush)
next
  case (Defer_done cid i)
  with data show ?thesis by (simp add: defer_done_def typed_Inr kept_def)
next
  case Executed
  with data show ?thesis by (auto simp: executed_def typed_defs intro!: pump_rules)
next
  case Context_begin
  with data show ?thesis by (auto simp: context_begin_def typed_defs intro!: pump_rules)
next
  case (Context_after self)
  with data show ?thesis by (auto simp: context_after_def typed_defs intro!: pump_rules)
next
  case Pump_begin
  with data show ?thesis by (auto simp: pump_begin_def typed_defs intro!: pump_rules)
next
  case Never
  then show ?thesis by (simp add: typed_def event_faults_def)
qed (use assms in \<open>simp_all add: typed_prog typed_port_update typed_invoke typed_in_start typed_in_handle typed_in_flush
    typed_in_trace typed_in_finish typed_in_leave typed_raii_leave typed_out_queue typed_run_flush typed_flush
    typed_flush_loop typed_flush_event typed_defer_start typed_block_skip typed_block_resumed typed_worker
    typed_worker_deferred typed_worker_timers typed_context_loop typed_collateral_release typed_pump_loop
    typed_pump_paused typed_pump_called typed_Inr kept_refl\<close>)

text \<open>A switch of contexts may meet a coroutine that is gone; otherwise it is like the rest.\<close>

lemma typed_context_switch:
  assumes "data_ok E s"
  shows "case context_switch s of Inl e \<Rightarrow> e = UseAfterFree \<or> e \<notin> event_faults
    | Inr (s', frames) \<Rightarrow> kept E s s' \<and> list_all (frame_ok E) frames"
proof -
  have "find_self cs = Inl e \<Longrightarrow> e \<notin> event_faults" for cs e
    using sound_find_self [of "\<lambda>_. True" cs] by simp
  with assms show ?thesis
    by (auto simp: context_switch_def switch_to_def get_cpp_pump_def get_coroutine_def kept_def seq_def event_faults_def Let_def
        split: option.split list.split sum.split)
qed

lemma sys_ok_step:
  assumes ok: "sys_ok E s" and env: "env_ok E env" and step: "cpp_step env s = Inr (Some s')"
  shows "sys_ok E s'"
proof -
  from step obtain frame rest s1 frames where stack: "cs_stacks s (cs_active s) = Some (frame # rest)"
    and frame: "cpp_frame_step env frame s = Inr (s1, frames)"
    and s': "s' = s1\<lparr>cs_stacks := (cs_stacks s1)(cs_active s := Some (frames @ rest))\<rparr>"
    by (auto simp: cpp_step_def split: option.splits list.splits)
  have data: "data_ok E s" and typed_stacks: "\<And>k fs. cs_stacks s k = Some fs \<Longrightarrow> list_all (frame_ok E) fs"
    using ok by (auto simp: sys_ok_def)
  then have "frame_ok E frame" and rest: "list_all (frame_ok E) rest" using stack by fastforce+
  have "kept E s s1 \<and> list_all (frame_ok E) frames"
  proof (cases "frame = Context_switch")
    case True
    with typed_context_switch [OF data] frame show ?thesis by simp
  next
    case False
    with typed_frame [OF data env \<open>frame_ok E frame\<close>] frame show ?thesis by (simp add: typed_Inr)
  qed
  then have kept: "data_ok E s1" "cs_stacks s1 k \<in> {cs_stacks s k, None, Some [Context_begin]}" "list_all (frame_ok E) frames" for k
    by (auto simp: kept_def)
  have "list_all (frame_ok E) fs" if "cs_stacks s1 k = Some fs" for k fs
    using kept(2) [of k] typed_stacks [of k] that by auto
  with kept(1,3) rest show ?thesis by (simp add: sys_ok_def s')
qed

lemma sys_ok_outside: "cpp_outside s s' \<Longrightarrow> sys_ok E s \<Longrightarrow> sys_ok E s'"
  by (induction rule: cpp_outside.induct) (simp_all add: sys_ok_def)

text \<open>C40: type soundness: from a typed system, whatever runs and is posted from outside, the system stays typed, and
  no step reads an event through a NULL or dangling pointer or fails an assertion on an event's fields.  The only
  pointer that can dangle is the one to a coroutine that a release has kept for a later switch.\<close>

theorem typed_systems_keep_events:
  assumes "cpp_reaches env start s" and "sys_ok E start" and "env_ok E env"
  shows "sys_ok E s \<and> (\<forall>frame rest e.
    cs_stacks s (cs_active s) = Some (frame # rest) \<longrightarrow> cpp_frame_step env frame s = Inl e \<longrightarrow>
    e \<notin> event_faults \<or> (frame = Context_switch \<and> e = UseAfterFree))"
proof -
  have ok: "sys_ok E s"
    using assms(1) by (induction rule: cpp_reaches.induct) (auto intro: assms(2) sys_ok_step [OF _ assms(3)] sys_ok_outside)
  have "e \<notin> event_faults \<or> (frame = Context_switch \<and> e = UseAfterFree)"
    if "cs_stacks s (cs_active s) = Some (frame # rest)" "cpp_frame_step env frame s = Inl e" for frame rest e
  proof (cases "frame = Context_switch")
    case True
    with that typed_context_switch [of E s] ok show ?thesis by (auto simp: sys_ok_def)
  next
    case False
    have "data_ok E s" "frame_ok E frame" using ok that(1) by (fastforce simp: sys_ok_def)+
    from typed_frame [OF this(1) assms(3) this(2) False] that(2) show ?thesis by (simp add: typed_def)
  qed
  with ok show ?thesis by blast
qed

end
