(* ===== verification/Cpp_Types_Examples.thy ===== *)
theory Cpp_Types_Examples
  imports Cpp_Types Cpp_Examples
begin

text \<open>The component of \<open>Cpp_Examples\<close> with its pump is typed by the addresses of its two events.\<close>

lemma blocking_typed: "env_ok {1, 2} blocking_env"
  by (simp add: env_ok_def blocking_env_def blocking_body_def)

lemma events_typed: "event_ok {1, 2} in_event" "event_ok {1, 2} out_event"
  by (simp_all add: event_ok_def example_defs)

lemma pump_sys_typed: "sys_ok {1, 2} (pump_sys q)"
  using events_typed
  by (simp add: sys_ok_def data_ok_def pump_sys_def idle_sys_def events_def rt_queue_of_def deferred_flush_def
      native_state_def empty_state_def)

theorem typed_systems_keep_events_witness:
  "sys_ok {1, 2} (projr (cpp_run 33 blocking_env (pump_sys [11, 11])))"
proof -
  obtain s where s: "cpp_run 33 blocking_env (pump_sys [11, 11]) = Inr s"
    using blocked_runs by (cases "cpp_run 33 blocking_env (pump_sys [11, 11])") auto
  then have "cpp_reaches blocking_env (pump_sys [11, 11]) s"
    by (rule cpp_run_reaches [OF cpp_reaches_start])
  then have "sys_ok {1, 2} s"
    using typed_systems_keep_events [OF _ pump_sys_typed blocking_typed] by blast
  with s show ?thesis by simp
qed

end
