(* ===== verification/Cpp_Events.thy ===== *)
theory Cpp_Events
  imports Cpp_Types_Examples
begin

text \<open>
  Constructors, and the class of in events without a value.  \<open>dzn/runtime.hh\<close> writes the class of in events twice,
  for a type and for \<open>void\<close> (lines 464 to 604); \<open>Cpp_Machine\<close> models both with one group of functions that ask for
  the kind of the event.  Here the second class is translated on its own, and the two agree on its events.  A system
  whose events, runtime and pump are those the constructors make satisfies the invariants of \<open>Cpp_Pump_Laws\<close> and
  \<open>Cpp_Types\<close>, so that these hold of everything it reaches.
\<close>

section \<open>Constructors\<close>

text \<open>A new event calls nothing and its \<open>port_update\<close> does nothing.\<close>

definition event_init :: "'f cpp_event" where
  "event_init = \<lparr>ev_kind = In_typed, ev_binding = Unbound, ev_out_binding = None, ev_strict = False, ev_reply = Void,
     ev_port = NULL, ev_other = None, ev_meta = None, ev_component = NULL, ev_name = []\<rparr>"

definition void_event_init :: "'f cpp_event" where
  "void_event_init = event_init\<lparr>ev_kind := In_void\<rparr>"

definition out_event_init :: "'f cpp_event" where
  "out_event_init = event_init\<lparr>ev_kind := Out_void\<rparr>"

text \<open>\<open>operator bool\<close>.\<close>

fun bound :: "'f binding \<Rightarrow> bool" where
  "bound Unbound \<longleftrightarrow> False"
| "bound _ \<longleftrightarrow> True"

definition event_bool :: "'f cpp_event \<Rightarrow> bool" where
  "event_bool ev \<longleftrightarrow> bound (ev_binding ev)"

text \<open>A copy of an event that holds nothing holds something: a lambda that calls an empty function.\<close>

lemma copy_is_bound: "event_copy this that ev = Inr ev' \<Longrightarrow> event_bool ev'"
  by (auto simp: event_copy_def event_bool_def)

definition runtime_init :: "(addr \<Rightarrow> cpp_port_meta list) \<Rightarrow> 'u \<Rightarrow> ('f, 'p, 'u) cpp_sys" where
  "runtime_init require u = \<lparr>cs_states = (\<lambda>_. empty_state), cs_activity = (\<lambda>_. 0), cs_defer = False, cs_events = empty_store,
     cs_labels = (\<lambda>_. []), cs_require = require, cs_pump = None, cs_user = u, cs_os = [], cs_clock = 0,
     cs_stacks = (\<lambda>_. None), cs_active = 0, cs_value = Void\<rparr>"

definition pump_init :: "bool \<Rightarrow> ('f, 'p) cpp_pump" where
  "pump_init b = \<lparr>pu_wait_for_timeouts = b, pu_unblocked = [], pu_running = True, pu_executing = False, pu_paused = False,
     pu_coroutines = [], pu_collateral = [], pu_current = 0, pu_queue = [], pu_deferred = [], pu_timers = [], pu_switch = []\<rparr>"

text \<open>The constructor starts the pump's thread.\<close>

definition start_pump :: "bool \<Rightarrow> ('f, 'p, 'u) cpp_sys \<Rightarrow> ('f, 'p, 'u) cpp_sys" where
  "start_pump b s = (set_pump (pump_init b) s)\<lparr>cs_stacks := (cs_stacks s)(0 := Some [Pump_begin])\<rparr>"

lemma start_pump_inv: "cs_active s = 0 \<Longrightarrow> \<forall>k > 0. cs_stacks s k = None \<Longrightarrow> cpp_inv (start_pump b s)"
  by (auto simp: start_pump_def pump_init_def cpp_inv_def timers_ok_def contexts_ok_def coroutine_ids_def)

text \<open>Events that are made, \<open>set\<close> and assigned a function, under their addresses.\<close>

fun make_events :: "(addr \<times> event_kind \<times> addr \<times> addr \<times> cpp_port_meta \<times> string \<times> 'f) list \<Rightarrow> 'f cpp_event store" where
  "make_events [] = empty_store"
| "make_events ((a, kind, c, i, m, n, f) # es) =
     set_obj a (Some (event_assign a f (event_set c i m n (event_init\<lparr>ev_kind := kind\<rparr>)))) (make_events es)"

lemma make_events_typed:
  "\<forall>(a, kind, c, i, m, n, f) \<in> set es. a \<in> E \<and> c \<noteq> NULL \<and> i \<noteq> NULL \<Longrightarrow> a \<in> fst ` set es \<Longrightarrow>
   \<exists>ev. objs (make_events es) a = Some ev \<and> event_ok E ev"
  by (induction es rule: make_events.induct) (auto simp: event_assign_def event_set_def event_ok_def)

text \<open>Every system made like this is typed.\<close>

theorem constructed_systems_typed:
  assumes "\<forall>(a, kind, c, i, m, n, f) \<in> set es. a \<noteq> NULL \<and> c \<noteq> NULL \<and> i \<noteq> NULL"
    and "\<forall>c. \<forall>m \<in> set (require c). provide_port m \<noteq> NULL"
  shows "sys_ok (fst ` set es) (start_pump b ((runtime_init require u)\<lparr>cs_events := make_events es\<rparr>))"
proof -
  let ?E = "fst ` set es"
  have "a \<noteq> NULL \<and> (\<exists>ev. objs (make_events es) a = Some ev \<and> event_ok ?E ev)" if "a \<in> ?E" for a
    using that make_events_typed [of es ?E a] assms(1) by (fastforce simp: image_iff)
  with assms(2) show ?thesis
    by (simp add: sys_ok_def data_ok_def start_pump_def runtime_init_def rt_queue_of_def deferred_flush_def empty_state_def)
qed

section \<open>In events without a value\<close>

definition void_event_set :: "addr \<Rightarrow> addr \<Rightarrow> cpp_port_meta \<Rightarrow> string \<Rightarrow> 'f cpp_event \<Rightarrow> 'f cpp_event" where
  "void_event_set c i meta n ev = ev\<lparr>ev_strict := True, ev_port := i, ev_meta := Some meta, ev_component := c, ev_name := n\<rparr>"

definition void_call :: "addr \<Rightarrow> 'f \<Rightarrow> ('f, 'p, 'u) cpp_sys \<Rightarrow> ('f, 'p, 'u) cpp_outcome" where
  "void_call this f s =
     seq (load (cs_events s) this) (\<lambda>ev.
     seq (check_event ev) (\<lambda>meta.
       let provide = provide_component meta
       in seq (if handling s provide \<noteq> 0 then Inr True else port_blocked_p s (ev_port ev)) (\<lambda>busy.
          seq (if busy \<and> native s provide then collateral_block provide s else Inr s) (\<lambda>s.
            Inr (s, [In_start this f])))))"

definition void_start :: "addr \<Rightarrow> 'f \<Rightarrow> ('f, 'p, 'u) cpp_sys \<Rightarrow> ('f, 'p, 'u) cpp_outcome" where
  "void_start this f s =
     seq (load (cs_events s) this) (\<lambda>ev.
     seq (check_event ev) (\<lambda>meta.
       let s = reset_skip_block (ev_component ev) s;
           s = write_os (trace_in meta (ev_name ev)) s
       in Inr (s, [Label (ev_port ev) (ev_name ev), In_handle this f])))"

definition void_handle :: "('f, 'p, 'u) cpp_env \<Rightarrow> addr \<Rightarrow> 'f \<Rightarrow> ('f, 'p, 'u) cpp_sys \<Rightarrow> ('f, 'p, 'u) cpp_outcome" where
  "void_handle env this f s =
     seq (load (cs_events s) this) (\<lambda>ev.
     seq (cpp_coroutine_id s) (\<lambda>cid.
       let (initial_activity, s) = scoped_activity cid 1 (set_handling (ev_component ev) cid s)
       in Inr (s, [Run (ce_body env f), In_flush this cid initial_activity])))"

definition void_flush :: "addr \<Rightarrow> nat \<Rightarrow> int \<Rightarrow> ('f, 'p, 'u) cpp_sys \<Rightarrow> ('f, 'p, 'u) cpp_outcome" where
  "void_flush this cid0 initial_activity s =
     seq (load (cs_events s) this) (\<lambda>ev.
     seq (check_event ev) (\<lambda>meta.
     seq (cpp_coroutine_id s) (\<lambda>cid.
       Inr (s, [Flush (provide_component meta) cid True, In_trace this cid0 initial_activity]))))"

definition void_trace :: "addr \<Rightarrow> nat \<Rightarrow> int \<Rightarrow> ('f, 'p, 'u) cpp_sys \<Rightarrow> ('f, 'p, 'u) cpp_outcome" where
  "void_trace this cid initial_activity s =
     seq (load (cs_events s) this) (\<lambda>ev.
     seq (check_event ev) (\<lambda>meta.
       Inr (write_os (trace_out meta ''return'') s, [Label (ev_port ev) ''return'', In_finish this cid initial_activity])))"

definition void_finish :: "('f, 'p, 'u) cpp_env \<Rightarrow> addr \<Rightarrow> nat \<Rightarrow> int \<Rightarrow> ('f, 'p, 'u) cpp_sys \<Rightarrow> ('f, 'p, 'u) cpp_outcome" where
  "void_finish env this cid initial_activity s =
     seq (load (cs_events s) this) (\<lambda>ev.
       let s = prune_deferred env s
       in case ev_out_binding ev of
            None \<Rightarrow> Inr (s, [In_leave this cid initial_activity])
          | Some g \<Rightarrow> Inr (s, [Run (ce_body env g), In_leave this cid initial_activity]))"

text \<open>The destructors run in the reverse order of the declarations, and there is nothing to return.\<close>

definition void_leave :: "addr \<Rightarrow> nat \<Rightarrow> int \<Rightarrow> ('f, 'p, 'u) cpp_sys \<Rightarrow> ('f, 'p, 'u) cpp_outcome" where
  "void_leave this cid initial_activity s =
     seq (load (cs_events s) this) (\<lambda>ev.
       let s = scoped_activity_end cid initial_activity s;
           s = set_handling (ev_component ev) 0 s
       in Inr (s\<lparr>cs_value := Void\<rparr>, []))"

definition void_raii_leave :: "addr \<Rightarrow> ('f, 'p, 'u) cpp_sys \<Rightarrow> ('f, 'p, 'u) cpp_outcome" where
  "void_raii_leave this s =
     seq (load (cs_events s) this) (\<lambda>ev. Inr (s, [Label (ev_port ev) ''return'', Give Void]))"

fun void_invoke :: "('f, 'p, 'u) cpp_env \<Rightarrow> 'f binding \<Rightarrow> ('f, 'p, 'u) cpp_sys \<Rightarrow> ('f, 'p, 'u) cpp_outcome" where
  "void_invoke env Unbound s = Inl (Thrown ''std::bad_function_call'')"
| "void_invoke env (Bound this f) s =
     seq (load (cs_events s) this) (\<lambda>ev. if \<not> ev_strict ev then Inr (s, [Run (ce_body env f)]) else void_call this f s)"
| "void_invoke env (Forward this g) s =
     seq (load (cs_events s) this) (\<lambda>ev.
       if \<not> ev_strict ev then Inr (s, [Invoke g])
       else Inr (s, [Label (ev_port ev) (ev_name ev), Invoke g, Raii_leave this]))"

text \<open>The frames of the class, and the event each belongs to.\<close>

fun void_step :: "('f, 'p, 'u) cpp_env \<Rightarrow> ('f, 'p, 'u) cpp_frame \<Rightarrow> ('f, 'p, 'u) cpp_sys \<Rightarrow> ('f, 'p, 'u) cpp_outcome" where
  "void_step env (Invoke b) s = void_invoke env b s"
| "void_step env (In_start a f) s = void_start a f s"
| "void_step env (In_handle a f) s = void_handle env a f s"
| "void_step env (In_flush a cid i) s = void_flush a cid i s"
| "void_step env (In_trace a cid i) s = void_trace a cid i s"
| "void_step env (In_finish a cid i) s = void_finish env a cid i s"
| "void_step env (In_leave a cid i) s = void_leave a cid i s"
| "void_step env (Raii_leave a) s = void_raii_leave a s"
| "void_step env frame s = cpp_frame_step env frame s"

fun binding_event :: "'f binding \<Rightarrow> addr option" where
  "binding_event Unbound = None"
| "binding_event (Bound a f) = Some a"
| "binding_event (Forward a g) = Some a"

fun frame_event :: "('f, 'p, 'u) cpp_frame \<Rightarrow> addr option" where
  "frame_event (Invoke b) = binding_event b"
| "frame_event (In_start a f) = Some a"
| "frame_event (In_handle a f) = Some a"
| "frame_event (In_flush a cid i) = Some a"
| "frame_event (In_trace a cid i) = Some a"
| "frame_event (In_finish a cid i) = Some a"
| "frame_event (In_leave a cid i) = Some a"
| "frame_event (Raii_leave a) = Some a"
| "frame_event _ = None"

lemma seq_If: "seq (if b then m else Inr x) f = (if b then seq m f else f x)"
  by simp

lemma void_call_in_call: "void_call this f s = in_call this f s"
  by (simp only: void_call_def in_call_def Let_def seq_If seq_simps)

text \<open>On events of the class the machine does what the class does.\<close>

theorem void_class_agrees:
  assumes "\<And>a ev. frame_event frame = Some a \<Longrightarrow> load (cs_events s) a = Inr ev \<Longrightarrow> ev_kind ev = In_void"
  shows "cpp_frame_step env frame s = void_step env frame s"
proof -
  have load_cases: "seq (load (cs_events s) a) g = seq (load (cs_events s) a) h"
    if "frame_event frame = Some a" "\<And>ev. ev_kind ev = In_void \<Longrightarrow> g ev = h ev" for a g h
    using assms [OF that(1)] that(2) by (cases "load (cs_events s) a") (simp_all del: load_Inr_iff)
  show ?thesis
  proof (cases frame)
    case (Invoke b)
    then show ?thesis
      by (cases b) (auto simp: void_call_in_call intro!: load_cases)
  qed (auto simp: in_start_def void_start_def in_handle_def void_handle_def in_flush_def void_flush_def in_trace_def
      void_trace_def in_finish_def void_finish_def in_leave_def void_leave_def raii_leave_def void_raii_leave_def Let_def
      intro!: load_cases split: option.split)
qed

end
