(* ===== verification/Cpp_Lifecycle.thy ===== *)
theory Cpp_Lifecycle
  imports Cpp_Events
begin

text \<open>
  The life of a pump: its constructor starts the thread, which makes a coroutine that waits; posted functions run in
  their order and the coroutine waits again; after \<open>stop\<close> what is still queued runs, and the thread returns.
\<close>

section \<open>A pump with one coroutine in its loop\<close>

definition loop_frames :: "nat \<Rightarrow> ('f, 'p, 'u) cpp_frame list" where
  "loop_frames k = [Worker, Context_after k, Context_switch, Context_loop k]"

definition new_coroutine :: "nat \<Rightarrow> cpp_coroutine" where
  "new_coroutine k = \<lparr>co_id = k, co_component = NULL, co_port = NULL, co_finished = False, co_skip_block = False\<rparr>"

definition quiet_pump :: "nat \<Rightarrow> nat \<Rightarrow> ('f, 'p) cpp_pump \<Rightarrow> bool" where
  "quiet_pump k now p \<longleftrightarrow> pu_deferred p = [] \<and> pu_collateral p = [] \<and> pu_unblocked p = [] \<and> pu_switch p = [] \<and>
     pu_coroutines p = [new_coroutine k] \<and> \<not> timers_expired p now"

definition serving :: "nat \<Rightarrow> ('f, 'p, 'u) cpp_sys \<Rightarrow> ('f, 'p) cpp_pump \<Rightarrow> bool" where
  "serving k s p \<longleftrightarrow> cs_pump s = Some p \<and> quiet_pump k (cs_clock s) p \<and> k \<noteq> 0 \<and> cs_active s = k \<and>
     cs_stacks s k = Some (loop_frames k) \<and> cs_stacks s 0 = Some [Pump_called]"

lemma on_stack_same: "cs_stacks s (cs_active s) = Some st \<Longrightarrow> on_stack st s = s"
  by (simp add: on_stack_def fun_upd_idem)

lemma runs_over:
  "cs_stacks s (cs_active s) = Some (frames @ st) \<Longrightarrow> completes env frames s s' \<Longrightarrow> cpp_runs env s (on_stack st s')"
  unfolding completes_def by (metis on_stack_same)

section \<open>Pieces of the loop\<close>

lemma after_event:
  assumes "cs_pump s = Some p" and "quiet_pump k (cs_clock s) p"
  shows "completes env [Worker_deferred] s s" and "completes env [Context_after k, Context_switch] s s"
proof -
  have "steps_to env (Worker_timers (cs_clock s)) s s []"
    using assms by (auto simp: steps_to_def worker_timers_def quiet_pump_def timers_expired_def split: list.split)
  then have "completes env [Worker_now] s s"
    by (intro completes_step [of env Worker_now s s "[Worker_timers (cs_clock s)]" "[]"])
      (simp_all add: steps_to_def completes_last)
  then show "completes env [Worker_deferred] s s"
    using assms by (intro completes_step [of env Worker_deferred s s "[Worker_now]" "[]"])
      (simp_all add: steps_to_def worker_deferred_def quiet_pump_def)
  have "steps_to env (Context_after k) s s []" and switch: "steps_to env Context_switch s s []"
    using assms by (simp_all add: steps_to_def context_after_def context_switch_def quiet_pump_def)
  then show "completes env [Context_after k, Context_switch] s s"
    using completes_step [of env "Context_after k" s s "[]" "[Context_switch]" s] completes_last [OF switch] by simp
qed

lemma worker_runs:
  assumes "cs_pump s = Some p" and "quiet_pump k (cs_clock s) p" and "pu_queue p = f # rest"
    and "prog_acts env (ce_body env f) eff Void"
  shows "completes env [Worker] s
    (set_pump (p\<lparr>pu_queue := rest, pu_executing := False\<rparr>) (s\<lparr>cs_user := eff (cs_user s), cs_value := Void\<rparr>))"
    (is "completes env _ s ?e")
proof -
  let ?s = "set_pump (p\<lparr>pu_queue := rest, pu_executing := True\<rparr>) s"
  let ?t = "?s\<lparr>cs_user := eff (cs_user s), cs_value := Void\<rparr>"
  have run: "steps_to env Worker s ?s ([Run (ce_body env f)] @ [Executed, Worker_deferred])"
    using assms(1,3) by (simp add: steps_to_def pump_worker_def worker_wait_def)
  have body: "completes env [Run (ce_body env f)] ?s ?t" using prog_actsD [OF assms(4), of ?s] by simp
  have again: "?e = set_pump (p\<lparr>pu_queue := rest, pu_executing := False\<rparr>) ?t" by (cases s) (simp add: set_pump_def)
  have exec: "steps_to env Executed ?t ?e []" unfolding again by (simp add: steps_to_def executed_def)
  have "completes env [Worker_deferred] ?e ?e"
    using assms(2) by (intro after_event [of _ "p\<lparr>pu_queue := rest, pu_executing := False\<rparr>" k])
      (simp_all add: quiet_pump_def timers_expired_def)
  then have "completes env [Executed, Worker_deferred] ?t ?e" by (intro completes_step [OF exec]) simp
  then show ?thesis by (rule completes_calls_last [OF run body])
qed

section \<open>Serving and stopping\<close>

lemma serves_one:
  assumes "serving k s p" and "pu_queue p = f # rest" and "prog_acts env (ce_body env f) eff Void"
    and "pu_running p \<or> rest \<noteq> []"
  shows "\<exists>s'. cpp_runs env s s' \<and> serving k s' (p\<lparr>pu_queue := rest, pu_executing := False\<rparr>) \<and>
    cs_user s' = eff (cs_user s)"
proof -
  let ?p = "p\<lparr>pu_queue := rest, pu_executing := False\<rparr>"
  let ?e = "set_pump ?p (s\<lparr>cs_user := eff (cs_user s), cs_value := Void\<rparr>)"
  have quiet: "quiet_pump k (cs_clock s) p" and pump: "cs_pump s = Some p" using assms(1) by (simp_all add: serving_def)
  then have "quiet_pump k (cs_clock ?e) ?p" by (simp add: quiet_pump_def timers_expired_def)
  then have "completes env [Context_after k, Context_switch] ?e ?e" by (intro after_event [of _ ?p]) simp_all
  from completes_append [OF worker_runs [OF pump quiet assms(2,3)] this]
  have "completes env ([Worker] @ [Context_after k, Context_switch]) s ?e" .
  moreover have "steps_to env (Context_loop k) ?e ?e (loop_frames k)"
    using assms(4) by (auto simp: steps_to_def context_loop_def loop_frames_def)
  ultimately have "cpp_runs env s (on_stack [Context_loop k] ?e)"
    using assms(1) by (intro runs_over) (simp_all add: serving_def loop_frames_def)
  also have "cpp_runs env \<dots> (on_stack (loop_frames k) ?e)"
    using \<open>steps_to env (Context_loop k) ?e ?e (loop_frames k)\<close>
    by (intro cpp_runs_step [OF _ cpp_runs_refl]) (simp add: steps_to_def cpp_step_def on_stack_def)
  finally have "cpp_runs env s (on_stack (loop_frames k) ?e)" .
  moreover have "serving k (on_stack (loop_frames k) ?e) ?p"
    using assms(1) by (auto simp: serving_def quiet_pump_def timers_expired_def on_stack_def)
  ultimately show ?thesis by (intro exI [of _ "on_stack (loop_frames k) ?e"]) simp
qed

text \<open>A pump that runs waits with its state unchanged once its queue is empty.\<close>

lemma serving_waits:
  "serving k s p \<Longrightarrow> pu_queue p = [] \<Longrightarrow> pu_running p \<Longrightarrow> cpp_step env s = Inr (Some s)"
  by (simp add: serving_def quiet_pump_def cpp_step_def loop_frames_def pump_worker_def worker_wait_def fun_upd_idem)

theorem pump_serves_in_order:
  assumes "serving k s p" and "pu_running p" and "\<forall>f \<in> set (pu_queue p). prog_acts env (ce_body env f) (eff f) Void"
  shows "\<exists>s' p'. cpp_runs env s s' \<and> serving k s' p' \<and> pu_queue p' = [] \<and> pu_running p' \<and>
    cs_user s' = fold eff (pu_queue p) (cs_user s) \<and> cpp_step env s' = Inr (Some s')"
  using assms
proof (induction "pu_queue p" arbitrary: s p)
  case Nil
  then show ?case by (intro exI [of _ s] exI [of _ p]) (simp add: cpp_runs_refl serving_waits flip: Nil(1))
next
  case (Cons f rest)
  from Cons(2) have queue: "pu_queue p = f # rest" by simp
  with Cons.prems obtain s1 where s1: "cpp_runs env s s1" "serving k s1 (p\<lparr>pu_queue := rest, pu_executing := False\<rparr>)"
      "cs_user s1 = eff f (cs_user s)"
    using serves_one [of k s p f rest env "eff f"] by auto
  from Cons(1) [of "p\<lparr>pu_queue := rest, pu_executing := False\<rparr>" s1] s1(2) Cons.prems queue
  obtain s' p' where "cpp_runs env s1 s'" "serving k s' p'" "pu_queue p' = []" "pu_running p'"
      "cs_user s' = fold eff rest (cs_user s1)" "cpp_step env s' = Inr (Some s')"
    by auto
  with s1 queue show ?case by (intro exI [of _ s'] exI [of _ p']) (auto intro: cpp_runs_trans)
qed

text \<open>A coroutine whose worker has nothing left to do gives control back to the thread, which returns.\<close>

lemma loop_ends:
  assumes "cs_pump s = Some p" and "quiet_pump k (cs_clock s) p" and "\<not> pu_running p" and "pu_queue p = []"
    and "k \<noteq> 0" and "cs_active s = k" and "cs_stacks s k = Some [Context_loop k]" and "cs_stacks s 0 = Some [Pump_called]"
  shows "\<exists>s'. cpp_runs env s s' \<and> cs_active s' = 0 \<and> cs_stacks s' 0 = Some [] \<and> cs_user s' = cs_user s"
proof -
  let ?s1 = "(yield_to 0 s)\<lparr>cs_stacks := (cs_stacks s)(k := Some [Context_begin])\<rparr>"
  let ?s2 = "?s1\<lparr>cs_stacks := (cs_stacks ?s1)(0 := Some [Pump_loop])\<rparr>"
  let ?s3 = "?s2\<lparr>cs_stacks := (cs_stacks ?s2)(0 := Some [])\<rparr>"
  have same: "remove_finished_coroutines p s' = s'" if "cs_pump s' = Some p" for s' :: "('a, 'b, 'c) cpp_sys"
    using assms(2) that by (simp add: remove_finished_coroutines_def quiet_pump_def new_coroutine_def)
  have 1: "cpp_step env s = Inr (Some ?s1)"
    using assms by (simp add: cpp_step_def context_loop_def quiet_pump_def yield_to_def)
  have 2: "cpp_step env ?s1 = Inr (Some ?s2)"
    using assms by (simp add: cpp_step_def pump_called_def get_cpp_pump_def yield_to_def same)
  have 3: "cpp_step env ?s2 = Inr (Some ?s3)"
    using assms by (simp add: cpp_step_def pump_loop_def get_cpp_pump_def yield_to_def quiet_pump_def c_assert_def)
  have "cpp_runs env s ?s3" by (rule cpp_runs_step [OF 1 cpp_runs_step [OF 2 cpp_runs_step [OF 3 cpp_runs_refl]]])
  then show ?thesis by (intro exI [of _ ?s3]) (simp add: yield_to_def)
qed

lemma drained_returns:
  assumes "serving k s p" and "\<not> pu_running p" and "pu_queue p = [] \<or> pu_queue p = [f]"
    and "\<forall>f \<in> set (pu_queue p). prog_acts env (ce_body env f) (eff f) Void"
  shows "\<exists>s'. cpp_runs env s s' \<and> cs_active s' = 0 \<and> cs_stacks s' 0 = Some [] \<and>
    cs_user s' = fold eff (pu_queue p) (cs_user s)"
proof -
  have quiet: "quiet_pump k (cs_clock s) p" and pump: "cs_pump s = Some p" using assms(1) by (simp_all add: serving_def)
  obtain e p' where worker: "completes env [Worker] s e" and e: "cs_pump e = Some p'" "quiet_pump k (cs_clock e) p'"
      "\<not> pu_running p'" "pu_queue p' = []" "cs_active e = cs_active s" "cs_stacks e = cs_stacks s"
      "cs_user e = fold eff (pu_queue p) (cs_user s)"
  proof (cases "pu_queue p = []")
    case True
    have "steps_to env Worker s s [Worker_deferred]"
      using assms(2) pump True by (simp add: steps_to_def pump_worker_def worker_wait_def)
    then have "completes env [Worker] s s"
      using after_event(1) [OF pump quiet] completes_step [of env Worker s s "[Worker_deferred]" "[]"] by simp
    with True pump quiet assms(2) show thesis by (intro that [of s p]) simp_all
  next
    case False
    with assms(3) have "pu_queue p = [f]" by simp
    let ?p = "p\<lparr>pu_queue := [], pu_executing := False\<rparr>"
    have "quiet_pump k (cs_clock s) ?p" using quiet by (simp add: quiet_pump_def timers_expired_def)
    with worker_runs [OF pump quiet \<open>pu_queue p = [f]\<close>, of env "eff f"] assms(2,4) \<open>pu_queue p = [f]\<close> show thesis
      by (intro that [of "set_pump ?p (s\<lparr>cs_user := eff f (cs_user s), cs_value := Void\<rparr>)" ?p]) simp_all
  qed
  from completes_append [OF worker after_event(2) [OF e(1,2)]]
  have "cpp_runs env s (on_stack [Context_loop k] e)"
    using assms(1) by (intro runs_over) (simp_all add: serving_def loop_frames_def)
  moreover have "\<exists>s'. cpp_runs env (on_stack [Context_loop k] e) s' \<and> cs_active s' = 0 \<and> cs_stacks s' 0 = Some [] \<and>
      cs_user s' = cs_user e"
    using loop_ends [of "on_stack [Context_loop k] e" p' k env] e assms(1) by (simp add: serving_def on_stack_def)
  ultimately show ?thesis using e(7) by (metis cpp_runs_trans)
qed


lemma stopped_drains:
  assumes "serving k s p" and "\<not> pu_running p" and "\<forall>f \<in> set (pu_queue p). prog_acts env (ce_body env f) (eff f) Void"
  shows "\<exists>s'. cpp_runs env s s' \<and> cs_active s' = 0 \<and> cs_stacks s' 0 = Some [] \<and>
    cs_user s' = fold eff (pu_queue p) (cs_user s)"
  using assms
proof (induction "pu_queue p" arbitrary: s p)
  case Nil
  with drained_returns [OF Nil.prems(1,2), of undefined env eff] show ?case by simp
next
  case (Cons f rest)
  from Cons(2) have queue: "pu_queue p = f # rest" by simp
  let ?p = "p\<lparr>pu_queue := rest, pu_executing := False\<rparr>"
  show ?case
  proof (cases "rest = []")
    case True
    with queue drained_returns [OF Cons.prems(1,2) _ Cons.prems(3), of f] show ?thesis by simp
  next
    case False
    with Cons.prems queue obtain s1 where s1: "cpp_runs env s s1" "serving k s1 ?p" "cs_user s1 = eff f (cs_user s)"
      using serves_one [of k s p f rest env "eff f"] by auto
    from Cons(1) [of ?p s1] s1(2) Cons.prems queue
    obtain s' where "cpp_runs env s1 s'" "cs_active s' = 0" "cs_stacks s' 0 = Some []"
        "cs_user s' = fold eff rest (cs_user s1)"
      by auto
    with s1 queue show ?thesis by (intro exI [of _ s']) (auto intro: cpp_runs_trans)
  qed
qed

text \<open>C5: stopping a pump loses nothing: whatever had been posted when \<open>stop\<close> was called still runs, each function
  once and in the order in which they were posted, and then the thread of the pump returns with its assertions
  satisfied.  Functions that only work on the user's state are considered.\<close>

theorem stopped_pump_returns:
  assumes "serving k s p" and "\<forall>f \<in> set (pu_queue p @ fs). prog_acts env (ce_body env f) (eff f) Void"
  shows "\<exists>s'. cpp_runs env (set_pump (pump_stop (fold pump_post fs p)) s) s' \<and> cs_active s' = 0 \<and>
    cs_stacks s' 0 = Some [] \<and> cs_user s' = fold eff (pu_queue p @ fs) (cs_user s)"
proof -
  have post: "fold pump_post fs q = q\<lparr>pu_queue := pu_queue q @ fs\<rparr>" for q :: "('a, 'b) cpp_pump"
    by (induction fs arbitrary: q) (simp_all add: pump_post_def)
  let ?p = "pump_stop (fold pump_post fs p)"
  have "serving k (set_pump ?p s) ?p"
    using assms(1) by (simp add: serving_def quiet_pump_def timers_expired_def post pump_stop_def)
  from stopped_drains [OF this, of env eff] assms(2) show ?thesis by (simp add: post pump_stop_def)
qed

section \<open>From the constructor\<close>

text \<open>The thread makes its first coroutine, which waits.\<close>

lemma constructed_pump_serves:
  assumes "cs_active s = 0"
  shows "\<exists>s' p. cpp_runs env (start_pump b s) s' \<and> serving 1 s' p \<and> pu_queue p = [] \<and> pu_running p \<and>
    cs_user s' = cs_user s \<and> cs_events s' = cs_events s"
proof -
  let ?p = "(pump_init b)\<lparr>pu_current := 1, pu_coroutines := [new_coroutine 1]\<rparr>"
  let ?at = "\<lambda>k f0 f1. s\<lparr>cs_pump := Some ?p, cs_active := k, cs_stacks := (cs_stacks s)(0 := Some f0, 1 := Some f1)\<rparr>"
  note defs = cpp_step_def pump_init_def new_coroutine_def get_cpp_pump_def c_assert_def yield_to_def yield_to_back_def
  have 1: "cpp_step env (start_pump b s) = Inr (Some (?at 0 [Pump_loop] [Context_begin]))"
    using assms by (simp add: start_pump_def pump_begin_def create_context_def defs fun_upd_twist)
  have 2: "cpp_step env (?at 0 [Pump_loop] [Context_begin]) = Inr (Some (?at 0 [Pump_paused] [Context_begin]))"
    by (simp add: pump_loop_def defs fun_upd_twist)
  have 3: "cpp_step env (?at 0 [Pump_paused] [Context_begin]) = Inr (Some (?at 1 [Pump_called] [Context_begin]))"
    by (simp add: pump_paused_def defs fun_upd_twist)
  have 4: "cpp_step env (?at 1 [Pump_called] [Context_begin]) = Inr (Some (?at 1 [Pump_called] [Context_switch, Context_loop 1]))"
    by (simp add: context_begin_def find_self_def self_p_def defs fun_upd_twist)
  have 5: "cpp_step env (?at 1 [Pump_called] [Context_switch, Context_loop 1]) = Inr (Some (?at 1 [Pump_called] [Context_loop 1]))"
    by (simp add: context_switch_def defs fun_upd_twist)
  have 6: "cpp_step env (?at 1 [Pump_called] [Context_loop 1]) = Inr (Some (?at 1 [Pump_called] (loop_frames 1)))"
    by (simp add: context_loop_def loop_frames_def defs fun_upd_twist)
  have "cpp_runs env (start_pump b s) (?at 1 [Pump_called] (loop_frames 1))"
    by (rule cpp_runs_step [OF 1 cpp_runs_step [OF 2 cpp_runs_step [OF 3 cpp_runs_step [OF 4 cpp_runs_step [OF 5
        cpp_runs_step [OF 6 cpp_runs_refl]]]]]])
  moreover have "serving 1 (?at 1 [Pump_called] (loop_frames 1)) ?p"
    by (simp add: serving_def quiet_pump_def pump_init_def timers_expired_def)
  ultimately show ?thesis
    by (intro exI [of _ "?at 1 [Pump_called] (loop_frames 1)"] exI [of _ ?p]) (simp add: pump_init_def)
qed

text \<open>The pump of \<open>Cpp_Examples\<close>'s functions: functions 3 and 4 are posted, then it is stopped.\<close>

theorem stopped_pump_returns_witness:
  "\<exists>s p s'. cpp_runs plain_env (start_pump False (runtime_init (\<lambda>_. []) [])) s \<and> cs_pump s = Some p \<and>
     cpp_runs plain_env (set_pump (pump_stop (fold pump_post [3, 4] p)) s) s' \<and>
     cs_active s' = 0 \<and> cs_stacks s' 0 = Some [] \<and> cs_user s' = [3, 4]"
proof -
  obtain s p where s: "cpp_runs plain_env (start_pump False (runtime_init (\<lambda>_. []) [])) s" "serving 1 s p" "pu_queue p = []"
      "cs_user s = []"
    using constructed_pump_serves [of "runtime_init (\<lambda>_. []) []" plain_env False] by (auto simp: runtime_init_def)
  with stopped_pump_returns [OF s(2), of "[3, 4]" plain_env "\<lambda>f u. u @ [f]"] plain_acts show ?thesis
    by (auto simp: serving_def)
qed

end
