(* ===== verification/Spec2Isabelle.thy ===== *)
theory Spec2Isabelle
  imports Linked_List Event_Queue Memory_Pool Hash_Key Hash_Map Map_Laws Map_Iteration Locator
    Trace_Text Runtime Pump_Examples Cpp_Examples
    Cpp_Context_Laws Thread_Pool Cpp_Meta Cpp_Locator Cpp_Container C_Main Cpp_Lifecycle
begin

text \<open>
  The run-time libraries of Dezyne for C and C++ (\<open>runtime/c\<close>, \<open>runtime/c++\<close>) and the test driver that is generated
  around a C system (\<open>dzn/templates/c/main.c\<close>).

  A Dezyne program is a system of components that are connected by ports.  The compiler generates a struct or class
  for every component; it calls the run-time library to dispatch events.  A call of an in event runs the handler of
  the component that provides the port and then delivers the events that were queued meanwhile; an out event is
  queued in the component that requires the port.  A component handles one event at a time.  With a pump, handlers
  run on coroutines: a blocking port parks the coroutine until another event releases the port, and calls that come
  in meanwhile wait in a collateral block.  Every event is written to a trace, with the path of the component.

  \<^bold>\<open>Shared.\<close>  \<^theory_text>\<open>Prelude\<close>: faults of C and C++ as the datatype \<open>c_error\<close>, computations that fail (\<open>result\<close>) or need not
  return (\<open>run\<close>), and a typed store of heap objects in which a freed address is \<open>None\<close>.  \<^theory_text>\<open>Chain\<close>: the locale \<open>linked\<close> of
  pointer chains, which lists and queue nodes interpret.

  \<^bold>\<open>The C runtime.\<close>
  \<^item> \<open>list.c\<close>: \<^theory_text>\<open>Linked_List\<close>, lists of pointers on a heap of cells, with append and delete in place.
  \<^item> \<open>queue.c\<close>: \<^theory_text>\<open>Event_Queue\<close>, the chain of nodes and the static ring, both interpretations of one locale \<open>fifo\<close>, which
    promises a bounded list.
  \<^item> \<open>mem.c\<close>: \<^theory_text>\<open>Memory_Pool\<close>, the pool of the static build and the hosted allocator.
  \<^item> \<open>map.c\<close>: \<^theory_text>\<open>Hash_Key\<close> (table-driven CRC-32 against the bitwise reference, and the mix), \<^theory_text>\<open>Hash_Map\<close> (init, probe,
    put, rehash, get, iterate, remove, free, length), \<^theory_text>\<open>Map_Laws\<close> (each operation as a change of a finite map, through
    any number of rehashes) and \<^theory_text>\<open>Map_Iteration\<close>.
  \<^item> \<open>locator.c\<close>: \<^theory_text>\<open>Locator\<close>, on the map.
  \<^item> \<open>runtime.c\<close>: \<^theory_text>\<open>Trace_Text\<close> (paths, trace lines, values as text) and \<^theory_text>\<open>Runtime\<close> (start, finish, enqueue, flush, handle and
    illegal, as a machine whose state has the records of the components, their queues and an explicit stack).
  \<^item> \<open>coroutine.c\<close>: \<^theory_text>\<open>Coroutine\<close>, on GNU Pth, which is the parameter \<open>pth_lib\<close> with its documented behaviour as hypotheses.
  \<^item> \<open>pump.c\<close>: \<^theory_text>\<open>Pump\<close> (the pump with its six lists on the cells of \<open>list.c\<close>, coroutines as stacks of frames), \<^theory_text>\<open>Pump_Laws\<close>
    (release before and after block, one event from call to return), \<^theory_text>\<open>Pump_Defer\<close> (deferred statements) and
    \<^theory_text>\<open>Pump_Examples\<close> (concrete pumps on a small thread library).
  \<^item> \<open>main.c\<close> of the templates: \<^theory_text>\<open>C_Main\<close>, the driver that plays a trace, with the map of \<^theory_text>\<open>Hash_Map\<close>.

  \<^bold>\<open>The C++ runtime.\<close>
  \<^item> \<open>runtime.cc\<close>, \<open>dzn/runtime.hh\<close>, \<open>dzn/meta.hh.in\<close>: \<^theory_text>\<open>Cpp_Text\<close> (traces, values as text, the hash of a label), \<^theory_text>\<open>Cpp_State\<close>
    (records and accessors), \<^theory_text>\<open>Cpp_Machine\<close> (in and out events, flush, deferred statements), \<^theory_text>\<open>Cpp_Events\<close> (constructors, and
    the class of in events without a value, which agrees with the shared functions), \<^theory_text>\<open>Cpp_Meta\<close> (the tree of components).
  \<^item> \<open>pump.cc\<close>, \<open>dzn/pump.hh\<close>, \<open>coroutine.cc\<close>: lists and timers in \<^theory_text>\<open>Cpp_State\<close>; block, release, collateral block, worker and
    thread in \<^theory_text>\<open>Cpp_Machine\<close>.  A state has the stack of each context; waiting on a condition is a step that changes
    nothing, so that the thread of the pump polls and the notifications of its condition variable are left out; other
    threads post, stop, pause and resume between any two steps (\<open>cpp_outside\<close>).
  \<^item> \<open>dzn/context.hh\<close>: \<^theory_text>\<open>Cpp_Context\<close>, the threads, mutexes and condition variables that stand for coroutines, as a step
    relation of all interleavings; \<^theory_text>\<open>Cpp_Context_Laws\<close>.  A thread that waits goes on only when it is notified
    (\<open>notify_one\<close>, \<open>notify_all\<close>); wake-ups for no reason are a second relation, which safety allows and progress does
    without.
  \<^item> \<open>thread-pool.cc\<close>: \<^theory_text>\<open>Thread_Pool\<close>, likewise.
  \<^item> \<open>dzn/locator.hh\<close>: \<^theory_text>\<open>Cpp_Locator\<close>.  \<open>dzn/container.hh\<close>: \<^theory_text>\<open>Cpp_Container\<close>, the driver that plays a trace.

  \<^bold>\<open>What is shown.\<close>
  \<^item> Data: lists, queues and the map refine lists and finite maps, on every branch that returns, and put returns; the
    checksum is the CRC; integers survive printing and reading, or the buffer overflows.
  \<^item> Dispatch: events are delivered first in first out, no component starts an event while it handles one, a call
    from outside returns with everything idle (\<^theory_text>\<open>Runtime\<close>; \<^theory_text>\<open>Cpp_Laws\<close> with the exact text of the trace).
  \<^item> Pumps: lists, contexts and timers stay consistent in every reachable state; timers fire in order; a release
    resumes the coroutine that waits; a pump that is constructed waits, serves what is posted in order, and after
    \<open>stop\<close> runs what is left and returns (\<^theory_text>\<open>Cpp_Pump_Laws\<close>, \<^theory_text>\<open>Cpp_Lifecycle\<close>, \<^theory_text>\<open>Pump_Laws\<close>).
  \<^item> Typing: whatever runs from a system made of events that were \<open>set\<close>, no event is read through a bad pointer
    (\<^theory_text>\<open>Cpp_Types\<close>, \<^theory_text>\<open>Cpp_Types_Examples\<close>; \<open>constructed_systems_typed\<close>).
  \<^item> Concurrency: exactly one context is in control; notifications alone lead to a state in which one runs, unless a
    context that has just returned is about to be released; the thread pool never gives a busy task a second function
    and keeps every promise without a lost notification.
  \<^item> Drivers: a trace of a system is played to its end and one that departs from it is refused (\<^theory_text>\<open>Cpp_Container\<close>); the C
    driver answers calls with the replies of the trace (\<^theory_text>\<open>C_Main\<close>).
  \<^item> Errors: what happens when sizes wrap, buffers are too small, a port is released after it was blocked, a
    deferred statement is pruned, two calls wait for one port, or a coroutine is called right after it returned.
  \<^theory_text>\<open>Cpp_Examples\<close> and \<^theory_text>\<open>Pump_Examples\<close> hold the concrete systems on which the properties are applied.

  \<^bold>\<open>Bounds and fuel.\<close>  Loops that may not end are \<open>partial_function (option)\<close>; \<open>dzn_map_put\<close> and the rehash are a group by
  nesting depth, and depth 17 is enough since each level doubles the table and tables of more than 65536 elements
  are refused (\<open>map_put_terminates\<close>).  The machines of the dispatcher and the pumps make one step at a time;
  statements that something returns are about the steps themselves, without a bound.  Sizes are those of a 64-bit
  host; counters, sizes and hashes are words of the width the code declares.  The queue of a component is a list whose
  emptiness is that of its size in 8 bits (\<open>rt_queue_empty\<close>): with 256 events nothing is delivered.

  \<^bold>\<open>Not modelled.\<close>
  \<^item> Debug output, the streams' state, \<open>pump::flush\<close> (a resume, a sleep and a pause), the names of threads, and what a
    destructor waits for; \<open>runtime::external\<close>, which nothing calls; exceptions that unwind a coroutine
    (\<open>forced_unwind\<close>) and the build on Boost coroutines.
  \<^item> Allocation failures in \<open>queue.c\<close>, \<open>list.c\<close>, \<open>runtime.c\<close> and \<open>pump.c\<close>: \<open>malloc\<close> succeeds there.
  \<^item> \<open>std-async.cc\<close>, which only calls \<open>std::async\<close>; the test programs inside the C files (\<open>DZN_..._TEST\<close>).
  \<^item> \<open>runtime.c\<close> with the static queues of \<open>queue.c\<close>: that build names a member that does not exist, so \<^theory_text>\<open>Runtime\<close> is the
    build with \<open>DZN_DYNAMIC_QUEUES\<close>; the static queues are modelled on their own.
  \<^item> Generated code and user code: what a handler does is a parameter, as are \<open>dzn_update_state\<close>, the connection
    checks and the text of enumerations.
  \<^item> The compiler, the model checker's front end and the simulator (\<open>dzn/*\<close>, in Scheme), the runtimes for C#,
    JavaScript and Scheme, the Emacs mode, the tests and the documentation: other languages than C and C++.
\<close>

end
